(* ===== verification/Prelude.thy ===== *)
theory Prelude
  imports Main "HOL-Library.Sublist"
begin

text \<open>
  The prelude of the development: the string operations of the JavaScript standard library the
  gateway uses, an insertion-ordered set and association list (JavaScript's \<open>Set\<close> and \<open>Map\<close>),
  and the lemmas on lists the component theories share.

  Strings. A \<open>string\<close> (a list of bytes) stands for the UTF-8 encoding of a well-formed
  JavaScript string. Concatenation, equality, \<open>startsWith\<close>, \<open>endsWith\<close>, and splitting or
  slicing at ASCII characters commute with that encoding. \<open>trim\<close> and \<open>toLowerCase\<close> are
  modelled on the ASCII characters: a host that reaches these functions from \<open>new URL\<close> is
  always ASCII (punycode).
\<close>

named_theorems js_simps \<open>evaluation rules for the string operations\<close>

section \<open>Characters\<close>

definition code :: "char \<Rightarrow> nat" where
  "code c = of_char c"

definition is_ws :: "char \<Rightarrow> bool" where
  "is_ws c \<longleftrightarrow> code c \<in> {9, 10, 11, 12, 13, 32}"

definition is_upper :: "char \<Rightarrow> bool" where
  "is_upper c \<longleftrightarrow> 65 \<le> code c \<and> code c \<le> 90"

definition is_lower :: "char \<Rightarrow> bool" where
  "is_lower c \<longleftrightarrow> 97 \<le> code c \<and> code c \<le> 122"

definition is_digit :: "char \<Rightarrow> bool" where
  "is_digit c \<longleftrightarrow> 48 \<le> code c \<and> code c \<le> 57"

definition is_ctrl :: "char \<Rightarrow> bool" where
  "is_ctrl c \<longleftrightarrow> code c < 32 \<or> code c = 127"

definition lower_char :: "char \<Rightarrow> char" where
  "lower_char c = (if is_upper c then char_of (code c + 32) else c)"

definition upper_char :: "char \<Rightarrow> char" where
  "upper_char c = (if is_lower c then char_of (code c - 32) else c)"

lemma code_char_of [simp]: "code (char_of n) = n mod 256"
  by (simp add: code_def)

lemma char_of_code [simp]: "char_of (code c) = c"
  by (simp add: code_def)

lemma code_less [simp]: "code c < 256"
  using of_char_mod_256 [where 'a = nat, of c] unfolding code_def
  by (metis mod_less_divisor zero_less_numeral)

lemma code_inject [simp]: "code c = code d \<longleftrightarrow> c = d"
  by (simp add: code_def)

lemma char_of_bits:
  "char_of (n :: nat) = Char (odd n) (odd (n div 2)) (odd (n div 4)) (odd (n div 8))
     (odd (n div 16)) (odd (n div 32)) (odd (n div 64)) (odd (n div 128))"
  by (simp add: char_of_def bit_iff_odd)

lemma lower_char_idem [simp]: "lower_char (lower_char c) = lower_char c"
  by (auto simp: lower_char_def is_upper_def)

lemma not_upper_lower_char [simp]: "\<not> is_upper (lower_char c)"
  by (auto simp: lower_char_def is_upper_def)

lemma lower_char_id: "\<not> is_upper c \<Longrightarrow> lower_char c = c"
  by (simp add: lower_char_def)

lemma is_ws_lower_char [simp]: "is_ws (lower_char c) = is_ws c"
  by (auto simp: lower_char_def is_ws_def is_upper_def)

lemma code_lower_char: "code (lower_char c) = (if is_upper c then code c + 32 else code c)"
  using code_less [of c] by (auto simp: lower_char_def is_upper_def)

lemma lower_char_eq_iff:
  assumes "\<not> is_upper d" "\<not> is_lower d"
  shows "lower_char c = d \<longleftrightarrow> c = d"
proof -
  have "lower_char c = d \<longleftrightarrow> code (lower_char c) = code d" by simp
  also have "\<dots> \<longleftrightarrow> code c = code d"
    using assms by (auto simp: code_lower_char is_upper_def is_lower_def)
  finally show ?thesis by simp
qed

section \<open>Strings\<close>

definition js_lower :: "string \<Rightarrow> string" where
  "js_lower = map lower_char"

definition js_upper :: "string \<Rightarrow> string" where
  "js_upper = map upper_char"

definition js_trim :: "string \<Rightarrow> string" where
  "js_trim s = rev (dropWhile is_ws (rev (dropWhile is_ws s)))"

definition starts_with :: "string \<Rightarrow> string \<Rightarrow> bool" where
  "starts_with s p \<longleftrightarrow> prefix p s"

definition ends_with :: "string \<Rightarrow> string \<Rightarrow> bool" where
  "ends_with s p \<longleftrightarrow> suffix p s"

fun split_on :: "char \<Rightarrow> string \<Rightarrow> string list" where
  "split_on d [] = [[]]"
| "split_on d (c # cs) =
     (if c = d then [] # split_on d cs
      else (case split_on d cs of [] \<Rightarrow> [[c]] | w # ws \<Rightarrow> (c # w) # ws))"

fun join_with :: "string \<Rightarrow> string list \<Rightarrow> string" where
  "join_with sep [] = []"
| "join_with sep [x] = x"
| "join_with sep (x # y # ys) = x @ sep @ join_with sep (y # ys)"

definition take_until :: "char \<Rightarrow> string \<Rightarrow> string" where
  \<comment> \<open>\<open>const i = s.indexOf(d); i === -1 ? s : s.slice(0, i)\<close>\<close>
  "take_until d s = takeWhile (\<lambda>c. c \<noteq> d) s"

definition js_length :: "string \<Rightarrow> nat" where
  \<comment> \<open>\<open>s.length\<close>, in UTF-16 code units: one per UTF-8 lead byte, two for a four-byte sequence\<close>
  "js_length s = length (filter (\<lambda>c. code c < 128 \<or> 192 \<le> code c) s) +
                 length (filter (\<lambda>c. 240 \<le> code c) s)"

fun replace_all :: "string \<Rightarrow> string \<Rightarrow> string \<Rightarrow> string" where
  \<comment> \<open>\<open>s.replaceAll(v, m)\<close> for a non-empty \<open>v\<close> and a replacement without \<open>$\<close>\<close>
  "replace_all v m [] = []"
| "replace_all v m (c # cs) =
     (if v \<noteq> [] \<and> prefix v (c # cs) then m @ replace_all v m (drop (length v - 1) cs)
      else c # replace_all v m cs)"

definition js_truthy :: "string option \<Rightarrow> bool" where
  \<comment> \<open>a string or \<open>undefined\<close> in a condition\<close>
  "js_truthy v \<longleftrightarrow> v \<noteq> None \<and> v \<noteq> Some []"

lemma js_lower_idem [simp]: "js_lower (js_lower s) = js_lower s"
  by (simp add: js_lower_def)

lemma js_lower_append [simp]: "js_lower (s @ t) = js_lower s @ js_lower t"
  by (simp add: js_lower_def)

lemma js_lower_Nil [simp]: "js_lower [] = []" "js_lower s = [] \<longleftrightarrow> s = []"
  by (simp_all add: js_lower_def)

lemma js_trim_Nil [simp]: "js_trim [] = []"
  by (simp add: js_trim_def)

lemma js_trim_id: "s = [] \<or> (\<not> is_ws (hd s) \<and> \<not> is_ws (last s)) \<Longrightarrow> js_trim s = s"
proof -
  assume s: "s = [] \<or> (\<not> is_ws (hd s) \<and> \<not> is_ws (last s))"
  have "dropWhile is_ws s = s" using s by (cases s) auto
  moreover have "dropWhile is_ws (rev s) = rev s"
    using s by (cases s rule: rev_cases) auto
  ultimately show "js_trim s = s" by (simp add: js_trim_def)
qed

lemma split_on_not_Nil [simp]: "split_on d s \<noteq> []"
  by (induction s) (auto split: list.splits)

lemma split_on_no_sep: "d \<notin> set s \<Longrightarrow> split_on d s = [s]"
  by (induction s) auto

lemma split_on_Cons_sep:
  "d \<notin> set s \<Longrightarrow> split_on d (s @ d # t) = s # split_on d t"
  by (induction s) auto

lemma join_split: "join_with [d] (split_on d s) = s"
proof (induction s)
  case Nil
  then show ?case by simp
next
  case (Cons c s)
  then show ?case
    by (cases "split_on d s" rule: list.exhaust; cases "tl (split_on d s)") auto
qed

lemma split_join:
  "ws \<noteq> [] \<Longrightarrow> \<forall>w \<in> set ws. d \<notin> set w \<Longrightarrow> split_on d (join_with [d] ws) = ws"
  by (induction "[d]" ws rule: join_with.induct) (auto simp: split_on_no_sep split_on_Cons_sep)

lemma split_on_no_sep_in: "w \<in> set (split_on d s) \<Longrightarrow> d \<notin> set w"
  by (induction s arbitrary: w) (auto split: if_splits list.splits)

section \<open>Decimal numerals\<close>

definition digit_val :: "char \<Rightarrow> nat" where
  "digit_val c = code c - 48"

definition dec_val :: "string \<Rightarrow> nat" where
  \<comment> \<open>\<open>Number(s)\<close> for a string of decimal digits\<close>
  "dec_val = foldl (\<lambda>n c. 10 * n + digit_val c) 0"

fun dec_str :: "nat \<Rightarrow> string" where
  \<comment> \<open>\<open>String(n)\<close> for a natural number\<close>
  "dec_str n = (if n < 10 then [char_of (48 + n)] else dec_str (n div 10) @ [char_of (48 + n mod 10)])"

declare dec_str.simps [simp del]

lemma dec_str_small: "n < 10 \<Longrightarrow> dec_str n = [char_of (48 + n)]"
  by (simp add: dec_str.simps)

lemma dec_str_step: "\<not> n < 10 \<Longrightarrow> dec_str n = dec_str (n div 10) @ [char_of (48 + n mod 10)]"
  by (simp add: dec_str.simps [of n])

lemma dec_val_snoc: "dec_val (s @ [c]) = 10 * dec_val s + digit_val c"
  by (simp add: dec_val_def)

lemma digit_val_char_of [simp]: "n < 10 \<Longrightarrow> digit_val (char_of (48 + n)) = n"
  by (simp add: digit_val_def)

lemma is_digit_char_of [simp]: "n < (10 :: nat) \<Longrightarrow> is_digit (char_of (48 + n))"
  by (simp add: is_digit_def)

lemma dec_str_props:
  "dec_str n \<noteq> [] \<and> list_all is_digit (dec_str n) \<and> dec_val (dec_str n) = n \<and>
   (n \<noteq> 0 \<longrightarrow> hd (dec_str n) \<noteq> CHR ''0'')"
proof (induction n rule: dec_str.induct)
  case (1 n)
  show ?case
  proof (cases "n < 10")
    case True
    have "char_of (48 + n) = CHR ''0'' \<longleftrightarrow> n = 0"
    proof -
      have "char_of (48 + n) = CHR ''0'' \<longleftrightarrow> code (char_of (48 + n)) = code CHR ''0''"
        by (simp only: code_inject)
      also have "\<dots> \<longleftrightarrow> n = 0" using True by (simp add: code_def)
      finally show ?thesis .
    qed
    with True show ?thesis by (simp add: dec_str_small dec_val_def)
  next
    case False
    with 1 show ?thesis
      by (simp add: dec_str_step dec_val_snoc)
  qed
qed

lemma dec_str_not_Nil [simp]: "dec_str n \<noteq> []"
  and dec_str_digits [simp]: "list_all is_digit (dec_str n)"
  and dec_val_dec_str [simp]: "dec_val (dec_str n) = n"
  and hd_dec_str: "n \<noteq> 0 \<Longrightarrow> hd (dec_str n) \<noteq> CHR ''0''"
  using dec_str_props [of n] by simp_all

lemma set_dec_str: "c \<in> set (dec_str n) \<Longrightarrow> is_digit c"
  using dec_str_digits [of n] by (simp add: list_all_iff)

lemma length_dec_str_byte: "n < 256 \<Longrightarrow> length (dec_str n) \<le> 3"
proof -
  assume n: "n < 256"
  have len: "length (dec_str m) \<le> Suc (length (dec_str (m div 10)))" for m
    by (cases "m < 10") (simp_all add: dec_str_step dec_str_small)
  have "n div 10 div 10 < 10" using n by simp
  then have "length (dec_str (n div 10 div 10)) = 1" by (simp only: dec_str_small) simp
  then show "length (dec_str n) \<le> 3"
    using len [of n] len [of "n div 10"] by linarith
qed

lemma dec_str_inject [simp]: "dec_str m = dec_str n \<longleftrightarrow> m = n"
  by (metis dec_val_dec_str)

definition js_int :: "int \<Rightarrow> string" where
  \<comment> \<open>an integral number in a template string\<close>
  "js_int n = (if n < 0 then CHR ''-'' # dec_str (nat (- n)) else dec_str (nat n))"

section \<open>Insertion-ordered sets and maps\<close>

definition set_add :: "'a \<Rightarrow> 'a list \<Rightarrow> 'a list" where
  "set_add x xs = (if x \<in> set xs then xs else xs @ [x])"

fun alist_put :: "'k \<Rightarrow> 'v \<Rightarrow> ('k \<times> 'v) list \<Rightarrow> ('k \<times> 'v) list" where
  "alist_put k v [] = [(k, v)]"
| "alist_put k v ((k', v') # xs) = (if k = k' then (k, v) # xs else (k', v') # alist_put k v xs)"

definition alist_del :: "'k \<Rightarrow> ('k \<times> 'v) list \<Rightarrow> ('k \<times> 'v) list" where
  "alist_del k = filter (\<lambda>p. fst p \<noteq> k)"

lemma set_set_add [simp]: "set (set_add x xs) = insert x (set xs)"
  by (auto simp: set_add_def)

lemma distinct_set_add [simp]: "distinct (set_add x xs) = distinct xs"
  by (auto simp: set_add_def)

lemma set_add_not_Nil [simp]: "set_add x xs \<noteq> []"
  by (auto simp: set_add_def)

lemma length_set_add: "length (set_add x xs) = (if x \<in> set xs then length xs else Suc (length xs))"
  by (simp add: set_add_def)

lemma length_removeAll_distinct:
  "distinct xs \<Longrightarrow> length (removeAll x xs) = (if x \<in> set xs then length xs - 1 else length xs)"
  by (simp add: distinct_remove1_removeAll [symmetric] length_remove1)

lemma map_of_alist_put [simp]: "map_of (alist_put k v xs) = (map_of xs)(k \<mapsto> v)"
  by (induction k v xs rule: alist_put.induct) auto

lemma map_of_alist_del [simp]: "map_of (alist_del k xs) = (map_of xs)(k := None)"
  by (induction xs) (auto simp: alist_del_def)

lemma dom_alist_put [simp]: "fst ` set (alist_put k v xs) = insert k (fst ` set xs)"
  by (induction k v xs rule: alist_put.induct) auto

lemma distinct_alist_put: "distinct (map fst xs) \<Longrightarrow> distinct (map fst (alist_put k v xs))"
proof (induction k v xs rule: alist_put.induct)
  case (2 k v k' v' xs)
  moreover have "set (map fst (alist_put k v xs)) = insert k (set (map fst xs))"
    by (simp only: set_map dom_alist_put)
  ultimately show ?case by auto
qed simp

lemma alist_del_absent: "k \<notin> fst ` set xs \<Longrightarrow> alist_del k xs = xs"
  by (auto simp: alist_del_def filter_id_conv)

lemma alist_del_Cons: "alist_del k ((k', v) # xs) = (if k = k' then alist_del k xs else (k', v) # alist_del k xs)"
  by (simp add: alist_del_def)

lemma length_alist_put: "distinct (map fst xs) \<Longrightarrow> length (alist_put k v xs) = Suc (length (alist_del k xs))"
proof (induction k v xs rule: alist_put.induct)
  case (2 k v k' v' xs)
  then show ?case by (cases "k = k'") (simp_all add: alist_del_Cons alist_del_absent)
qed (simp add: alist_del_def)

lemma length_alist_del:
  "distinct (map fst xs) \<Longrightarrow> k \<in> fst ` set xs \<Longrightarrow> length xs = Suc (length (alist_del k xs))"
proof (induction xs)
  case (Cons x xs)
  then show ?case by (cases x; cases "k = fst x") (simp_all add: alist_del_Cons alist_del_absent)
qed simp

lemma distinct_alist_del: "distinct (map fst xs) \<Longrightarrow> distinct (map fst (alist_del k xs))"
  by (simp add: alist_del_def distinct_map_filter)

lemmas js_evals [js_simps] =
  js_lower_def js_upper_def js_trim_def lower_char_def upper_char_def is_upper_def is_lower_def
  is_ws_def is_digit_def is_ctrl_def code_def starts_with_def ends_with_def take_until_def
  set_add_def alist_del_def char_of_bits

section \<open>JSON values\<close>

text \<open>What \<open>JSON.parse\<close> can return; the parser itself is a parameter where the code calls it.
  Object members are kept in order; \<open>e.f\<close> on an object reads the last member of that name,
  \<open>undefined\<close> (\<open>None\<close>) when there is none.\<close>

datatype json =
    JNull
  | JBool bool
  | JNum int
  | JStr string
  | JArr "json list"
  | JObj "(string \<times> json) list"

fun jfield :: "string \<Rightarrow> json \<Rightarrow> json option" where
  "jfield k (JObj ms) = map_of (rev ms) k"
| "jfield k _ = None"

fun is_jstr :: "json \<Rightarrow> bool" where
  "is_jstr (JStr s) = True"
| "is_jstr _ = False"

fun jstr :: "json \<Rightarrow> string" where
  "jstr (JStr s) = s"
| "jstr _ = []"

end
