(* ===== verification/Url_Host.thy ===== *)
theory Url_Host
  imports Prelude
begin

text \<open>
  Host canonicalisation and host-suffix matching (\<open>src/security/url.ts\<close>).

  The WHATWG URL parser (\<open>new URL(s)\<close>) is a parameter of the model: a function from the string
  to the parts the code reads, \<open>None\<close> where the constructor throws. Nothing is assumed of it.

  Host suffix tests are compared with a reference on DNS labels: a host is covered by a suffix
  exactly when the suffix's labels are a suffix of the host's labels.
\<close>

record url_parts =
  protocol :: string
  hostname :: string
  pathname :: string
  username :: string
  password :: string
  origin :: string

type_synonym url_parser = "string \<Rightarrow> url_parts option"

section \<open>Canonical hosts\<close>

definition canonicalizeHost :: "string \<Rightarrow> string" where
  "canonicalizeHost rawHost =
     (let host = js_lower (js_trim rawHost)
      in if length host > 1 \<and> ends_with host ''.'' then butlast host else host)"

definition canonicalizeHostForIp :: "string \<Rightarrow> string" where
  "canonicalizeHostForIp rawHost =
     (let host = canonicalizeHost rawHost
      in if starts_with host ''['' \<and> ends_with host '']'' then butlast (tl host) else host)"

definition HTTP_SCHEMES :: "string list" where
  "HTTP_SCHEMES = [''http:'', ''https:'']"

definition isHttpUrl :: "url_parser \<Rightarrow> string \<Rightarrow> bool" where
  "isHttpUrl parse url =
     (case parse url of None \<Rightarrow> False | Some u \<Rightarrow> protocol u \<in> set HTTP_SCHEMES)"

definition hostFromUrl :: "url_parser \<Rightarrow> string \<Rightarrow> string" where
  "hostFromUrl parse url =
     (case parse url of None \<Rightarrow> '''' | Some u \<Rightarrow> canonicalizeHost (hostname u))"

section \<open>Suffix lists\<close>

definition parseHostSuffixList :: "string option \<Rightarrow> string list" where
  "parseHostSuffixList value =
     (if \<not> js_truthy value then []
      else map canonicalizeHost (filter (\<lambda>h. h \<noteq> []) (map js_trim (split_on CHR '','' (the value)))))"

definition hostMatchesAnySuffix :: "string \<Rightarrow> string list \<Rightarrow> bool" where
  "hostMatchesAnySuffix host sfxs =
     (let h = canonicalizeHost host
      in \<exists>s \<in> set sfxs. h = s \<or> ends_with h (''.'' @ s))"

definition asciiHost :: "url_parser \<Rightarrow> string \<Rightarrow> string" where
  "asciiHost parse rawHost =
     (let canon = canonicalizeHost rawHost
      in if canon = [] then canon
         else (case parse (''https://'' @ canon) of
                 Some u \<Rightarrow> canonicalizeHost (hostname u)
               | None \<Rightarrow> canon))"

definition cookieBelongsToHost :: "url_parser \<Rightarrow> string \<Rightarrow> string \<Rightarrow> bool" where
  "cookieBelongsToHost parse domain ownerHost =
     (let d = asciiHost parse (if starts_with domain ''.'' then tl domain else domain);
          h = asciiHost parse ownerHost
      in if d = [] \<or> h = [] then False
         else if d = h then True
         else if CHR ''.'' \<notin> set h then False
         else if ends_with d (''.'' @ h) then True
         else if ends_with h (''.'' @ d) \<and> CHR ''.'' \<in> set d then True
         else False)"

section \<open>The reference: suffixes of DNS labels\<close>

definition labels :: "string \<Rightarrow> string list" where
  "labels = split_on CHR ''.''"

definition label_covers :: "string \<Rightarrow> string \<Rightarrow> bool" where
  \<comment> \<open>the host \<open>h\<close> is the domain \<open>s\<close> or one of its subdomains\<close>
  "label_covers s h \<longleftrightarrow> suffix (labels s) (labels h)"

lemma split_on_append_sep: "split_on d (p @ d # s) = split_on d p @ split_on d s"
  by (induction p) (auto split: list.splits)

lemma join_with_append:
  "xs \<noteq> [] \<Longrightarrow> ys \<noteq> [] \<Longrightarrow> join_with sep (xs @ ys) = join_with sep xs @ sep @ join_with sep ys"
proof (induction sep xs rule: join_with.induct)
  case (2 sep x)
  then show ?case by (cases ys) auto
qed auto

lemma label_covers_iff: "label_covers s h \<longleftrightarrow> h = s \<or> ends_with h (''.'' @ s)"
proof
  assume "label_covers s h"
  then obtain pre where h: "labels h = pre @ labels s"
    by (auto simp: label_covers_def suffix_def)
  have hj: "h = join_with ''.'' (pre @ labels s)"
    by (metis h join_split labels_def)
  have sj: "join_with ''.'' (labels s) = s"
    by (simp add: labels_def join_split)
  show "h = s \<or> ends_with h (''.'' @ s)"
  proof (cases "pre = []")
    case True
    then show ?thesis using hj sj by simp
  next
    case False
    then have "h = join_with ''.'' pre @ ''.'' @ s"
      using hj sj join_with_append [of pre "labels s" "''.''"] by (simp add: labels_def)
    then show ?thesis by (auto simp: ends_with_def suffix_def)
  qed
next
  assume "h = s \<or> ends_with h (''.'' @ s)"
  then show "label_covers s h"
  proof
    assume "ends_with h (''.'' @ s)"
    then obtain p where "h = p @ CHR ''.'' # s" by (auto simp: ends_with_def suffix_def)
    then show ?thesis by (simp add: label_covers_def labels_def split_on_append_sep suffix_def)
  qed (simp add: label_covers_def)
qed

lemma label_covers_refl [simp]: "label_covers s s"
  by (simp add: label_covers_def)

lemma label_covers_trans: "label_covers r s \<Longrightarrow> label_covers s h \<Longrightarrow> label_covers r h"
  by (auto simp: label_covers_def)

lemma label_covers_total:
  "label_covers r h \<Longrightarrow> label_covers s h \<Longrightarrow> label_covers r s \<or> label_covers s r"
  by (auto simp: label_covers_def suffix_same_cases)

section \<open>Canonicalisation\<close>

lemma set_js_trim: "set (js_trim s) \<subseteq> set s"
proof -
  have "set (dropWhile P (rev (dropWhile P s))) \<subseteq> set s" for P :: "char \<Rightarrow> bool"
    by (auto dest!: set_dropWhileD)
  then show ?thesis by (auto simp: js_trim_def)
qed

lemma set_canonicalizeHost:
  "c \<in> set (canonicalizeHost h) \<Longrightarrow> \<not> is_upper c \<and> c \<in> lower_char ` set h"
  using set_js_trim [of h]
  by (auto simp: canonicalizeHost_def js_lower_def Let_def dest!: in_set_butlastD split: if_splits
      intro!: imageI)

lemma canonicalizeHost_id:
  assumes "h \<noteq> []" "\<forall>c \<in> set h. \<not> is_upper c \<and> \<not> is_ws c" "last h \<noteq> CHR ''.''"
  shows "canonicalizeHost h = h"
proof -
  have "js_trim h = h" using assms by (intro js_trim_id) simp
  moreover have "js_lower h = h"
    unfolding js_lower_def using assms(2) by (intro map_idI) (simp add: lower_char_id)
  moreover have "\<not> ends_with h ''.''"
    using assms(1,3) by (auto simp: ends_with_def suffix_def)
  ultimately show ?thesis by (simp add: canonicalizeHost_def)
qed

lemma canonicalizeHost_fqdn_dot:
  assumes "h \<noteq> []" "\<forall>c \<in> set h. \<not> is_ws c" "last h \<noteq> CHR ''.''"
  shows "canonicalizeHost (h @ ''.'') = canonicalizeHost h"
proof -
  have t: "js_trim h = h" using assms by (intro js_trim_id) simp
  have t': "js_trim (h @ ''.'') = h @ ''.''"
    using assms by (intro js_trim_id) (auto simp: js_simps)
  have "\<not> ends_with (js_lower h) ''.''"
  proof
    assume "ends_with (js_lower h) ''.''"
    then have "last (js_lower h) = CHR ''.''" by (auto simp: ends_with_def suffix_def)
    then have "lower_char (last h) = CHR ''.''"
      using assms(1) by (simp add: js_lower_def last_map)
    then show False
      using assms(3) by (subst (asm) lower_char_eq_iff) (auto simp: js_simps)
  qed
  moreover have "js_lower ''.'' = ''.''" by (simp add: js_simps)
  ultimately show ?thesis
    using assms(1) by (auto simp: canonicalizeHost_def t t' ends_with_def Let_def Suc_le_eq)
qed

lemma canonicalizeHost_case: "canonicalizeHost (js_lower h) = canonicalizeHost h"
proof -
  have "js_trim (js_lower h) = js_lower (js_trim h)"
    by (simp add: js_trim_def js_lower_def dropWhile_map rev_map comp_def)
  then show ?thesis by (simp add: canonicalizeHost_def)
qed

lemma hostMatchesAnySuffix_iff:
  "hostMatchesAnySuffix host sfxs \<longleftrightarrow>
     (\<exists>s \<in> set sfxs. label_covers s (canonicalizeHost host))"
  by (simp add: hostMatchesAnySuffix_def label_covers_iff Let_def)

end
