(* ===== verification/Egress.thy ===== *)
theory Egress
  imports Url_Host "HOL-Library.Word"
begin

text \<open>
  The egress deny-filter (\<open>src/security/egress.ts\<close>): internal host names, and the private,
  loopback, link-local, CGNAT and metadata address ranges as a list of subnets.

  \<open>isIP\<close> and \<open>BlockList\<close> of \<open>node:net\<close> are modelled for what the source uses of them: strict
  dotted-quad IPv4 literals (four decimal octets, no leading zero), IPv6 literals with at most one
  \<open>::\<close> and an optional trailing dotted quad, subnet rules, and the check of an IPv4-mapped IPv6
  address against the IPv4 rules. Addresses are machine words of their real width. IPv6 zone
  identifiers (\<open>%eth0\<close>), which a URL host never carries, are not literals of this model.
\<close>

unbundle bit_operations_syntax

type_synonym ipv4 = "32 word"
type_synonym ipv6 = "128 word"

section \<open>Address literals\<close>

definition octet :: "string \<Rightarrow> nat option" where
  "octet s =
     (if s \<noteq> [] \<and> length s \<le> 3 \<and> list_all is_digit s \<and> (length s > 1 \<longrightarrow> hd s \<noteq> CHR ''0'') \<and> dec_val s \<le> 255
      then Some (dec_val s) else None)"

definition quad_word :: "nat \<Rightarrow> nat \<Rightarrow> nat \<Rightarrow> nat \<Rightarrow> ipv4" where
  "quad_word a b c d = ((of_nat a * 256 + of_nat b) * 256 + of_nat c) * 256 + of_nat d"

definition parse_ipv4 :: "string \<Rightarrow> ipv4 option" where
  "parse_ipv4 s =
     (case map octet (split_on CHR ''.'' s) of
        [Some a, Some b, Some c, Some d] \<Rightarrow> Some (quad_word a b c d)
      | _ \<Rightarrow> None)"

definition hex_val :: "char \<Rightarrow> 16 word option" where
  "hex_val c =
     (if is_digit c then Some (of_nat (code c - 48))
      else if 97 \<le> code c \<and> code c \<le> 102 then Some (of_nat (code c - 87))
      else if 65 \<le> code c \<and> code c \<le> 70 then Some (of_nat (code c - 55))
      else None)"

fun hex_word :: "16 word \<Rightarrow> string \<Rightarrow> 16 word option" where
  "hex_word n [] = Some n"
| "hex_word n (c # cs) = (case hex_val c of None \<Rightarrow> None | Some v \<Rightarrow> hex_word (16 * n + v) cs)"

definition hex_group :: "string \<Rightarrow> 16 word option" where
  "hex_group s = (if s = [] \<or> length s > 4 then None else hex_word 0 s)"

fun groups :: "bool \<Rightarrow> string list \<Rightarrow> 16 word list option" where
  \<comment> \<open>the flag says whether the last group may be a dotted quad\<close>
  "groups v4 [] = Some []"
| "groups v4 [g] =
     (case hex_group g of
        Some n \<Rightarrow> Some [n]
      | None \<Rightarrow>
          (if v4 then (case parse_ipv4 g of
                         Some w \<Rightarrow> Some [ucast (drop_bit 16 w), ucast w] | None \<Rightarrow> None)
           else None))"
| "groups v4 (g # h # gs) =
     (case (hex_group g, groups v4 (h # gs)) of (Some n, Some ns) \<Rightarrow> Some (n # ns) | _ \<Rightarrow> None)"

definition parse_groups :: "bool \<Rightarrow> string \<Rightarrow> 16 word list option" where
  "parse_groups v4 s = (if s = [] then Some [] else groups v4 (split_on CHR '':'' s))"

fun split_dcolon :: "string \<Rightarrow> (string \<times> string) option" where
  "split_dcolon (a # b # s) =
     (if a = CHR '':'' \<and> b = CHR '':'' then Some ([], s)
      else map_option (\<lambda>(l, r). (a # l, r)) (split_dcolon (b # s)))"
| "split_dcolon _ = None"

definition groups_word :: "16 word list \<Rightarrow> ipv6" where
  "groups_word gs = foldl (\<lambda>w g. push_bit 16 w OR ucast g) 0 gs"

definition parse_ipv6 :: "string \<Rightarrow> ipv6 option" where
  "parse_ipv6 s =
     (case split_dcolon s of
        None \<Rightarrow>
          (case parse_groups True s of
             Some gs \<Rightarrow> (if length gs = 8 then Some (groups_word gs) else None) | None \<Rightarrow> None)
      | Some (l, r) \<Rightarrow>
          (case (parse_groups False l, parse_groups True r) of
             (Some gl, Some gr) \<Rightarrow>
               (if length gl + length gr \<le> 7
                then Some (groups_word (gl @ replicate (8 - length gl - length gr) 0 @ gr)) else None)
           | _ \<Rightarrow> None))"

definition isIP :: "string \<Rightarrow> nat" where
  "isIP s = (if parse_ipv4 s \<noteq> None then 4 else if parse_ipv6 s \<noteq> None then 6 else 0)"

section \<open>The block list\<close>

definition in_subnet :: "nat \<Rightarrow> 'a::len word \<Rightarrow> 'a word \<Rightarrow> bool" where
  "in_subnet p net a \<longleftrightarrow> drop_bit (LENGTH('a) - p) a = drop_bit (LENGTH('a) - p) net"

definition PRIVATE4 :: "(ipv4 \<times> nat) list" where
  "PRIVATE4 =
     [(quad_word 0 0 0 0, 8), (quad_word 10 0 0 0, 8), (quad_word 127 0 0 0, 8),
      (quad_word 169 254 0 0, 16), (quad_word 172 16 0 0, 12), (quad_word 192 168 0 0, 16),
      (quad_word 100 64 0 0, 10)]"

definition PRIVATE6 :: "(ipv6 \<times> nat) list" where
  "PRIVATE6 =
     [(1, 128), (0, 128), (push_bit 112 0xfc00, 7), (push_bit 112 0xfe80, 10),
      (push_bit 112 0xfec0, 10)]"

definition blocked4 :: "ipv4 \<Rightarrow> bool" where
  "blocked4 a \<longleftrightarrow> (\<exists>(net, p) \<in> set PRIVATE4. in_subnet p net a)"

definition mapped4 :: "ipv6 \<Rightarrow> ipv4 option" where
  "mapped4 a = (if drop_bit 32 a = 0xffff then Some (ucast a) else None)"

definition blocked6 :: "ipv6 \<Rightarrow> bool" where
  "blocked6 a \<longleftrightarrow>
     (\<exists>(net, p) \<in> set PRIVATE6. in_subnet p net a) \<or>
     (case mapped4 a of Some b \<Rightarrow> blocked4 b | None \<Rightarrow> False)"

definition EGRESS_DENY_REASON :: string where
  "EGRESS_DENY_REASON = ''egress: private/internal/metadata address blocked''"

definition internal_name :: "string \<Rightarrow> bool" where
  "internal_name host \<longleftrightarrow>
     host = ''localhost'' \<or> ends_with host ''.localhost'' \<or>
     host = ''metadata'' \<or> host = ''metadata.google.internal'' \<or> host = ''metadata.goog'' \<or>
     ends_with host ''.internal'' \<or> ends_with host ''.local''"

definition isBlockedEgressHost :: "string \<Rightarrow> bool" where
  "isBlockedEgressHost rawHost =
     (let host = canonicalizeHostForIp rawHost
      in if host = [] then False
         else if internal_name host then True
         else (case parse_ipv4 host of
                 Some a \<Rightarrow> blocked4 a
               | None \<Rightarrow> (case parse_ipv6 host of Some a \<Rightarrow> blocked6 a | None \<Rightarrow> False)))"

section \<open>Dotted quads\<close>

definition dotted :: "nat \<Rightarrow> nat \<Rightarrow> nat \<Rightarrow> nat \<Rightarrow> string" where
  "dotted a b c d = join_with ''.'' [dec_str a, dec_str b, dec_str c, dec_str d]"

definition private_quad :: "nat \<Rightarrow> nat \<Rightarrow> bool" where
  \<comment> \<open>the ranges of the deny list, on the first two octets\<close>
  "private_quad a b \<longleftrightarrow>
     a = 0 \<or> a = 10 \<or> a = 127 \<or> (a = 169 \<and> b = 254) \<or> (a = 172 \<and> 16 \<le> b \<and> b \<le> 31) \<or>
     (a = 192 \<and> b = 168) \<or> (a = 100 \<and> 64 \<le> b \<and> b \<le> 127)"

lemma octet_dec_str: "n < 256 \<Longrightarrow> octet (dec_str n) = Some n"
proof -
  assume n: "n < 256"
  have "length (dec_str n) > 1 \<longrightarrow> n \<noteq> 0" by (cases "n = 0") (auto simp: dec_str_small)
  then show "octet (dec_str n) = Some n"
    using n length_dec_str_byte [OF n] hd_dec_str [of n] by (simp add: octet_def)
qed

lemma no_dot_dec_str: "CHR ''.'' \<notin> set (dec_str n)" "CHR '':'' \<notin> set (dec_str n)"
  by (auto dest!: set_dec_str simp: js_simps)

lemma split_dotted:
  "split_on CHR ''.'' (dotted a b c d) = [dec_str a, dec_str b, dec_str c, dec_str d]"
  unfolding dotted_def by (rule split_join) (auto simp: no_dot_dec_str)

lemma parse_dotted:
  "a < 256 \<Longrightarrow> b < 256 \<Longrightarrow> c < 256 \<Longrightarrow> d < 256 \<Longrightarrow>
   parse_ipv4 (dotted a b c d) = Some (quad_word a b c d)"
  by (simp add: parse_ipv4_def split_dotted octet_dec_str)

lemma unat_quad_word:
  assumes "a < 256" "b < 256" "c < 256" "d < 256"
  shows "unat (quad_word a b c d) = ((a * 256 + b) * 256 + c) * 256 + d"
proof -
  have "quad_word a b c d = of_nat (((a * 256 + b) * 256 + c) * 256 + d)"
    by (simp add: quad_word_def)
  then have "unat (quad_word a b c d) = (((a * 256 + b) * 256 + c) * 256 + d) mod 2 ^ 32"
    by (simp only: unat_of_nat) simp
  moreover have "((a * 256 + b) * 256 + c) * 256 + d < 2 ^ 32"
    using assms by simp
  ultimately show ?thesis by simp
qed

lemma in_subnet_unat:
  fixes a net :: "'a::len word"
  shows "in_subnet p net a \<longleftrightarrow> unat a div 2 ^ (LENGTH('a) - p) = unat net div 2 ^ (LENGTH('a) - p)"
proof -
  have d: "unat (drop_bit k w) = unat w div 2 ^ k" for k and w :: "'a word"
    by (subst unat_drop_bit_eq) (simp add: drop_bit_eq_div)
  have "in_subnet p net a \<longleftrightarrow>
      unat (drop_bit (LENGTH('a) - p) a) = unat (drop_bit (LENGTH('a) - p) net)"
    by (simp only: in_subnet_def word_unat_eq_iff)
  then show ?thesis by (simp only: d)
qed

lemma blocked4_quad:
  assumes "a < 256" "b < 256" "c < 256" "d < 256"
  shows "blocked4 (quad_word a b c d) \<longleftrightarrow> private_quad a b"
proof -
  let ?x = "((a * 256 + b) * 256 + c) * 256 + d"
  have d24: "?x div 2 ^ 24 = a" and d16: "?x div 2 ^ 16 = a * 256 + b"
    using assms by simp_all
  have d20: "?x div 2 ^ 20 = (a * 256 + b) div 16"
    using div_mult2_eq [of ?x "2 ^ 16" 16] by (simp only: d16) simp
  have d22: "?x div 2 ^ 22 = (a * 256 + b) div 64"
    using div_mult2_eq [of ?x "2 ^ 16" 64] by (simp only: d16) simp
  have e16: "a * 256 + b = m * 256 + n \<longleftrightarrow> a = m \<and> b = n" if "n < 256" for m n
  proof
    assume eq: "a * 256 + b = m * 256 + n"
    have "b = (a * 256 + b) mod 256" "n = (m * 256 + n) mod 256"
      using assms(2) that by simp_all
    with eq show "a = m \<and> b = n" by simp
  qed simp
  have e20: "(a * 256 + b) div 16 = 2753 \<longleftrightarrow> a = 172 \<and> 16 \<le> b \<and> b \<le> 31"
  proof -
    have "(a * 256 + b) div 16 = 2753 \<longleftrightarrow> 44048 \<le> a * 256 + b \<and> a * 256 + b < 44064" by auto
    also have "\<dots> \<longleftrightarrow> a = 172 \<and> 44048 \<le> a * 256 + b \<and> a * 256 + b < 44064"
      using assms(2) by linarith
    finally show ?thesis by auto
  qed
  have e22: "(a * 256 + b) div 64 = 401 \<longleftrightarrow> a = 100 \<and> 64 \<le> b \<and> b \<le> 127"
  proof -
    have "(a * 256 + b) div 64 = 401 \<longleftrightarrow> 25664 \<le> a * 256 + b \<and> a * 256 + b < 25728" by auto
    also have "\<dots> \<longleftrightarrow> a = 100 \<and> 25664 \<le> a * 256 + b \<and> a * 256 + b < 25728"
      using assms(2) by linarith
    finally show ?thesis by auto
  qed
  have "blocked4 (quad_word a b c d) \<longleftrightarrow>
      ?x div 2 ^ 24 = 0 \<or> ?x div 2 ^ 24 = 10 \<or> ?x div 2 ^ 24 = 127 \<or> ?x div 2 ^ 16 = 169 * 256 + 254 \<or>
      ?x div 2 ^ 20 = 2753 \<or> ?x div 2 ^ 16 = 192 * 256 + 168 \<or> ?x div 2 ^ 22 = 401"
    unfolding blocked4_def PRIVATE4_def in_subnet_unat unat_quad_word [OF assms]
    by (simp add: in_subnet_unat unat_quad_word assms)
  then show ?thesis
    unfolding d24 d16 d20 d22 private_quad_def by (simp only: e20 e22 e16)
qed


section \<open>IPv4-mapped IPv6 literals\<close>

definition mapped_word :: "16 word \<Rightarrow> ipv4 \<Rightarrow> ipv6" where
  "mapped_word x w = push_bit 32 (ucast x) OR ucast w"

lemma bit_mapped_word:
  "bit (mapped_word x w) n \<longleftrightarrow> (if n < 32 then bit w n else n < 48 \<and> bit x (n - 32))"
proof (cases "n < 32")
  case False
  then have "\<not> bit w n" by (auto dest: bit_imp_le_length)
  with False show ?thesis by (auto simp: mapped_word_def bit_simps dest: bit_imp_le_length)
qed (simp add: mapped_word_def bit_simps)

lemma groups_mapped_word:
  "groups_word [0, 0, 0, 0, 0, x, ucast (drop_bit 16 w), ucast (w :: ipv4)] = mapped_word x w"
  by (rule bit_word_eqI)
    (auto simp: groups_word_def bit_mapped_word bit_simps dest: bit_imp_le_length)

lemma mapped4_mapped_word: "mapped4 (mapped_word 0xffff w) = Some w"
proof -
  have "drop_bit 32 (mapped_word x w) = ucast x" for x
    by (rule bit_word_eqI) (auto simp: bit_mapped_word bit_simps dest: bit_imp_le_length)
  then have "drop_bit 32 (mapped_word 0xffff w) = 0xffff" by simp
  moreover have "ucast (mapped_word 0xffff w) = w"
    by (rule bit_word_eqI) (auto simp: bit_mapped_word bit_simps)
  ultimately show ?thesis by (simp add: mapped4_def)
qed

lemma mapped_word_not_rule6:
  "\<not> (\<exists>(net, p) \<in> set PRIVATE6. in_subnet p net (mapped_word 0xffff w))"
proof -
  have m: "bit (mapped_word 0xffff w) 32" by (simp add: bit_mapped_word)
  have "mapped_word 0xffff w \<noteq> 0" using m by auto
  moreover have "mapped_word 0xffff w \<noteq> 1"
  proof
    assume "mapped_word 0xffff w = 1"
    with m show False by (simp add: bit_1_iff)
  qed
  moreover have "drop_bit 121 (mapped_word 0xffff w) = 0" "drop_bit 118 (mapped_word 0xffff w) = 0"
    by (rule bit_word_eqI; auto simp: bit_mapped_word bit_simps)+
  ultimately show ?thesis by (simp add: PRIVATE6_def in_subnet_def)
qed

lemma blocked6_mapped_word: "blocked6 (mapped_word 0xffff w) \<longleftrightarrow> blocked4 w"
  using mapped_word_not_rule6 [of w] by (simp add: blocked6_def mapped4_mapped_word)

lemma parse_mapped:
  assumes "a < 256" "b < 256" "c < 256" "d < 256"
  shows "parse_ipv6 (''::ffff:'' @ dotted a b c d) = Some (mapped_word 0xffff (quad_word a b c d))"
    and "parse_ipv4 (''::ffff:'' @ dotted a b c d) = None"
proof -
  have nc: "CHR '':'' \<notin> set (dotted a b c d)"
    by (simp add: dotted_def no_dot_dec_str)
  have split: "split_on CHR '':'' (''ffff:'' @ dotted a b c d) = [''ffff'', dotted a b c d]"
    using split_on_no_sep [OF nc] by simp
  have hex: "hex_group ''ffff'' = Some 0xffff"
    by (simp add: hex_group_def hex_val_def js_simps)
  have "CHR ''.'' \<in> set (dotted a b c d)" by (simp add: dotted_def)
  then have "hex_word n (dotted a b c d) = None" for n
  proof -
    have "hex_word n s = None" if "CHR ''.'' \<in> set s" for n s
      using that by (induction s arbitrary: n)
        (auto simp: hex_val_def js_simps split: option.splits)
    then show ?thesis using \<open>CHR ''.'' \<in> set (dotted a b c d)\<close> by blast
  qed
  then have nh: "hex_group (dotted a b c d) = None" by (simp add: hex_group_def)
  have "groups True [''ffff'', dotted a b c d] =
      Some [0xffff, ucast (drop_bit 16 (quad_word a b c d)), ucast (quad_word a b c d)]"
    using assms by (simp add: hex nh parse_dotted)
  then have "parse_groups True (''ffff:'' @ dotted a b c d) =
      Some [0xffff, ucast (drop_bit 16 (quad_word a b c d)), ucast (quad_word a b c d)]"
    unfolding parse_groups_def split by simp
  then show "parse_ipv6 (''::ffff:'' @ dotted a b c d) = Some (mapped_word 0xffff (quad_word a b c d))"
    using groups_mapped_word [of "0xffff" "quad_word a b c d"]
    by (simp add: parse_ipv6_def parse_groups_def [of False] numeral_eq_Suc)
  have "octet (CHR '':'' # s) = None" for s by (simp add: octet_def js_simps)
  then show "parse_ipv4 (''::ffff:'' @ dotted a b c d) = None"
    by (simp add: parse_ipv4_def split: list.splits option.splits)
qed


section \<open>Correctness of the filter\<close>

lemma dotted_chars: "c \<in> set (dotted a b c' d) \<Longrightarrow> is_digit c \<or> c = CHR ''.''"
  by (auto simp: dotted_def dest: set_dec_str)

lemma hd_dotted: "is_digit (hd (dotted a b c d))" and last_dotted: "is_digit (last (dotted a b c d))"
  and dotted_not_Nil [simp]: "dotted a b c d \<noteq> []"
  using set_dec_str [of "hd (dec_str a)" a] set_dec_str [of "last (dec_str d)" d]
  by (simp_all add: dotted_def)

lemma not_internal_name: "is_digit (last h) \<Longrightarrow> \<not> internal_name h"
  by (auto simp: internal_name_def ends_with_def suffix_def js_simps)

lemma canonicalizeHostForIp_id:
  assumes "h \<noteq> []" "\<forall>c \<in> set h. \<not> is_upper c \<and> \<not> is_ws c" "last h \<noteq> CHR ''.''" "hd h \<noteq> CHR ''[''"
  shows "canonicalizeHostForIp h = h"
  using assms
  by (cases h) (simp_all add: canonicalizeHostForIp_def canonicalizeHost_id starts_with_def)

lemma canonicalizeHostForIp_brackets:
  assumes "\<forall>c \<in> set h. \<not> is_upper c \<and> \<not> is_ws c"
  shows "canonicalizeHostForIp (''['' @ h @ '']'') = h"
proof -
  have "canonicalizeHost (''['' @ h @ '']'') = ''['' @ h @ '']''"
    using assms by (intro canonicalizeHost_id) (auto simp: js_simps)
  then show ?thesis by (simp add: canonicalizeHostForIp_def starts_with_def ends_with_def suffix_def)
qed

lemma dotted_plain:
  "c \<in> set (dotted a b c' d) \<Longrightarrow> \<not> is_upper c \<and> \<not> is_ws c"
  by (drule dotted_chars) (auto simp: is_digit_def is_upper_def is_ws_def code_def)

text \<open>C4: an IPv4 literal is refused exactly when it lies in one of the private, loopback,
  link-local (metadata) or carrier-grade ranges, whatever its four octets.\<close>

theorem egress_ipv4_exact:
  assumes "a < 256" "b < 256" "c < 256" "d < 256"
  shows "isBlockedEgressHost (dotted a b c d) \<longleftrightarrow> private_quad a b"
proof -
  have "canonicalizeHostForIp (dotted a b c d) = dotted a b c d"
    using hd_dotted [of a b c d] last_dotted [of a b c d] dotted_plain
    by (intro canonicalizeHostForIp_id) (auto simp: js_simps)
  then show ?thesis
    using assms last_dotted [of a b c d]
    by (simp add: isBlockedEgressHost_def not_internal_name parse_dotted blocked4_quad Let_def)
qed

theorem egress_ipv4_exact_witness:
  "isBlockedEgressHost (dotted 169 254 169 254) \<and> \<not> isBlockedEgressHost (dotted 8 8 8 8)"
  using egress_ipv4_exact [of 169 254 169 254] egress_ipv4_exact [of 8 8 8 8]
  by (simp add: private_quad_def)



end
