(* ===== verification/Secrets.thy ===== *)
theory Secrets
  imports Prelude
begin

text \<open>
  The secret store and the redaction of known secret values (\<open>src/security/secrets.ts\<close>).

  \<open>encodeURIComponent\<close> and the string escapes of \<open>JSON.stringify\<close> are exact on the UTF-8 bytes of
  the value; the quoting of \<open>util.inspect\<close> is a parameter \<open>insp\<close>. The environment a reload reads
  is an argument. A thrown error is a value; what a reload wrote before it threw stays written.
\<close>

section \<open>Encodings\<close>

definition hex_digit :: "nat \<Rightarrow> char" where
  "hex_digit n = (if n < 10 then char_of (48 + n) else char_of (55 + n))"

definition hex_digit_lc :: "nat \<Rightarrow> char" where
  "hex_digit_lc n = (if n < 10 then char_of (48 + n) else char_of (87 + n))"

definition uri_unreserved :: "char \<Rightarrow> bool" where
  "uri_unreserved c \<longleftrightarrow>
     is_upper c \<or> is_lower c \<or> is_digit c \<or> c \<in> set ''-_.!~*()'' \<or> code c = 39"

definition encodeURIComponent :: "string \<Rightarrow> string" where
  "encodeURIComponent s =
     concat (map (\<lambda>c. if uri_unreserved c then [c]
                       else [CHR ''%'', hex_digit (code c div 16), hex_digit (code c mod 16)]) s)"

definition json_escape_char :: "char \<Rightarrow> string" where
  "json_escape_char c =
     (if code c = 34 then [char_of (92::nat), c]
      else if code c = 92 then [c, c]
      else if code c = 8 then [char_of (92::nat), CHR ''b'']
      else if code c = 12 then [char_of (92::nat), CHR ''f'']
      else if code c = 10 then [char_of (92::nat), CHR ''n'']
      else if code c = 13 then [char_of (92::nat), CHR ''r'']
      else if code c = 9 then [char_of (92::nat), CHR ''t'']
      else if code c < 32
        then [char_of (92::nat), CHR ''u'', CHR ''0'', CHR ''0'', hex_digit_lc (code c div 16), hex_digit_lc (code c mod 16)]
      else [c])"

definition json_escape :: "string \<Rightarrow> string" where
  \<comment> \<open>\<open>JSON.stringify(s).slice(1, -1)\<close>\<close>
  "json_escape s = concat (map json_escape_char s)"

section \<open>The store\<close>

definition MIN_REDACTABLE_LEN :: nat where
  "MIN_REDACTABLE_LEN = 3"

definition REDACTED :: string where
  "REDACTED = ''[REDACTED]''"

definition RESERVED_REDACTION_MARKERS :: "string list" where
  "RESERVED_REDACTION_MARKERS = [REDACTED, ''<url>'']"

datatype secret_error = TooShort | CollidesWithMarker

definition assertRedactableSecret :: "string \<Rightarrow> secret_error option" where
  "assertRedactableSecret value =
     (if js_length value < MIN_REDACTABLE_LEN then Some TooShort
      else if value \<in> set RESERVED_REDACTION_MARKERS then Some CollidesWithMarker
      else None)"

definition SECRET_KEYS :: "string list" where
  "SECRET_KEYS =
     [''BGW_PROXY_URL'', ''BGW_PROXY_USERNAME'', ''BGW_PROXY_PASSWORD'', ''BGW_CAPTCHA_API_KEY'',
      ''BGW_BRAVE_SEARCH_API_KEY'', ''BGW_VAULT_KEY'']"

record secret_store =
  vals :: "(string \<times> string) list"
  redactable :: "string list"

type_synonym env = "string \<Rightarrow> string option"

fun reload_loop :: "env \<Rightarrow> string list \<Rightarrow> (string \<times> string) list \<Rightarrow> secret_store
    \<Rightarrow> secret_error option \<times> secret_store" where
  "reload_loop env [] nxt st = (None, st\<lparr>vals := nxt\<rparr>)"
| "reload_loop env (key # keys) nxt st =
     (if js_truthy (env key) then
        (let value = the (env key) in
         case assertRedactableSecret value of
           Some e \<Rightarrow> (Some e, st)
         | None \<Rightarrow> reload_loop env keys (alist_put key value nxt)
                    (st\<lparr>redactable := set_add value (redactable st)\<rparr>))
      else reload_loop env keys nxt st)"

definition reload :: "env \<Rightarrow> secret_store \<Rightarrow> secret_error option \<times> secret_store" where
  "reload env st = reload_loop env SECRET_KEYS [] st"

definition new_SecretStore :: "env \<Rightarrow> secret_error option \<times> secret_store" where
  "new_SecretStore env = reload env \<lparr>vals = [], redactable = []\<rparr>"

fun addRedactable :: "string list \<Rightarrow> secret_store \<Rightarrow> secret_error option \<times> secret_store" where
  "addRedactable [] st = (None, st)"
| "addRedactable (v # vs) st =
     (if v = [] then addRedactable vs st
      else if v \<in> set RESERVED_REDACTION_MARKERS then (Some CollidesWithMarker, st)
      else addRedactable vs (st\<lparr>redactable := set_add v (redactable st)\<rparr>))"

fun addRedactableCredential :: "string list \<Rightarrow> secret_store \<Rightarrow> secret_error option \<times> secret_store" where
  "addRedactableCredential [] st = (None, st)"
| "addRedactableCredential (v # vs) st =
     (if v = [] then addRedactableCredential vs st
      else (case assertRedactableSecret v of
              Some e \<Rightarrow> (Some e, st)
            | None \<Rightarrow> addRedactableCredential vs (st\<lparr>redactable := set_add v (redactable st)\<rparr>)))"

definition get_secret :: "secret_store \<Rightarrow> string \<Rightarrow> string option" where
  "get_secret st key = map_of (vals st) key"

definition has_secret :: "secret_store \<Rightarrow> string \<Rightarrow> bool" where
  "has_secret st key \<longleftrightarrow> map_of (vals st) key \<noteq> None"

definition secretValues :: "secret_store \<Rightarrow> string list" where
  "secretValues st = map snd (vals st)"

definition redactableValues :: "secret_store \<Rightarrow> string list" where
  "redactableValues st = redactable st"

definition toJSON :: "secret_store \<Rightarrow> (string \<times> string) list" where
  "toJSON st = map (\<lambda>(k, _). (k, REDACTED)) (vals st)"

section \<open>Redaction\<close>

definition add_variant :: "string \<Rightarrow> string \<Rightarrow> string list \<Rightarrow> string list" where
  "add_variant value enc vs = (if enc \<noteq> value then set_add enc vs else vs)"

fun variants_of :: "(string \<Rightarrow> string) \<Rightarrow> string list \<Rightarrow> string list \<Rightarrow> string list" where
  "variants_of insp [] vs = vs"
| "variants_of insp (value # rest) vs =
     (if js_length value < 3 then variants_of insp rest vs
      else variants_of insp rest
        (add_variant value (insp value)
          (add_variant value (json_escape value)
            (add_variant value (encodeURIComponent value) (set_add value vs)))))"

definition redactSecrets :: "(string \<Rightarrow> string) \<Rightarrow> string \<Rightarrow> string list \<Rightarrow> string" where
  "redactSecrets insp text redactables =
     foldl (\<lambda>out value. replace_all value REDACTED out) text
       (sort_key (\<lambda>v. - int (js_length v)) (variants_of insp redactables []))"

section \<open>What replacing leaves\<close>

definition marker_safe :: "string \<Rightarrow> bool" where
  \<comment> \<open>a value no part of the marker \<open>[REDACTED]\<close> can complete\<close>
  "marker_safe v \<longleftrightarrow> v \<noteq> [] \<and> CHR ''['' \<notin> set v \<and> CHR '']'' \<notin> set v \<and> \<not> sublist v REDACTED"

lemma prefix_replace_all:
  "CHR ''['' \<notin> set v \<Longrightarrow> prefix v (replace_all w REDACTED s) \<Longrightarrow> prefix v s"
proof (induction w REDACTED s arbitrary: v rule: replace_all.induct)
  case (2 w c cs)
  show ?case
  proof (cases "w \<noteq> [] \<and> prefix w (c # cs)")
    case True
    then have "prefix v (REDACTED @ replace_all w REDACTED (drop (length w - 1) cs))"
      using 2 by simp
    then have "v = []" using 2(3) by (cases v) (auto simp: REDACTED_def)
    then show ?thesis by simp
  next
    case False
    then have "prefix v (c # replace_all w REDACTED cs)" using "2.prems" by auto
    with 2 False show ?thesis by (cases v) auto
  qed
qed simp

lemma sublist_marker_append:
  assumes "marker_safe v" "sublist v (REDACTED @ rest)"
  shows "sublist v rest"
proof -
  consider "sublist v REDACTED" | "sublist v rest"
    | a b where "v = a @ b" "suffix a REDACTED" "prefix b rest"
    using assms(2) by (auto simp: sublist_append)
  then show ?thesis
  proof cases
    case 1
    with assms show ?thesis by (simp add: marker_safe_def)
  next
    case 3
    have "a = []"
    proof (rule ccontr)
      assume "a \<noteq> []"
      with \<open>suffix a REDACTED\<close> have "last a = CHR '']''"
        by (auto simp: REDACTED_def suffix_def) (metis last_ConsR last_appendR last.simps list.discI)
      with \<open>a \<noteq> []\<close> have "CHR '']'' \<in> set v" using \<open>v = a @ b\<close> by (metis UnCI last_in_set set_append)
      with assms show False by (simp add: marker_safe_def)
    qed
    with 3 show ?thesis by auto
  qed
qed

lemma sublist_replace_all:
  "marker_safe v \<Longrightarrow> sublist v (replace_all w REDACTED s) \<Longrightarrow> sublist v s"
proof (induction w REDACTED s rule: replace_all.induct)
  case (2 w c cs)
  show ?case
  proof (cases "w \<noteq> [] \<and> prefix w (c # cs)")
    case True
    then have "sublist v (replace_all w REDACTED (drop (length w - 1) cs))"
      using 2 by (auto intro: sublist_marker_append)
    then have "sublist v (drop (length w - 1) cs)" using 2 True by simp
    then show ?thesis
      using sublist_drop [of "length w - 1" cs] by (auto simp: sublist_Cons_right dest: sublist_order.order_trans)
  next
    case False
    then have "sublist v (c # replace_all w REDACTED cs)" using "2.prems" by auto
    then consider (front) "prefix v (replace_all w REDACTED (c # cs))"
      | (later) "sublist v (replace_all w REDACTED cs)"
      using False by (auto simp: sublist_Cons_right)
    then show ?thesis
    proof cases
      case front
      then show ?thesis
        using "2.prems"(1) by (meson marker_safe_def prefix_imp_sublist prefix_replace_all)
    next
      case later
      then show ?thesis using "2.hyps" "2.prems"(1) False by (auto simp: sublist_Cons_right)
    qed
  qed
qed simp

lemma replace_all_removes:
  "marker_safe v \<Longrightarrow> \<not> sublist v (replace_all v REDACTED s)"
proof (induction v REDACTED s rule: replace_all.induct)
  case (1 v)
  then show ?case by (simp add: marker_safe_def)
next
  case (2 v c cs)
  show ?case
  proof (cases "prefix v (c # cs)")
    case True
    then show ?thesis using 2 by (auto simp: marker_safe_def dest: sublist_marker_append [OF "2.prems"])
  next
    case False
    then have "\<not> prefix v (replace_all v REDACTED (c # cs))"
      using prefix_replace_all "2.prems" by (meson marker_safe_def)
    moreover have "\<not> sublist v (replace_all v REDACTED cs)" using 2 False by simp
    ultimately show ?thesis using False by (auto simp: sublist_Cons_right)
  qed
qed


lemma fold_replace_sublist:
  "marker_safe v \<Longrightarrow> sublist v (foldl (\<lambda>out w. replace_all w REDACTED out) s ws) \<Longrightarrow> sublist v s"
  by (induction ws arbitrary: s) (auto dest: sublist_replace_all)

lemma fold_replace_removes:
  "marker_safe v \<Longrightarrow> v \<in> set ws \<Longrightarrow>
     \<not> sublist v (foldl (\<lambda>out w. replace_all w REDACTED out) s ws)"
proof (induction ws arbitrary: s)
  case (Cons w ws)
  show ?case
  proof (cases "w = v")
    case True
    have "\<not> sublist v (replace_all v REDACTED s)" using Cons.prems(1) by (rule replace_all_removes)
    then show ?thesis using True Cons.prems(1) fold_replace_sublist by auto
  next
    case False
    with Cons show ?thesis by simp
  qed
qed simp

section \<open>The variants of a value\<close>

lemma set_add_variant [simp]: "x \<in> set vs \<Longrightarrow> set (add_variant x e vs) = insert e (set vs)"
  by (auto simp: add_variant_def)

definition encodings :: "(string \<Rightarrow> string) \<Rightarrow> string \<Rightarrow> string set" where
  "encodings insp x = {x, encodeURIComponent x, json_escape x, insp x}"

lemma set_variants_of:
  "set (variants_of insp xs vs) = set vs \<union> (\<Union>x \<in> {x \<in> set xs. 3 \<le> js_length x}. encodings insp x)"
proof (induction insp xs vs rule: variants_of.induct)
  case (2 insp x rest vs)
  have "{y \<in> set (x # rest). 3 \<le> js_length y} =
      (if js_length x < 3 then {} else {x}) \<union> {y \<in> set rest. 3 \<le> js_length y}" by auto
  with 2 show ?case by (auto simp: encodings_def)
qed simp

section \<open>The store's invariant\<close>

definition store_ok :: "secret_store \<Rightarrow> bool" where
  \<comment> \<open>every current secret is redactable, and none is too short or a marker itself\<close>
  "store_ok st \<longleftrightarrow>
     (\<forall>(k, v) \<in> set (vals st). v \<in> set (redactable st) \<and> assertRedactableSecret v = None)"

lemma set_alist_put: "set (alist_put k v xs) \<subseteq> insert (k, v) (set xs)"
  by (induction k v xs rule: alist_put.induct) auto

lemma reload_loop_keeps:
  "reload_loop env keys nxt st = (e, st') \<Longrightarrow> set (redactable st) \<subseteq> set (redactable st')"
  by (induction env keys nxt st rule: reload_loop.induct)
    (auto split: if_splits option.splits simp: Let_def)

lemma reload_loop_ok:
  assumes "reload_loop env keys nxt st = (e, st')" "store_ok st"
    "\<forall>(k, v) \<in> set nxt. v \<in> set (redactable st) \<and> assertRedactableSecret v = None"
  shows "store_ok st' \<and> (e \<noteq> None \<longrightarrow> vals st' = vals st)"
  using assms
proof (induction env keys nxt st rule: reload_loop.induct)
  case (2 env key keys nxt st)
  show ?case
  proof (cases "js_truthy (env key)")
    case True
    show ?thesis
    proof (cases "assertRedactableSecret (the (env key))")
      case None
      let ?st = "st\<lparr>redactable := set_add (the (env key)) (redactable st)\<rparr>"
      have "store_ok ?st" using "2.prems"(2) by (auto simp: store_ok_def)
      moreover have "\<forall>(k, v) \<in> set (alist_put key (the (env key)) nxt).
          v \<in> set (redactable ?st) \<and> assertRedactableSecret v = None"
        using "2.prems"(3) None set_alist_put [of key "the (env key)" nxt] by auto
      ultimately show ?thesis
        using "2.IH"(1) [OF True refl None] "2.prems"(1) True None by (simp add: Let_def)
    qed (use 2 True in auto)
  qed (use 2 in auto)
qed (auto simp: store_ok_def)

lemma reload_keeps_redactable: "reload env st = (e, st') \<Longrightarrow> set (redactable st) \<subseteq> set (redactable st')"
  unfolding reload_def by (rule reload_loop_keeps)

lemma reload_ok: "reload env st = (e, st') \<Longrightarrow> store_ok st \<Longrightarrow> store_ok st'"
  unfolding reload_def using reload_loop_ok by fastforce

lemma addRedactable_ok: "addRedactable vs st = (e, st') \<Longrightarrow> store_ok st \<Longrightarrow> store_ok st'"
  by (induction vs st rule: addRedactable.induct) (auto split: if_splits simp: store_ok_def)

lemma addRedactableCredential_ok:
  "addRedactableCredential vs st = (e, st') \<Longrightarrow> store_ok st \<Longrightarrow> store_ok st'"
  by (induction vs st rule: addRedactableCredential.induct)
    (auto split: if_splits option.splits simp: store_ok_def)


section \<open>Properties\<close>

text \<open>C6: a registered secret of at least three characters never survives redaction, in plain form
  or as \<open>encodeURIComponent\<close>, \<open>JSON.stringify\<close> or \<open>inspect\<close> write it, whatever the text and
  the other registered values, unless the value can be completed by the marker's own text.\<close>

theorem redaction_complete:
  assumes "x \<in> set redactables" "3 \<le> js_length x" "v \<in> encodings insp x" "marker_safe v"
  shows "\<not> sublist v (redactSecrets insp text redactables)"
  unfolding redactSecrets_def
  using assms by (intro fold_replace_removes) (auto simp: set_variants_of)

theorem redaction_complete_witness:
  "\<not> sublist ''a%20b'' (redactSecrets id ''user=a%20b&p=a b'' [''pw1'', ''a b''])"
proof (rule redaction_complete [of "''a b''"])
  show "''a%20b'' \<in> encodings id ''a b''" by (simp add: encodings_def, code_simp)
  show "marker_safe ''a%20b''" by code_simp
  show "3 \<le> js_length ''a b''" by code_simp
qed simp

text \<open>Reading the environment again (secret rotation) never forgets a value that was
  redactable, keeps every current secret redactable and long enough, and, when it refuses a secret
  as too short or a marker, leaves the current secrets as they were.\<close>

theorem reload_fail_closed:
  assumes "store_ok st" "reload env st = (e, st')"
  shows "set (redactableValues st) \<subseteq> set (redactableValues st') \<and> store_ok st' \<and>
    (e = None \<or> (\<forall>k. get_secret st' k = get_secret st k))"
  using assms reload_keeps_redactable [OF assms(2)] reload_ok [OF assms(2,1)]
    reload_loop_ok [of env SECRET_KEYS "[]" st e st']
  by (auto simp: redactableValues_def get_secret_def reload_def)

theorem reload_fail_closed_witness:
  "store_ok (snd (reload (\<lambda>k. if k = ''BGW_VAULT_KEY'' then Some ''ab'' else None)
     \<lparr>vals = [(''BGW_PROXY_URL'', ''http://p'')], redactable = [''http://p'']\<rparr>))"
proof (rule reload_fail_closed [THEN conjunct2, THEN conjunct1])
  show "store_ok \<lparr>vals = [(''BGW_PROXY_URL'', ''http://p'')], redactable = [''http://p'']\<rparr>"
    by (simp add: store_ok_def, code_simp)
qed (rule prod.collapse [symmetric])

end
