(* ===== verification/Origination.thy ===== *)
theory Origination
  imports Url_Host Secrets
begin

text \<open>
  The origination boundary (\<open>src/policy/origination.ts\<close>): hosts and paths a top-level navigation
  may not reach.

  The default deny patterns are JavaScript regular expressions with the \<open>i\<close> flag; they are
  translated, one by one, into a small expression type whose matcher returns every way a match can
  end (so backtracking is covered). Patterns that an operator adds are compiled by the \<open>RegExp\<close>
  constructor, a parameter \<open>compile\<close> (\<open>None\<close> where it throws). \<open>decodeURIComponent\<close> is exact on
  UTF-8: a malformed escape or an ill-formed byte sequence throws.
\<close>

section \<open>Regular expressions\<close>

datatype rx =
    Cls string            \<comment> \<open>one character of the (lower-case) set\<close>
  | Eps
  | End                   \<comment> \<open>\<open>$\<close>\<close>
  | Sq rx rx
  | Or rx rx

fun ends :: "rx \<Rightarrow> string \<Rightarrow> string list" where
  "ends (Cls cs) s = (case s of [] \<Rightarrow> [] | c # t \<Rightarrow> if lower_char c \<in> set cs then [t] else [])"
| "ends Eps s = [s]"
| "ends End s = (if s = [] then [[]] else [])"
| "ends (Sq a b) s = concat (map (ends b) (ends a s))"
| "ends (Or a b) s = ends a s @ ends b s"

definition rx_test :: "rx \<Rightarrow> string \<Rightarrow> bool" where
  "rx_test r s \<longleftrightarrow> list_ex (\<lambda>t. ends r t \<noteq> []) (suffixes s)"

fun lit :: "string \<Rightarrow> rx" where
  "lit [] = Eps"
| "lit (c # cs) = Sq (Cls [c]) (lit cs)"

definition opt :: "rx \<Rightarrow> rx" where
  "opt r = Or r Eps"

fun alts :: "rx list \<Rightarrow> rx" where
  "alts [] = Eps"
| "alts [r] = r"
| "alts (r # q # rs) = Or r (alts (q # rs))"

fun sq :: "rx list \<Rightarrow> rx" where
  "sq [] = Eps"
| "sq (r # rs) = Sq r (sq rs)"

definition delim :: rx where
  \<comment> \<open>\<open>(?:[/?.]|$)\<close>\<close>
  "delim = Or (Cls ''/?.'') End"

definition dash :: rx where
  \<comment> \<open>\<open>[\-_]?\<close>\<close>
  "dash = opt (Cls ''-_'')"

section \<open>The deny lists\<close>

definition ORIGINATION_DENY_REASON :: string where
  "ORIGINATION_DENY_REASON =
     ''origination boundary: account creation / money movement is not permitted (the gateway uses sessions, it does not originate)''"

definition DEFAULT_ORIGINATION_DENY_HOSTS :: "string list" where
  "DEFAULT_ORIGINATION_DENY_HOSTS =
     [''checkout.stripe.com'', ''buy.stripe.com'', ''paypal.com'', ''www.paypal.com'',
      ''checkout.paypal.com'', ''braintreegateway.com'', ''checkout.com'', ''pay.adyen.com'',
      ''checkout.adyen.com'', ''squareup.com'', ''checkout.square.site'', ''venmo.com'', ''wise.com'']"

definition DEFAULT_ORIGINATION_DENY_PATHS :: "rx list" where
  "DEFAULT_ORIGINATION_DENY_PATHS =
     [sq [lit ''/sign'', dash, lit ''up'', delim],
      sq [lit ''/register'', opt (alts [lit ''ed'', lit ''s'']), delim],
      sq [lit ''/registration'', delim],
      sq [lit ''/create'', dash, lit ''account'', delim],
      sq [lit ''/account/'', alts [lit ''new'', lit ''create'', lit ''registration'', lit ''signup''], delim],
      sq [lit ''/'', alts [lit ''open'', lit ''new''], dash, lit ''account'', delim],
      sq [lit ''/transfer'', opt (alts [lit ''s'', sq [dash, lit ''money''], sq [dash, lit ''funds'']]), delim],
      sq [lit ''/send'', dash, lit ''money'', delim],
      sq [lit ''/wire'', opt (sq [dash, lit ''transfer'']), delim],
      sq [lit ''/add'', dash,
          alts [lit ''card'', sq [lit ''payment'', dash, lit ''method''], lit ''bank'', lit ''funds''], delim],
      sq [lit ''/payment'', dash, lit ''method'', opt (lit ''s''), lit ''/'', alts [lit ''new'', lit ''add''], delim]]"

section \<open>Percent decoding\<close>

definition hex_digit_val :: "char \<Rightarrow> nat option" where
  "hex_digit_val c =
     (if is_digit c then Some (code c - 48)
      else if 97 \<le> code c \<and> code c \<le> 102 then Some (code c - 87)
      else if 65 \<le> code c \<and> code c \<le> 70 then Some (code c - 55)
      else None)"

fun hex_escape :: "string \<Rightarrow> (nat \<times> string) option" where
  \<comment> \<open>a \<open>%XX\<close> escape at the front: its byte and what follows\<close>
  "hex_escape (p # h # l # s) =
     (if p = CHR ''%'' then
        (case (hex_digit_val h, hex_digit_val l) of
           (Some a, Some b) \<Rightarrow> Some (16 * a + b, s) | _ \<Rightarrow> None)
      else None)"
| "hex_escape _ = None"

definition utf8_first :: "nat \<Rightarrow> (nat \<times> nat \<times> nat) option" where
  \<comment> \<open>continuation bytes expected after a lead byte, and the bounds on the first of them\<close>
  "utf8_first b =
     (if 194 \<le> b \<and> b \<le> 223 then Some (1, 128, 191)
      else if b = 224 then Some (2, 160, 191)
      else if b = 237 then Some (2, 128, 159)
      else if 225 \<le> b \<and> b \<le> 239 then Some (2, 128, 191)
      else if b = 240 then Some (3, 144, 191)
      else if 241 \<le> b \<and> b \<le> 243 then Some (3, 128, 191)
      else if b = 244 then Some (3, 128, 143)
      else None)"

fun continuation :: "nat \<Rightarrow> nat \<Rightarrow> nat \<Rightarrow> string \<Rightarrow> (string \<times> string) option" where
  \<comment> \<open>\<open>n\<close> escaped continuation bytes, the first within \<open>[lo, hi]\<close>\<close>
  "continuation 0 lo hi s = Some ([], s)"
| "continuation (Suc n) lo hi s =
     (case hex_escape s of
        None \<Rightarrow> None
      | Some (b, t) \<Rightarrow>
          if lo \<le> b \<and> b \<le> hi then
            (case continuation n 128 191 t of
               None \<Rightarrow> None | Some (bs, u) \<Rightarrow> Some (char_of b # bs, u))
          else None)"

lemma hex_escape_shorter: "hex_escape s = Some (b, t) \<Longrightarrow> length t + 3 = length s"
  by (induction s rule: hex_escape.induct) (auto split: if_splits option.splits)

lemma continuation_shorter:
  "continuation n lo hi s = Some (bs, u) \<Longrightarrow> length u + 3 * n = length s \<and> length bs = n"
proof (induction n lo hi s arbitrary: bs u rule: continuation.induct)
  case (2 n lo hi s)
  from "2.prems" obtain b t cs where h: "hex_escape s = Some (b, t)" "lo \<le> b \<and> b \<le> hi"
    and c: "continuation n 128 191 t = Some (cs, u)" and bs: "bs = char_of b # cs"
    by (auto split: option.splits if_splits prod.splits)
  have "length u + 3 * n = length t \<and> length cs = n"
    by (rule "2.IH" [OF h(1) refl h(2) c])
  with hex_escape_shorter [OF h(1)] bs show ?case by simp
qed simp

function decodeURIComponent :: "string \<Rightarrow> string option" where
  "decodeURIComponent [] = Some []"
| "decodeURIComponent (c # cs) =
     (if c \<noteq> CHR ''%'' then map_option ((#) c) (decodeURIComponent cs)
      else (case hex_escape (c # cs) of
              None \<Rightarrow> None
            | Some (b, t) \<Rightarrow>
                if b < 128 then map_option ((#) (char_of b)) (decodeURIComponent t)
                else (case utf8_first b of
                        None \<Rightarrow> None
                      | Some (n, lo, hi) \<Rightarrow>
                          (case continuation n lo hi t of
                             None \<Rightarrow> None
                           | Some (bs, u) \<Rightarrow> map_option (\<lambda>r. char_of b # bs @ r) (decodeURIComponent u)))))"
  by pat_completeness auto
termination
  by (relation "measure length")
    (auto dest!: hex_escape_shorter continuation_shorter)

lemma decode_plain_Cons:
  "c \<noteq> CHR ''%'' \<Longrightarrow> decodeURIComponent (c # cs) = map_option ((#) c) (decodeURIComponent cs)"
  by simp

section \<open>Path variants\<close>

fun decoded_loop :: "nat \<Rightarrow> string \<Rightarrow> string list \<Rightarrow> string list" where
  "decoded_loop 0 cur seen = seen"
| "decoded_loop (Suc i) cur seen =
     (case decodeURIComponent cur of
        None \<Rightarrow> seen
      | Some dec \<Rightarrow>
          if dec = cur \<or> dec \<in> set seen then seen else decoded_loop i dec (seen @ [dec]))"

definition decodedPathVariants :: "string \<Rightarrow> string list" where
  "decodedPathVariants p = decoded_loop 3 p [p]"

definition NUL :: char where
  "NUL = char_of (0::nat)"

definition serverNormalizedPath :: "string \<Rightarrow> string" where
  "serverNormalizedPath p =
     join_with ''/'' (map (take_until (CHR '';'')) (split_on CHR ''/'' (take_until NUL p)))"

fun split_where :: "(char \<Rightarrow> bool) \<Rightarrow> string \<Rightarrow> string list" where
  "split_where P [] = [[]]"
| "split_where P (c # cs) =
     (if P c then [] # split_where P cs
      else (case split_where P cs of [] \<Rightarrow> [[c]] | w # ws \<Rightarrow> (c # w) # ws))"

definition splitEnvList :: "string option \<Rightarrow> string list" where
  \<comment> \<open>a run of separators yields empty pieces, which the filter drops\<close>
  "splitEnvList raw =
     filter (\<lambda>s. length s > 0)
       (map js_trim (split_where (\<lambda>c. c = CHR '','' \<or> is_ws c) (case raw of None \<Rightarrow> [] | Some r \<Rightarrow> r)))"

section \<open>The boundary\<close>

record origination_boundary =
  ob_hosts :: "string list"
  ob_paths :: "(string \<Rightarrow> bool) list"

datatype origination_error = InvalidDenyPath string

fun compile_paths :: "(string \<Rightarrow> (string \<Rightarrow> bool) option) \<Rightarrow> string list
    \<Rightarrow> origination_error + (string \<Rightarrow> bool) list" where
  "compile_paths compile [] = Inr []"
| "compile_paths compile (p # ps) =
     (case compile p of
        None \<Rightarrow> Inl (InvalidDenyPath p)
      | Some re \<Rightarrow> map_sum id ((#) re) (compile_paths compile ps))"

definition new_OriginationBoundary ::
  "(string \<Rightarrow> (string \<Rightarrow> bool) option) \<Rightarrow> string list \<Rightarrow> string list
     \<Rightarrow> origination_error + origination_boundary" where
  "new_OriginationBoundary compile hosts paths =
     map_sum id (\<lambda>res. \<lparr>ob_hosts = map canonicalizeHost (DEFAULT_ORIGINATION_DENY_HOSTS @ hosts),
                        ob_paths = map rx_test DEFAULT_ORIGINATION_DENY_PATHS @ res\<rparr>)
       (compile_paths compile paths)"

definition fromEnv ::
  "(string \<Rightarrow> (string \<Rightarrow> bool) option) \<Rightarrow> env \<Rightarrow> origination_error + origination_boundary" where
  "fromEnv compile env =
     new_OriginationBoundary compile
       (splitEnvList (env ''BGW_ORIGINATION_DENY_HOSTS''))
       (splitEnvList (env ''BGW_ORIGINATION_DENY_PATHS''))"

definition path_candidates :: "string \<Rightarrow> string list" where
  "path_candidates p = concat (map (\<lambda>v. [v, serverNormalizedPath v]) (decodedPathVariants p))"

definition denies :: "url_parser \<Rightarrow> origination_boundary \<Rightarrow> string \<Rightarrow> string \<Rightarrow> bool" where
  "denies parse ob host url =
     (if canonicalizeHost host \<in> set (ob_hosts ob) then True
      else (case parse url of
              None \<Rightarrow> False
            | Some u \<Rightarrow>
                \<exists>re \<in> set (ob_paths ob). \<exists>p \<in> set (path_candidates (pathname u)). re p))"


section \<open>Decoding only shortens\<close>

lemma decodeURIComponent_shorter:
  "decodeURIComponent s = Some t \<Longrightarrow> length t \<le> length s \<and> (length t = length s \<longrightarrow> t = s)"
proof (induction s arbitrary: t rule: decodeURIComponent.induct)
  case (2 c cs)
  show ?case
  proof (cases "c = CHR ''%''")
    case False
    then show ?thesis using 2 by fastforce
  next
    case True
    then obtain b r where h: "hex_escape (c # cs) = Some (b, r)"
      using "2.prems" by (auto split: option.splits)
    note lr = hex_escape_shorter [OF h]
    show ?thesis
    proof (cases "b < 128")
      case b: True
      then obtain w where "decodeURIComponent r = Some w" "t = char_of b # w"
        using "2.prems" True h by auto
      then show ?thesis using "2.IH"(2) [of "(b, r)"] True h b lr by fastforce
    next
      case b: False
      then obtain n lo hi bs u w where f: "utf8_first b = Some (n, lo, hi)"
        "continuation n lo hi r = Some (bs, u)" "decodeURIComponent u = Some w" "t = char_of b # bs @ w"
        using "2.prems" True h by (auto split: option.splits)
      then show ?thesis
        using "2.IH"(3) [of "(b, r)" b r _ n _ lo hi _ bs u w] True h b lr continuation_shorter [OF f(2)]
        by fastforce
    qed
  qed
qed simp

fun decode_times :: "nat \<Rightarrow> string \<Rightarrow> string option" where
  "decode_times 0 s = Some s"
| "decode_times (Suc n) s = Option.bind (decodeURIComponent s) (decode_times n)"

lemma decode_times_fixpoint: "decodeURIComponent s = Some s \<Longrightarrow> decode_times n s = Some s"
  by (induction n) simp_all

lemma decoded_loop_seen: "set seen \<subseteq> set (decoded_loop i cur seen)"
  by (induction i cur seen rule: decoded_loop.induct) (auto split: option.splits)

lemma decoded_loop_iterates:
  assumes "cur \<in> set seen" "\<forall>s \<in> set seen. length cur \<le> length s"
    "decode_times n cur = Some q" "n \<le> i"
  shows "q \<in> set (decoded_loop i cur seen)"
  using assms
proof (induction i cur seen arbitrary: n rule: decoded_loop.induct)
  case (2 i cur seen)
  show ?case
  proof (cases n)
    case 0
    then show ?thesis using "2.prems" decoded_loop_seen by fastforce
  next
    case (Suc m)
    then obtain dec where dec: "decodeURIComponent cur = Some dec" "decode_times m dec = Some q"
      using "2.prems"(3) by (auto simp: bind_eq_Some_conv)
    have "dec \<in> set seen \<Longrightarrow> dec = cur"
      using "2.prems"(2) decodeURIComponent_shorter [OF dec(1)] by fastforce
    then show ?thesis
    proof (cases "dec = cur \<or> dec \<in> set seen")
      case False
      have "length dec \<le> length cur" using decodeURIComponent_shorter [OF dec(1)] by simp
      then have "\<forall>s \<in> set (seen @ [dec]). length dec \<le> length s"
        using "2.prems"(2) by fastforce
      then have "q \<in> set (decoded_loop i dec (seen @ [dec]))"
        using "2.IH" [OF dec(1) False, of m] "2.prems"(4) dec(2) Suc by simp
      then show ?thesis using dec(1) False by simp
    next
      case True
      with \<open>dec \<in> set seen \<Longrightarrow> dec = cur\<close> have "dec = cur" by blast
      with dec decode_times_fixpoint [of cur m] have "q = cur" by simp
      then show ?thesis using "2.prems" decoded_loop_seen by fastforce
    qed
  qed
qed simp

lemma decodedPathVariants_iterates:
  "decode_times n p = Some q \<Longrightarrow> n \<le> 3 \<Longrightarrow> q \<in> set (decodedPathVariants p)"
  unfolding decodedPathVariants_def by (rule decoded_loop_iterates) auto

section \<open>Denied routes\<close>

definition route_denied :: "origination_boundary \<Rightarrow> string \<Rightarrow> bool" where
  "route_denied ob q \<longleftrightarrow> (\<exists>re \<in> set (ob_paths ob). re q \<or> re (serverNormalizedPath q))"

lemma denies_iff:
  "denies parse ob host url \<longleftrightarrow>
     canonicalizeHost host \<in> set (ob_hosts ob) \<or>
     (\<exists>u. parse url = Some u \<and> (\<exists>q \<in> set (decodedPathVariants (pathname u)). route_denied ob q))"
  by (auto simp: denies_def path_candidates_def route_denied_def split: option.splits)

lemma denies_decoded:
  "parse url = Some u \<Longrightarrow> decode_times n (pathname u) = Some q \<Longrightarrow> n \<le> 3 \<Longrightarrow> route_denied ob q \<Longrightarrow>
     denies parse ob host url"
  using decodedPathVariants_iterates denies_iff by blast

section \<open>Escaping characters of a path\<close>

declare decodeURIComponent.simps(2) [simp del]

definition percent :: "char \<Rightarrow> string" where
  "percent c = [CHR ''%'', hex_digit (code c div 16), hex_digit (code c mod 16)]"

fun escape_some :: "bool list \<Rightarrow> string \<Rightarrow> string" where
  \<comment> \<open>percent-escape the characters the mask selects\<close>
  "escape_some (b # bs) (c # cs) = (if b then percent c else [c]) @ escape_some bs cs"
| "escape_some _ cs = cs"

lemma hex_digit_val_hex_digit: "n < 16 \<Longrightarrow> hex_digit_val (hex_digit n) = Some n"
  by (auto simp: hex_digit_val_def hex_digit_def is_digit_def)

lemma decode_percent:
  "code c < 128 \<Longrightarrow> decodeURIComponent (percent c @ s) = map_option ((#) c) (decodeURIComponent s)"
  by (simp add: percent_def hex_digit_val_hex_digit decodeURIComponent.simps(2))

lemma decode_plain: "CHR ''%'' \<notin> set s \<Longrightarrow> decodeURIComponent s = Some s"
  by (induction s) (auto simp: decode_plain_Cons)

lemma decode_escape_some:
  "\<forall>c \<in> set s. code c < 128 \<and> c \<noteq> CHR ''%'' \<Longrightarrow> decodeURIComponent (escape_some bs s) = Some s"
proof (induction bs s rule: escape_some.induct)
  case (1 b bs c cs)
  then show ?case by (cases b) (simp_all add: decode_percent decode_plain_Cons)
qed (auto intro: decode_plain)

section \<open>Normalisation strips a segment's tail\<close>

lemma take_until_no: "d \<notin> set s \<Longrightarrow> take_until d s = s"
  by (auto simp: take_until_def takeWhile_eq_all_conv)

lemma take_until_Cons: "d \<notin> set s \<Longrightarrow> take_until d (s @ d # t) = s"
  by (induction s) (auto simp: take_until_def)

lemma serverNormalizedPath_nul: "NUL \<notin> set q \<Longrightarrow> CHR '';'' \<notin> set q \<Longrightarrow> serverNormalizedPath (q @ NUL # x) = q"
proof -
  assume q: "NUL \<notin> set q" "CHR '';'' \<notin> set q"
  have "map (take_until CHR '';'') (split_on CHR ''/'' q) = split_on CHR ''/'' q"
  proof (rule map_idI)
    fix w assume w: "w \<in> set (split_on CHR ''/'' q)"
    have "set w \<subseteq> set q"
      using w by (induction q arbitrary: w) (fastforce split: if_splits list.splits)+
    then show "take_until CHR '';'' w = w" using q by (intro take_until_no) auto
  qed
  then show ?thesis
    using q by (simp add: serverNormalizedPath_def take_until_Cons join_split)
qed

lemma serverNormalizedPath_matrix:
  assumes "NUL \<notin> set q" "CHR '';'' \<notin> set q" "CHR ''/'' \<notin> set x" "NUL \<notin> set x"
  shows "serverNormalizedPath (q @ CHR '';'' # x) = q"
proof -
  have nul: "take_until NUL (q @ CHR '';'' # x) = q @ CHR '';'' # x"
    using assms by (intro take_until_no) (auto simp: NUL_def js_simps)
  have "join_with ''/'' (map (take_until CHR '';'') (split_on CHR ''/'' (q @ CHR '';'' # x))) = q"
    using assms(2)
  proof (induction q)
    case Nil
    then show ?case
      using split_on_no_sep [OF assms(3)] by (simp add: take_until_def)
  next
    case (Cons c q)
    let ?ws = "split_on CHR ''/'' (q @ CHR '';'' # x)"
    obtain w ws where ws: "?ws = w # ws" by (cases ?ws) auto
    show ?case
    proof (cases "c = CHR ''/''")
      case True
      with Cons ws show ?thesis by (simp add: take_until_def)
    next
      case False
      with Cons ws show ?thesis
        by (cases ws) (auto simp: take_until_def)
    qed
  qed
  then show ?thesis by (simp add: serverNormalizedPath_def nul)
qed

section \<open>Properties\<close>

lemma new_OriginationBoundary_Inr:
  "new_OriginationBoundary compile hosts paths = Inr ob \<Longrightarrow>
     ob_hosts ob = map canonicalizeHost (DEFAULT_ORIGINATION_DENY_HOSTS @ hosts) \<and>
     (\<exists>res. compile_paths compile paths = Inr res \<and>
            ob_paths ob = map rx_test DEFAULT_ORIGINATION_DENY_PATHS @ res)"
  by (cases "compile_paths compile paths") (auto simp: new_OriginationBoundary_def)

lemma compile_paths_Inr:
  "compile_paths compile paths = Inr res \<Longrightarrow> \<forall>p \<in> set paths. compile p \<noteq> None"
proof (induction paths arbitrary: res)
  case (Cons p paths)
  then show ?case by (cases "compile_paths compile paths") (auto split: option.splits)
qed simp

text \<open>An operator's extra hosts and patterns only harden the boundary: every navigation the
  built-in boundary refuses is refused by any boundary that construction accepts, and a malformed
  pattern makes construction fail rather than being dropped.\<close>

theorem boundary_floor:
  assumes "new_OriginationBoundary compile [] [] = Inr ob0"
    and "new_OriginationBoundary compile hosts paths = Inr ob"
    and "denies parse ob0 host url"
  shows "denies parse ob host url \<and> (\<forall>p \<in> set paths. compile p \<noteq> None)"
proof -
  note o = new_OriginationBoundary_Inr [OF assms(1)] new_OriginationBoundary_Inr [OF assms(2)]
  have "set (ob_hosts ob0) \<subseteq> set (ob_hosts ob)" "set (ob_paths ob0) \<subseteq> set (ob_paths ob)"
    using o by auto
  then have "denies parse ob host url"
    using assms(3) unfolding denies_iff route_denied_def by blast
  then show ?thesis using o compile_paths_Inr by blast
qed

theorem boundary_floor_witness:
  "\<exists>ob. new_OriginationBoundary (\<lambda>_. Some (\<lambda>_. False)) [''pay.example''] [''/x''] = Inr ob \<and>
     denies (\<lambda>_. None) ob ''PayPal.com.'' []"
proof -
  obtain ob0 ob where o: "new_OriginationBoundary (\<lambda>_. Some (\<lambda>_. False)) [] [] = Inr ob0"
    "new_OriginationBoundary (\<lambda>_. Some (\<lambda>_. False)) [''pay.example''] [''/x''] = Inr ob"
    by (simp add: new_OriginationBoundary_def)
  have "canonicalizeHost ''PayPal.com.'' \<in> set (map canonicalizeHost DEFAULT_ORIGINATION_DENY_HOSTS)"
    by code_simp
  then have "denies (\<lambda>_. None) ob0 ''PayPal.com.'' []"
    using new_OriginationBoundary_Inr [OF o(1)] by (simp add: denies_iff)
  then show ?thesis using boundary_floor [OF o] o(2) by blast
qed


definition example_boundary :: origination_boundary where
  "example_boundary =
     \<lparr>ob_hosts = map canonicalizeHost DEFAULT_ORIGINATION_DENY_HOSTS,
      ob_paths = map rx_test DEFAULT_ORIGINATION_DENY_PATHS\<rparr>"

definition example_url :: "string \<Rightarrow> url_parts" where
  "example_url p =
     \<lparr>protocol = ''https:'', hostname = ''shop.example'', pathname = p, username = [], password = [],
      origin = ''https://shop.example''\<rparr>"

lemma example_transfer: "\<exists>re \<in> set (ob_paths example_boundary). re ''/transfer''"
proof -
  have "list_ex (\<lambda>r. rx_test r ''/transfer'') DEFAULT_ORIGINATION_DENY_PATHS" by code_simp
  then show ?thesis by (auto simp: example_boundary_def list_ex_iff)
qed


text \<open>A path that decodes, in at most three rounds, to a denied route is denied.\<close>

theorem denied_after_decoding:
  assumes "parse url = Some u" "decode_times n (pathname u) = Some q" "n \<le> 3" "route_denied ob q"
  shows "denies parse ob host url"
  using assms by (rule denies_decoded)

theorem denied_after_decoding_witness:
  "denies (\<lambda>_. Some (example_url ''/%2574ransfer'')) example_boundary ''shop.example'' ''u''"
proof (rule denied_after_decoding [of _ _ "example_url ''/%2574ransfer''" 2 "''/transfer''"])
  have "decode_times 2 ''/%2574ransfer'' = Some ''/transfer''" by code_simp
  then show "decode_times 2 (pathname (example_url ''/%2574ransfer'')) = Some ''/transfer''"
    by (simp add: example_url_def)
  show "route_denied example_boundary ''/transfer''"
    using example_transfer by (auto simp: route_denied_def)
qed simp_all

end
