(* ===== verification/Allowlist.thy ===== *)
theory Allowlist
  imports Url_Host
begin

text \<open>
  The host allowlist (\<open>src/policy/allowlist.ts\<close>): an \<open>Allowlist\<close> object as a record, its \<open>add\<close> and
  \<open>allows\<close> methods, and the reference it is compared with: the list of configured rules, each
  read by itself on DNS labels.
\<close>

definition strip_www :: "string \<Rightarrow> string" where
  \<comment> \<open>\<open>s.replace(/^www\./, "")\<close>\<close>
  "strip_www s = (if starts_with s ''www.'' then drop 4 s else s)"

definition normalizeHost :: "string \<Rightarrow> string" where
  "normalizeHost host = strip_www (canonicalizeHost host)"

record allowlist =
  al_exact :: "string list"
  al_suffixes :: "string list"
  al_rules :: "string list"
  al_allowAll :: bool

definition empty_allowlist :: allowlist where
  "empty_allowlist = \<lparr>al_exact = [], al_suffixes = [], al_rules = [], al_allowAll = False\<rparr>"

definition add_rule :: "string \<Rightarrow> allowlist \<Rightarrow> allowlist" where
  "add_rule rule al =
     (let trimmed = js_lower (js_trim rule)
      in if trimmed = [] then al
         else
           (let al' = al\<lparr>al_rules := al_rules al @ [trimmed]\<rparr>
            in if trimmed = ''*'' then al'\<lparr>al_allowAll := True\<rparr>
               else if starts_with trimmed ''*.''
                 then al'\<lparr>al_suffixes := set_add (canonicalizeHost (drop 2 trimmed)) (al_suffixes al)\<rparr>
               else al'\<lparr>al_exact := set_add (normalizeHost trimmed) (al_exact al)\<rparr>))"

definition new_Allowlist :: "string list \<Rightarrow> allowlist" where
  "new_Allowlist rules = foldl (\<lambda>al r. add_rule r al) empty_allowlist rules"

definition allows :: "allowlist \<Rightarrow> string \<Rightarrow> bool" where
  "allows al host =
     (let canon = canonicalizeHost host
      in if canon = [] then False
         else if al_allowAll al then True
         else (let wwwless = strip_www canon
               in if wwwless \<in> set (al_exact al) then True
                  else (\<exists>s \<in> set (al_suffixes al). canon = s \<or> ends_with canon (''.'' @ s))))"

section \<open>The rules as a specification\<close>

definition rule_allows :: "string \<Rightarrow> string \<Rightarrow> bool" where
  \<comment> \<open>what one configured rule admits\<close>
  "rule_allows rule host \<longleftrightarrow>
     (let r = js_lower (js_trim rule); canon = canonicalizeHost host
      in r \<noteq> [] \<and> canon \<noteq> [] \<and>
         (if r = ''*'' then True
          else if starts_with r ''*.'' then label_covers (canonicalizeHost (drop 2 r)) canon
          else normalizeHost r = normalizeHost host))"

lemma allows_add_rule: "allows (add_rule r al) host \<longleftrightarrow> allows al host \<or> rule_allows r host"
  by (auto simp: allows_def add_rule_def rule_allows_def label_covers_iff normalizeHost_def Let_def)

lemma allows_empty [simp]: "\<not> allows empty_allowlist host"
  by (simp add: allows_def empty_allowlist_def Let_def)

lemma allows_foldl:
  "allows (foldl (\<lambda>al r. add_rule r al) al rules) host \<longleftrightarrow>
     allows al host \<or> (\<exists>r \<in> set rules. rule_allows r host)"
  by (induction rules arbitrary: al) (auto simp: allows_add_rule)

lemma allows_nonempty: "allows al host \<Longrightarrow> canonicalizeHost host \<noteq> []"
  by (auto simp: allows_def Let_def split: if_splits)

text \<open>C8: the compiled allowlist decides exactly what its rules say one by one: the allow-all
  sentinel, an exact host up to a leading \<open>www.\<close>, or a wildcard whose labels are a suffix of the
  host's labels; no rule order or combination admits anything more.\<close>

theorem allowlist_implements_rules:
  "allows (new_Allowlist rules) host \<longleftrightarrow> (\<exists>r \<in> set rules. rule_allows r host)"
  by (simp add: new_Allowlist_def allows_foldl)

text \<open>A wildcard rule admits only the named domain and its subdomains, label by label, and is
  never widened by dropping an interior \<open>www\<close>: any host a \<open>*.d\<close> rule admits has \<open>d\<close> as a suffix of its labels.\<close>

theorem wildcard_scoped:
  assumes "allows (new_Allowlist [''*.'' @ d]) host"
    and "d \<noteq> []" "\<forall>c \<in> set d. \<not> is_upper c \<and> \<not> is_ws c" "last d \<noteq> CHR ''.''"
  shows "label_covers d (canonicalizeHost host)"
proof -
  have "js_trim (''*.'' @ d) = ''*.'' @ d"
    using assms by (intro js_trim_id) (auto simp: js_simps)
  moreover have "js_lower (''*.'' @ d) = ''*.'' @ d"
    unfolding js_lower_def using assms(3) by (intro map_idI) (auto simp: lower_char_id js_simps)
  ultimately show ?thesis
    using assms canonicalizeHost_id [OF assms(2-4)]
    by (auto simp: new_Allowlist_def allows_add_rule rule_allows_def starts_with_def Let_def)
qed

theorem wildcard_scoped_witness:
  "label_covers ''www.x.com'' (canonicalizeHost ''a.WWW.x.com.'') \<and> \<not> label_covers ''www.x.com'' ''mail.x.com''"
proof
  show "label_covers ''www.x.com'' (canonicalizeHost ''a.WWW.x.com.'')"
    by (rule wildcard_scoped) code_simp+
  show "\<not> label_covers ''www.x.com'' ''mail.x.com''" by code_simp
qed

end
