(* ===== verification/Consumers.thy ===== *)
theory Consumers
  imports Allowlist Secrets
begin

text \<open>
  Consumer identity and provisioning (\<open>src/policy/consumer.ts\<close>, \<open>src/policy/consumer-config.ts\<close>):
  the token registry, the environment key of a consumer's token, the manifest's shape check and the
  join of the manifest with the tokens. \<open>JSON.parse\<close> is a parameter. Thrown errors are values of
  \<open>consumer_error\<close>; \<open>toUpperCase\<close> is modelled on ASCII.
\<close>

record consumer_spec =
  cs_id :: string
  cs_token :: string
  cs_allow :: "string list"
  cs_tags :: "string list option"

record consumer =
  c_id :: string
  c_token :: string
  c_allowlist :: allowlist
  c_tags :: "string list"

type_synonym registry = "(string \<times> consumer) list"

datatype consumer_error =
    NoToken string | DuplicateToken string
  | NotJson | NotArray | EntryNotObject nat | EntryNoId nat | InvalidAllow string | InvalidTags string
  | EmptyManifest | DuplicateId string | EmptyAllow string | KeyCollision string | MissingToken string

section \<open>The registry\<close>

definition consumer_of :: "consumer_spec \<Rightarrow> consumer" where
  "consumer_of spec =
     \<lparr>c_id = cs_id spec, c_token = cs_token spec, c_allowlist = new_Allowlist (cs_allow spec),
      c_tags = (case cs_tags spec of None \<Rightarrow> [] | Some ts \<Rightarrow> ts)\<rparr>"

definition registry_add :: "consumer_spec \<Rightarrow> registry \<Rightarrow> consumer_error + registry" where
  "registry_add spec reg =
     (if cs_token spec = [] then Inl (NoToken (cs_id spec))
      else if map_of reg (cs_token spec) \<noteq> None then Inl (DuplicateToken (cs_id spec))
      else Inr (alist_put (cs_token spec) (consumer_of spec) reg))"

fun add_specs :: "consumer_spec list \<Rightarrow> registry \<Rightarrow> consumer_error + registry" where
  "add_specs [] reg = Inr reg"
| "add_specs (s # ss) reg =
     (case registry_add s reg of Inl e \<Rightarrow> Inl e | Inr reg' \<Rightarrow> add_specs ss reg')"

definition new_ConsumerRegistry :: "consumer_spec list \<Rightarrow> consumer_error + registry" where
  "new_ConsumerRegistry specs = add_specs specs []"

definition resolve :: "registry \<Rightarrow> string \<Rightarrow> consumer option" where
  "resolve reg token = (if token \<noteq> [] then map_of reg token else None)"

section \<open>Provisioning\<close>

definition key_char :: "char \<Rightarrow> bool" where
  "key_char c \<longleftrightarrow> is_upper c \<or> is_digit c"

fun collapse_runs :: "bool \<Rightarrow> string \<Rightarrow> string" where
  \<comment> \<open>\<open>replace(/[^A-Z0-9]+/g, "_")\<close>; the flag says that the previous character was replaced\<close>
  "collapse_runs b [] = []"
| "collapse_runs b (c # cs) =
     (if key_char c then c # collapse_runs False cs
      else if b then collapse_runs True cs else CHR ''_'' # collapse_runs True cs)"

definition strip_underscores :: "string \<Rightarrow> string" where
  \<comment> \<open>\<open>replace(/^_|_$/g, "")\<close>\<close>
  "strip_underscores s =
     (let t = (if starts_with s ''_'' then tl s else s)
      in if ends_with t ''_'' then butlast t else t)"

definition tokenEnvKey :: "string \<Rightarrow> string" where
  "tokenEnvKey i = ''BGW_CONSUMER_TOKEN_'' @ strip_underscores (collapse_runs False (js_upper i))"

record manifest_entry =
  me_id :: string
  me_allow :: "string list"
  me_tags :: "string list option"

fun is_obj :: "json \<Rightarrow> bool" where
  \<comment> \<open>\<open>typeof entry === "object" && entry !== null\<close>\<close>
  "is_obj (JObj _) = True"
| "is_obj (JArr _) = True"
| "is_obj _ = False"

fun str_array :: "json option \<Rightarrow> string list option" where
  \<comment> \<open>an array whose items are all strings\<close>
  "str_array (Some (JArr xs)) = (if list_all is_jstr xs then Some (map jstr xs) else None)"
| "str_array _ = None"

definition parse_entry :: "nat \<Rightarrow> json \<Rightarrow> consumer_error + manifest_entry" where
  "parse_entry i e =
     (if \<not> is_obj e then Inl (EntryNotObject i)
      else (case jfield ''id'' e of
              Some (JStr d) \<Rightarrow>
                if js_trim d = [] then Inl (EntryNoId i)
                else (case str_array (jfield ''allow'' e) of
                        None \<Rightarrow> Inl (InvalidAllow d)
                      | Some allow \<Rightarrow>
                          (case jfield ''tags'' e of
                             None \<Rightarrow> Inr \<lparr>me_id = d, me_allow = allow, me_tags = None\<rparr>
                           | Some ts \<Rightarrow>
                               (case str_array (Some ts) of
                                  None \<Rightarrow> Inl (InvalidTags d)
                                | Some tags \<Rightarrow> Inr \<lparr>me_id = d, me_allow = allow, me_tags = Some tags\<rparr>)))
            | _ \<Rightarrow> Inl (EntryNoId i)))"

fun parse_entries :: "nat \<Rightarrow> json list \<Rightarrow> consumer_error + manifest_entry list" where
  "parse_entries i [] = Inr []"
| "parse_entries i (e # es) =
     (case parse_entry i e of
        Inl err \<Rightarrow> Inl err
      | Inr m \<Rightarrow> (case parse_entries (Suc i) es of Inl err \<Rightarrow> Inl err | Inr ms \<Rightarrow> Inr (m # ms)))"

definition parseConsumerManifest ::
  "(string \<Rightarrow> json option) \<Rightarrow> string \<Rightarrow> consumer_error + manifest_entry list" where
  "parseConsumerManifest parse_json txt =
     (case parse_json txt of
        None \<Rightarrow> Inl NotJson
      | Some (JArr es) \<Rightarrow> parse_entries 0 es
      | Some _ \<Rightarrow> Inl NotArray)"

fun build_loop :: "env \<Rightarrow> manifest_entry list \<Rightarrow> string list \<Rightarrow> string list
    \<Rightarrow> consumer_error + (consumer_spec list \<times> string list)" where
  "build_loop env [] seenKeys seenIds = Inr ([], [])"
| "build_loop env (entry # rest) seenKeys seenIds =
     (if me_id entry \<in> set seenIds then Inl (DuplicateId (me_id entry))
      else if me_allow entry = [] then Inl (EmptyAllow (me_id entry))
      else (let key = tokenEnvKey (me_id entry)
            in if key \<in> set seenKeys then Inl (KeyCollision key)
               else if \<not> js_truthy (env key) then Inl (MissingToken (me_id entry))
               else (case build_loop env rest (set_add key seenKeys) (set_add (me_id entry) seenIds) of
                       Inl e \<Rightarrow> Inl e
                     | Inr (specs, tokens) \<Rightarrow>
                         Inr (\<lparr>cs_id = me_id entry, cs_token = the (env key), cs_allow = me_allow entry,
                               cs_tags = me_tags entry\<rparr> # specs, the (env key) # tokens))))"

definition buildConsumerSpecs ::
  "manifest_entry list \<Rightarrow> env \<Rightarrow> consumer_error + (consumer_spec list \<times> string list)" where
  "buildConsumerSpecs manifest env =
     (if manifest = [] then Inl EmptyManifest else build_loop env manifest [] [])"


section \<open>Facts about the registry\<close>

lemma registry_add_Inr:
  "registry_add spec reg = Inr reg' \<longleftrightarrow>
     cs_token spec \<noteq> [] \<and> map_of reg (cs_token spec) = None \<and>
     reg' = alist_put (cs_token spec) (consumer_of spec) reg"
  by (auto simp: registry_add_def)

definition spec_map :: "consumer_spec list \<Rightarrow> string \<Rightarrow> consumer option" where
  "spec_map specs = map_of (map (\<lambda>s. (cs_token s, consumer_of s)) specs)"

lemma add_specs_map:
  "add_specs specs reg = Inr reg' \<Longrightarrow>
     map_of reg' = map_of reg ++ spec_map specs \<and> distinct (map cs_token specs) \<and>
     (\<forall>s \<in> set specs. cs_token s \<noteq> [] \<and> map_of reg (cs_token s) = None)"
proof (induction specs reg rule: add_specs.induct)
  case (2 s ss reg)
  then obtain reg1 where r: "registry_add s reg = Inr reg1" "add_specs ss reg1 = Inr reg'"
    by (auto split: sum.splits)
  have r1: "cs_token s \<noteq> []" "map_of reg (cs_token s) = None"
    "map_of reg1 = (map_of reg)(cs_token s \<mapsto> consumer_of s)"
    using r(1) by (auto simp: registry_add_Inr)
  have IH: "map_of reg' = map_of reg1 ++ spec_map ss" "distinct (map cs_token ss)"
    "\<forall>t \<in> set ss. cs_token t \<noteq> [] \<and> map_of reg1 (cs_token t) = None"
    using "2.IH" [OF r] by blast+
  have new: "cs_token s \<notin> cs_token ` set ss" using IH(3) r1(3) by auto
  then have "spec_map ss (cs_token s) = None"
    by (auto simp: spec_map_def map_of_eq_None_iff image_image)
  then have "map_of reg' = map_of reg ++ spec_map (s # ss)"
    using IH(1) r1(3) by (auto simp: spec_map_def map_add_def fun_eq_iff split: option.splits)
  then show ?case using IH new r1 by (auto split: if_splits)
qed (simp add: spec_map_def)

lemma resolve_new_registry:
  assumes "new_ConsumerRegistry specs = Inr reg"
  shows "resolve reg t = Some c \<longleftrightarrow> (\<exists>s \<in> set specs. cs_token s = t \<and> c = consumer_of s)"
proof -
  have m: "map_of reg = spec_map specs" and d: "distinct (map cs_token specs)"
    and ne: "\<forall>s \<in> set specs. cs_token s \<noteq> []"
    using add_specs_map [of specs "[]" reg] assms by (auto simp: new_ConsumerRegistry_def)
  have "distinct (map fst (map (\<lambda>s. (cs_token s, consumer_of s)) specs))"
    using d by (simp add: comp_def)
  then have "map_of reg t = Some c \<longleftrightarrow> (\<exists>s \<in> set specs. cs_token s = t \<and> c = consumer_of s)"
    unfolding m spec_map_def by (subst map_of_eq_Some_iff) auto
  then show ?thesis using ne by (auto simp: resolve_def)
qed

section \<open>Facts about provisioning\<close>

lemma build_loop_Inr:
  "build_loop env ms seenKeys seenIds = Inr (specs, tokens) \<Longrightarrow>
     map cs_id specs = map me_id ms \<and> map cs_allow specs = map me_allow ms \<and>
     map cs_token specs = tokens \<and>
     (\<forall>m \<in> set ms. me_id m \<notin> set seenIds \<and> tokenEnvKey (me_id m) \<notin> set seenKeys \<and> me_allow m \<noteq> []) \<and>
     distinct (map me_id ms) \<and> distinct (map (tokenEnvKey \<circ> me_id) ms) \<and>
     list_all2 (\<lambda>m s. env (tokenEnvKey (me_id m)) = Some (cs_token s) \<and> cs_token s \<noteq> []) ms specs"
proof (induction env ms seenKeys seenIds arbitrary: specs tokens rule: build_loop.induct)
  case (2 env m ms seenKeys seenIds)
  let ?k = "tokenEnvKey (me_id m)"
  have g: "me_id m \<notin> set seenIds" "me_allow m \<noteq> []" "?k \<notin> set seenKeys" "js_truthy (env ?k)"
    using "2.prems" by (auto simp: Let_def split: if_splits)
  then obtain specs' tokens' where
    b: "build_loop env ms (set_add ?k seenKeys) (set_add (me_id m) seenIds) = Inr (specs', tokens')"
    and s: "specs = \<lparr>cs_id = me_id m, cs_token = the (env ?k), cs_allow = me_allow m, cs_tags = me_tags m\<rparr> # specs'"
    and t: "tokens = the (env ?k) # tokens'"
    using "2.prems" by (auto simp: Let_def split: sum.splits)
  have "env ?k = Some (the (env ?k))" "the (env ?k) \<noteq> []"
    using g(4) by (auto simp: js_truthy_def)
  then show ?case
    using "2.IH" [OF g(1,2) refl g(3) _ b] g s t by auto
qed simp

section \<open>Properties\<close>

text \<open>The registry built from a list of consumer definitions resolves a credential to a
  consumer exactly when one of the definitions carries that token, and the consumer resolved is
  that definition's; construction refuses empty and shared tokens.\<close>

theorem registry_resolves_exactly:
  assumes "new_ConsumerRegistry specs = Inr reg"
  shows "(resolve reg t = Some c \<longleftrightarrow> (\<exists>s \<in> set specs. cs_token s = t \<and> c = consumer_of s)) \<and>
    resolve reg [] = None \<and> distinct (map cs_token specs)"
  using resolve_new_registry [OF assms] add_specs_map [of specs "[]" reg] assms
  by (auto simp: new_ConsumerRegistry_def resolve_def)

definition example_spec :: consumer_spec where
  "example_spec = \<lparr>cs_id = ''agent-1'', cs_token = ''tok-123'', cs_allow = [''*.example.com''], cs_tags = None\<rparr>"

theorem registry_resolves_exactly_witness:
  "\<exists>reg. new_ConsumerRegistry [example_spec] = Inr reg \<and>
     resolve reg ''tok-123'' = Some (consumer_of example_spec) \<and> resolve reg [] = None"
proof -
  obtain reg where r: "new_ConsumerRegistry [example_spec] = Inr reg"
    by (auto simp: new_ConsumerRegistry_def registry_add_def example_spec_def)
  show ?thesis
    using r registry_resolves_exactly [OF r, of "''tok-123''" "consumer_of example_spec"]
    by (auto simp: example_spec_def)
qed

text \<open>Provisioning is all or nothing and keeps consumers apart: when the manifest is joined with
  its tokens, every entry yields one definition with its own id, allow rules and the non-empty
  token of its own environment key; ids and environment keys are pairwise distinct and no allow
  list is empty.\<close>

theorem provisioning_sound:
  assumes "buildConsumerSpecs manifest env = Inr (specs, tokens)"
  shows "manifest \<noteq> [] \<and> map cs_id specs = map me_id manifest \<and>
    map cs_allow specs = map me_allow manifest \<and> tokens = map cs_token specs \<and>
    distinct (map me_id manifest) \<and> distinct (map (tokenEnvKey \<circ> me_id) manifest) \<and>
    list_all2 (\<lambda>m s. env (tokenEnvKey (me_id m)) = Some (cs_token s) \<and> cs_token s \<noteq> [] \<and> me_allow m \<noteq> [])
      manifest specs"
proof -
  have m: "manifest \<noteq> []" and b: "build_loop env manifest [] [] = Inr (specs, tokens)"
    using assms by (auto simp: buildConsumerSpecs_def split: if_splits)
  show ?thesis
    using m build_loop_Inr [OF b] by (auto simp: list_all2_conv_all_nth)
qed

definition example_env :: env where
  "example_env k = (if k = ''BGW_CONSUMER_TOKEN_AGENT_1'' then Some ''tok-123'' else None)"

theorem provisioning_sound_witness:
  "tokenEnvKey ''agent-1'' = ''BGW_CONSUMER_TOKEN_AGENT_1'' \<and>
   (\<exists>specs tokens. buildConsumerSpecs [\<lparr>me_id = ''agent-1'', me_allow = [''*''], me_tags = None\<rparr>] example_env
       = Inr (specs, tokens) \<and> tokens = map cs_token specs)"
proof -
  have k: "tokenEnvKey ''agent-1'' = ''BGW_CONSUMER_TOKEN_AGENT_1''" by code_simp
  obtain specs tokens where
    b: "buildConsumerSpecs [\<lparr>me_id = ''agent-1'', me_allow = [''*''], me_tags = None\<rparr>] example_env
       = Inr (specs, tokens)"
    by (auto simp: buildConsumerSpecs_def example_env_def k js_truthy_def Let_def)
  show ?thesis using k b provisioning_sound [OF b] by blast
qed

end
