(* ===== verification/Policy_Engine.thy ===== *)
theory Policy_Engine
  imports Egress Origination Consumers Audit_Trail
begin

text \<open>
  The policy engine (\<open>src/policy/index.ts\<close>): authentication and the three navigation guards. An
  engine is a record holding the registry, the audit sink's \<open>record\<close> operation, the egress filter and
  the origination boundary; every method threads the sink's state. A guard also threads its
  write-only \<open>out\<close> argument: \<open>None\<close> when the caller passed none, otherwise the field \<open>reason\<close>.

  Two locales state what callers of a guard rely on: \<open>nav_guard\<close> (the verdict ignores trail and
  side channel, an allowed request is http(s) and not an egress target, a block is audited last with
  the reason written out) and \<open>clamped_guard\<close>, which extends it with a host an allowed navigation must
  have. They are interpreted on the three guards of the engine.
\<close>

record nav_request =
  nr_url :: string
  nr_host :: string
  nr_resourceType :: string
  nr_isNavigationRequest :: bool

datatype nav_decision = AllowNav | BlockNav

type_synonym block_out = "string option option"

record 's policy_engine =
  pe_registry :: registry
  pe_record :: "audit_record \<Rightarrow> 's \<Rightarrow> 's"
  pe_egress :: "string \<Rightarrow> bool"
  pe_origination :: origination_boundary

datatype policy_error = UNAUTHENTICATED

section \<open>Authentication\<close>

definition authenticate ::
  "'s policy_engine \<Rightarrow> int \<Rightarrow> string \<Rightarrow> 's \<Rightarrow> (policy_error + consumer) \<times> 's" where
  "authenticate pe now token s =
     (case resolve (pe_registry pe) token of
        None \<Rightarrow>
          (Inl UNAUTHENTICATED,
           pe_record pe \<lparr>ar_ts = now, ar_consumerId = None, ar_action = Authenticate,
             ar_decision = AuthReject, ar_host = None, ar_url = None,
             ar_reason = Some ''unknown credential''\<rparr> s)
      | Some c \<Rightarrow>
          (Inr c,
           pe_record pe \<lparr>ar_ts = now, ar_consumerId = Some (c_id c), ar_action = Authenticate,
             ar_decision = AuthOk, ar_host = None, ar_url = None, ar_reason = None\<rparr> s))"

section \<open>The guards\<close>

definition nav_entry ::
  "int \<Rightarrow> consumer \<Rightarrow> nav_request \<Rightarrow> audit_decision \<Rightarrow> string option \<Rightarrow> audit_record" where
  \<comment> \<open>the record literal every navigation decision is audited with\<close>
  "nav_entry now c req dec reason =
     \<lparr>ar_ts = now, ar_consumerId = Some (c_id c), ar_action = Navigate, ar_decision = dec,
      ar_host = Some (nr_host req), ar_url = Some (nr_url req), ar_reason = reason\<rparr>"

definition nav_block ::
  "'s policy_engine \<Rightarrow> int \<Rightarrow> consumer \<Rightarrow> nav_request \<Rightarrow> string \<Rightarrow> 's \<Rightarrow> block_out
     \<Rightarrow> nav_decision \<times> 's \<times> block_out" where
  "nav_block pe now c req reason s out =
     (BlockNav, pe_record pe (nav_entry now c req BlockDecision (Some reason)) s,
      map_option (\<lambda>_. Some reason) out)"

definition guardFor ::
  "url_parser \<Rightarrow> 's policy_engine \<Rightarrow> int \<Rightarrow> consumer \<Rightarrow> nav_request \<Rightarrow> 's \<Rightarrow> block_out
     \<Rightarrow> nav_decision \<times> 's \<times> block_out" where
  "guardFor parse pe now c req s out =
     (if \<not> isHttpUrl parse (nr_url req)
        then nav_block pe now c req ''scheme not allowed (only http/https)'' s out
      else if pe_egress pe (nr_host req) then nav_block pe now c req EGRESS_DENY_REASON s out
      else if nr_isNavigationRequest req \<and> denies parse (pe_origination pe) (nr_host req) (nr_url req)
        then nav_block pe now c req ORIGINATION_DENY_REASON s out
      else if \<not> allows (c_allowlist c) (nr_host req)
        then nav_block pe now c req ''host not in consumer allowlist'' s out
      else if nr_isNavigationRequest req
        then (AllowNav, pe_record pe (nav_entry now c req AllowDecision None) s, out)
      else (AllowNav, s, out))"

definition DIAGNOSTICS_EGRESS_HOSTS :: "string list" where
  "DIAGNOSTICS_EGRESS_HOSTS = [''ipinfo.io'']"

definition DIAGNOSTICS_HOST_SET :: "string list" where
  "DIAGNOSTICS_HOST_SET = map canonicalizeHost DIAGNOSTICS_EGRESS_HOSTS"

definition guardForDiagnostics ::
  "url_parser \<Rightarrow> 's policy_engine \<Rightarrow> int \<Rightarrow> consumer \<Rightarrow> nav_request \<Rightarrow> 's \<Rightarrow> block_out
     \<Rightarrow> nav_decision \<times> 's \<times> block_out" where
  "guardForDiagnostics parse pe now c req s out =
     (if \<not> isHttpUrl parse (nr_url req)
        then nav_block pe now c req ''diagnostics probe: scheme not allowed (only http/https)'' s out
      else if pe_egress pe (nr_host req)
        then nav_block pe now c req (''diagnostics probe: '' @ EGRESS_DENY_REASON) s out
      else
        (let allowed = canonicalizeHost (nr_host req) \<in> set DIAGNOSTICS_HOST_SET;
             reason = (if allowed then ''diagnostics egress probe''
                       else ''diagnostics probe: host not in approved set'')
         in (if allowed then AllowNav else BlockNav,
             pe_record pe (nav_entry now c req (if allowed then AllowDecision else BlockDecision) (Some reason)) s,
             if \<not> allowed then map_option (\<lambda>_. Some reason) out else out)))"

definition guardForCredentialHost ::
  "url_parser \<Rightarrow> 's policy_engine \<Rightarrow> int \<Rightarrow> consumer \<Rightarrow> string \<Rightarrow> nav_request \<Rightarrow> 's \<Rightarrow> block_out
     \<Rightarrow> nav_decision \<times> 's \<times> block_out" where
  "guardForCredentialHost parse pe now c ownerHost req s out =
     (let owner = canonicalizeHost ownerHost
      in if \<not> isHttpUrl parse (nr_url req)
           then nav_block pe now c req ''scheme not allowed (only http/https)'' s out
         else if pe_egress pe (nr_host req) then nav_block pe now c req EGRESS_DENY_REASON s out
         else if nr_isNavigationRequest req \<and> denies parse (pe_origination pe) (nr_host req) (nr_url req)
           then nav_block pe now c req ORIGINATION_DENY_REASON s out
         else
           (let inAllowlist = allows (c_allowlist c) (nr_host req);
                allowed = (if nr_isNavigationRequest req
                           then canonicalizeHost (nr_host req) = owner \<and> inAllowlist else inAllowlist)
            in if \<not> allowed
                 then nav_block pe now c req
                        (if nr_isNavigationRequest req
                         then ''credential scope: navigation is not the credential owner host''
                         else ''host not in consumer allowlist'') s out
               else if nr_isNavigationRequest req
                 then (AllowNav, pe_record pe (nav_entry now c req AllowDecision None) s, out)
               else (AllowNav, s, out)))"

section \<open>What a caller relies on\<close>

definition blocked_last ::
  "(string option \<Rightarrow> audit_record) \<Rightarrow> audit_record list \<Rightarrow> block_out \<Rightarrow> block_out \<Rightarrow> bool" where
  \<comment> \<open>the newest record is this request's block, for the reason that \<open>out\<close> carries\<close>
  "blocked_last entry tr out out' \<longleftrightarrow>
     (\<exists>reason. tr \<noteq> [] \<and> last tr = entry (Some reason) \<and> out' = map_option (\<lambda>_. Some reason) out)"

locale nav_guard =
  fixes guard :: "nav_request \<Rightarrow> 's \<Rightarrow> block_out \<Rightarrow> nav_decision \<times> 's \<times> block_out"
    and trail :: "'s \<Rightarrow> audit_record list"
    and parse :: url_parser
    and egress :: "string \<Rightarrow> bool"
    and entry :: "nav_request \<Rightarrow> string option \<Rightarrow> audit_record"
  assumes verdict_pure: "fst (guard req s out) = fst (guard req s' out')"
    and allow_scheme: "fst (guard req s out) = AllowNav \<Longrightarrow> isHttpUrl parse (nr_url req)"
    and allow_egress: "fst (guard req s out) = AllowNav \<Longrightarrow> \<not> egress (nr_host req)"
    and allow_out: "guard req s out = (AllowNav, s', out') \<Longrightarrow> out' = out"
    and block_audited: "guard req s out = (BlockNav, s', out') \<Longrightarrow> blocked_last (entry req) (trail s') out out'"
begin

text \<open>The guard fires on every hop; a load follows hops until one is blocked.\<close>

fun follow :: "nav_request list \<Rightarrow> 's \<Rightarrow> nav_request list \<times> 's" where
  "follow [] s = ([], s)"
| "follow (r # rs) s =
     (case guard r s None of
        (AllowNav, s', _) \<Rightarrow> (case follow rs s' of (done, t) \<Rightarrow> (r # done, t))
      | (BlockNav, s', _) \<Rightarrow> ([], s'))"

lemma follow_allowed: "r \<in> set (fst (follow rs s)) \<Longrightarrow> fst (guard r t out) = AllowNav"
proof (induction rs arbitrary: s)
  case (Cons h rs)
  then show ?case
    using verdict_pure [of r t out _ None]
    by (auto split: prod.splits nav_decision.splits) (metis fst_conv)+
qed simp

lemma follow_safe:
  "r \<in> set (fst (follow rs s)) \<Longrightarrow> isHttpUrl parse (nr_url r) \<and> \<not> egress (nr_host r)"
  using follow_allowed allow_scheme allow_egress by blast

end

locale clamped_guard = nav_guard +
  fixes owner :: string
  assumes clamp: "fst (guard req s out) = AllowNav \<Longrightarrow> nr_isNavigationRequest req
    \<Longrightarrow> canonicalizeHost (nr_host req) = owner"
begin

lemma follow_owner:
  "r \<in> set (fst (follow rs s)) \<Longrightarrow> nr_isNavigationRequest r \<Longrightarrow> canonicalizeHost (nr_host r) = owner"
  using follow_allowed clamp by blast

end


section \<open>The engine's guards keep the contract\<close>

lemmas guard_defs = guardFor_def guardForDiagnostics_def guardForCredentialHost_def nav_block_def

lemma guard_verdict_pure:
  "fst (guardFor parse pe now c req s out) = fst (guardFor parse pe now c req s' out')"
  "fst (guardForDiagnostics parse pe now c req s out) = fst (guardForDiagnostics parse pe now c req s' out')"
  "fst (guardForCredentialHost parse pe now c h req s out) = fst (guardForCredentialHost parse pe now c h req s' out')"
  by (simp_all add: guard_defs Let_def)

lemma guardFor_allow_iff:
  "fst (guardFor parse pe now c req s out) = AllowNav \<longleftrightarrow>
     isHttpUrl parse (nr_url req) \<and> \<not> pe_egress pe (nr_host req) \<and>
     \<not> (nr_isNavigationRequest req \<and> denies parse (pe_origination pe) (nr_host req) (nr_url req)) \<and>
     allows (c_allowlist c) (nr_host req)"
  by (simp add: guard_defs)

lemma diagnostics_hosts [simp]: "DIAGNOSTICS_HOST_SET = [''ipinfo.io'']"
  by code_simp

lemma guardForDiagnostics_allow_iff:
  "fst (guardForDiagnostics parse pe now c req s out) = AllowNav \<longleftrightarrow>
     isHttpUrl parse (nr_url req) \<and> \<not> pe_egress pe (nr_host req) \<and>
     canonicalizeHost (nr_host req) = ''ipinfo.io''"
  by (simp add: guard_defs Let_def)

lemma guardForCredentialHost_allow_iff:
  "fst (guardForCredentialHost parse pe now c h req s out) = AllowNav \<longleftrightarrow>
     fst (guardFor parse pe now c req s out) = AllowNav \<and>
     (nr_isNavigationRequest req \<longrightarrow> canonicalizeHost (nr_host req) = canonicalizeHost h)"
  by (auto simp: guard_defs Let_def)

lemma guard_allow_out:
  "guardFor parse pe now c req s out = (AllowNav, s', out') \<Longrightarrow> out' = out"
  "guardForDiagnostics parse pe now c req s out = (AllowNav, s', out') \<Longrightarrow> out' = out"
  "guardForCredentialHost parse pe now c h req s out = (AllowNav, s', out') \<Longrightarrow> out' = out"
  by (auto simp: guard_defs Let_def split: if_splits)

lemma guard_block_recorded:
  "guardFor parse pe now c req s out = (BlockNav, s', out') \<Longrightarrow>
     \<exists>reason. s' = pe_record pe (nav_entry now c req BlockDecision (Some reason)) s \<and>
              out' = map_option (\<lambda>_. Some reason) out"
  "guardForDiagnostics parse pe now c req s out = (BlockNav, s', out') \<Longrightarrow>
     \<exists>reason. s' = pe_record pe (nav_entry now c req BlockDecision (Some reason)) s \<and>
              out' = map_option (\<lambda>_. Some reason) out"
  "guardForCredentialHost parse pe now c h req s out = (BlockNav, s', out') \<Longrightarrow>
     \<exists>reason. s' = pe_record pe (nav_entry now c req BlockDecision (Some reason)) s \<and>
              out' = map_option (\<lambda>_. Some reason) out"
  by (auto simp: guard_defs Let_def split: if_splits)

lemma block_recorded_last:
  assumes "audit_sink rec trail shown"
    and "\<exists>reason. s' = rec (f (Some reason)) s \<and> out' = map_option (\<lambda>_. Some reason) out"
  shows "blocked_last (\<lambda>r. shown (f r)) (trail s') out out'"
  using assms(2) audit_sink.newest_last [OF assms(1)] unfolding blocked_last_def by blast

lemma guards_keep_contract:
  assumes "audit_sink (pe_record pe) trail shown"
  shows "nav_guard (guardFor parse pe now c) trail parse (pe_egress pe)
      (\<lambda>req r. shown (nav_entry now c req BlockDecision r))"
    and "nav_guard (guardForDiagnostics parse pe now c) trail parse (pe_egress pe)
      (\<lambda>req r. shown (nav_entry now c req BlockDecision r))"
    and "nav_guard (guardForCredentialHost parse pe now c h) trail parse (pe_egress pe)
      (\<lambda>req r. shown (nav_entry now c req BlockDecision r))"
proof -
  note last = block_recorded_last [OF assms guard_block_recorded(1)]
    block_recorded_last [OF assms guard_block_recorded(2)]
    block_recorded_last [OF assms guard_block_recorded(3)]
  show "nav_guard (guardFor parse pe now c) trail parse (pe_egress pe)
      (\<lambda>req r. shown (nav_entry now c req BlockDecision r))"
    by (rule nav_guard.intro, rule guard_verdict_pure, simp add: guardFor_allow_iff,
        simp add: guardFor_allow_iff, erule guard_allow_out, erule last)
  show "nav_guard (guardForDiagnostics parse pe now c) trail parse (pe_egress pe)
      (\<lambda>req r. shown (nav_entry now c req BlockDecision r))"
    by (rule nav_guard.intro, rule guard_verdict_pure, simp add: guardForDiagnostics_allow_iff,
        simp add: guardForDiagnostics_allow_iff, erule guard_allow_out, erule last)
  show "nav_guard (guardForCredentialHost parse pe now c h) trail parse (pe_egress pe)
      (\<lambda>req r. shown (nav_entry now c req BlockDecision r))"
    by (rule nav_guard.intro, rule guard_verdict_pure,
        simp add: guardForCredentialHost_allow_iff guardFor_allow_iff,
        simp add: guardForCredentialHost_allow_iff guardFor_allow_iff, erule guard_allow_out, erule last)
qed


section \<open>The engine\<close>

definition new_PolicyEngine ::
  "registry \<Rightarrow> (audit_record \<Rightarrow> 's \<Rightarrow> 's) \<Rightarrow> (string \<Rightarrow> bool) option \<Rightarrow> origination_boundary option
     \<Rightarrow> 's policy_engine" where
  "new_PolicyEngine reg rec eg ob =
     \<lparr>pe_registry = reg, pe_record = rec,
      pe_egress = (case eg of Some f \<Rightarrow> f | None \<Rightarrow> isBlockedEgressHost),
      pe_origination = (case ob of Some b \<Rightarrow> b
                        | None \<Rightarrow> projr (new_OriginationBoundary (\<lambda>_. None) [] []))\<rparr>"

abbreviation mem_engine ::
  "registry \<Rightarrow> (string \<Rightarrow> bool) option \<Rightarrow> origination_boundary option \<Rightarrow> memory_sink policy_engine" where
  "mem_engine reg eg ob \<equiv> new_PolicyEngine reg mem_record eg ob"

abbreviation redacting_engine ::
  "(string \<Rightarrow> string) \<Rightarrow> string list \<Rightarrow> registry \<Rightarrow> (string \<Rightarrow> bool) option \<Rightarrow> origination_boundary option
     \<Rightarrow> memory_sink policy_engine" where
  "redacting_engine insp secrets reg eg ob \<equiv> new_PolicyEngine reg (redacting_record insp secrets mem_record) eg ob"

lemma new_PolicyEngine_sel [simp]:
  "pe_registry (new_PolicyEngine reg rec eg ob) = reg"
  "pe_record (new_PolicyEngine reg rec eg ob) = rec"
  "pe_egress (new_PolicyEngine reg rec None ob) = isBlockedEgressHost"
  "pe_egress (new_PolicyEngine reg rec (Some f) ob) = f"
  "pe_origination (new_PolicyEngine reg rec eg (Some b)) = b"
  by (simp_all add: new_PolicyEngine_def)

lemma mem_engine_sink: "audit_sink (pe_record (mem_engine reg eg ob)) ms_records id"
  using mem.audit_sink_axioms by simp

lemma redacting_engine_sink:
  "audit_sink (pe_record (redacting_engine insp secrets reg eg ob)) ms_records (scrub_record insp secrets)"
  using redacting.audit_sink_axioms by simp

interpretation consumer_guard: nav_guard "guardFor parse (mem_engine reg eg ob) now c" ms_records parse
    "pe_egress (mem_engine reg eg ob)" "\<lambda>req r. id (nav_entry now c req BlockDecision r)"
  by (rule guards_keep_contract(1) [OF mem_engine_sink])

interpretation diagnostics_guard: nav_guard "guardForDiagnostics parse (mem_engine reg eg ob) now c" ms_records
    parse "pe_egress (mem_engine reg eg ob)" "\<lambda>req r. id (nav_entry now c req BlockDecision r)"
  by (rule guards_keep_contract(2) [OF mem_engine_sink])

interpretation credential_guard: clamped_guard "guardForCredentialHost parse (mem_engine reg eg ob) now c h"
    ms_records parse "pe_egress (mem_engine reg eg ob)" "\<lambda>req r. id (nav_entry now c req BlockDecision r)"
    "canonicalizeHost h"
  by (intro clamped_guard.intro guards_keep_contract(3) [OF mem_engine_sink] clamped_guard_axioms.intro)
    (simp add: guardForCredentialHost_allow_iff)

interpretation redacted_consumer_guard: nav_guard "guardFor parse (redacting_engine insp secrets reg eg ob) now c"
    ms_records parse "pe_egress (redacting_engine insp secrets reg eg ob)"
    "\<lambda>req r. scrub_record insp secrets (nav_entry now c req BlockDecision r)"
  by (rule guards_keep_contract(1) [OF redacting_engine_sink])

section \<open>Properties\<close>

text \<open>C2: the consumer guard decides exactly by the configured rules: with the default egress filter a
  request is allowed if and only if its scheme is http(s), its host is not an egress-blocked target,
  a navigation is not an origination route, and one of the consumer's rules admits the host; the
  verdict depends neither on the trail nor on the side channel.\<close>

theorem consumer_guard_exact:
  "fst (guardFor parse (new_PolicyEngine reg rec None (Some ob)) now (consumer_of spec) req s out) = AllowNav \<longleftrightarrow>
     isHttpUrl parse (nr_url req) \<and> \<not> isBlockedEgressHost (nr_host req) \<and>
     \<not> (nr_isNavigationRequest req \<and> denies parse ob (nr_host req) (nr_url req)) \<and>
     (\<exists>r \<in> set (cs_allow spec). rule_allows r (nr_host req))"
  by (simp add: guardFor_allow_iff consumer_of_def new_Allowlist_def allows_foldl)

theorem consumer_guard_exact_witness:
  "fst (guardFor (\<lambda>_. Some (example_url ''/'')) (new_PolicyEngine [] mem_record None (Some example_boundary)) 0
     (consumer_of example_spec) \<lparr>nr_url = ''u'', nr_host = ''127.0.0.1'', nr_resourceType = ''document'',
       nr_isNavigationRequest = True\<rparr> (new_InMemoryAuditSink 0) None) = BlockNav"
proof -
  have "isBlockedEgressHost ''127.0.0.1''" by code_simp
  then have "fst (guardFor (\<lambda>_. Some (example_url ''/'')) (new_PolicyEngine [] mem_record None (Some example_boundary)) 0
     (consumer_of example_spec) \<lparr>nr_url = ''u'', nr_host = ''127.0.0.1'', nr_resourceType = ''document'',
       nr_isNavigationRequest = True\<rparr> (new_InMemoryAuditSink 0) None) \<noteq> AllowNav"
    by (subst consumer_guard_exact) simp
  then show ?thesis using nav_decision.exhaust by blast
qed

text \<open>Every block of every guard is audited and explained: whichever guard refuses a request, the
  newest record of the trail is that request's block for the initiating consumer, and the reason
  written to the caller's side channel is the recorded one.\<close>

theorem every_block_audited:
  assumes "pe = mem_engine reg eg ob"
    and "guardFor parse pe now c req s out = (BlockNav, s', out') \<or>
      guardForDiagnostics parse pe now c req s out = (BlockNav, s', out') \<or>
      guardForCredentialHost parse pe now c h req s out = (BlockNav, s', out')"
  shows "\<exists>reason. ms_records s' \<noteq> [] \<and>
      last (ms_records s') = nav_entry now c req BlockDecision (Some reason) \<and>
      out' = map_option (\<lambda>_. Some reason) out"
proof -
  have "blocked_last (\<lambda>r. id (nav_entry now c req BlockDecision r)) (ms_records s') out out'"
    using assms(2) unfolding assms(1)
    by (metis consumer_guard.block_audited diagnostics_guard.block_audited credential_guard.block_audited)
  then show ?thesis by (simp only: blocked_last_def id_apply)
qed

definition file_request :: nav_request where
  "file_request = \<lparr>nr_url = ''file:///etc/passwd'', nr_host = [], nr_resourceType = ''document'',
     nr_isNavigationRequest = True\<rparr>"

theorem every_block_audited_witness:
  "\<exists>reason s' out'. guardFor (\<lambda>_. None) (mem_engine [] None None) 7 (consumer_of example_spec) file_request
       (new_InMemoryAuditSink 1) (Some None) = (BlockNav, s', out') \<and>
     last (ms_records s') = nav_entry 7 (consumer_of example_spec) file_request BlockDecision (Some reason) \<and>
     out' = Some (Some reason)"
proof -
  obtain s' out' where g: "guardFor (\<lambda>_. None) (mem_engine [] None None) 7 (consumer_of example_spec) file_request
      (new_InMemoryAuditSink 1) (Some None) = (BlockNav, s', out')"
    by (simp add: guardFor_def nav_block_def isHttpUrl_def)
  show ?thesis using every_block_audited [OF refl disjI1 [OF g]] g by auto
qed

text \<open>Authentication is exact and always on the trail: with a registry built from the consumer
  definitions a token authenticates precisely when a definition carries it, as that definition's
  consumer; the newest record says so with the consumer's id, or says that an unattributed attempt
  was rejected.\<close>

theorem authenticate_exact:
  assumes "new_ConsumerRegistry specs = Inr reg" "pe = mem_engine reg eg ob"
    and "authenticate pe now t s = (res, s')"
  shows "(res = Inr c \<longleftrightarrow> t \<noteq> [] \<and> (\<exists>spec \<in> set specs. cs_token spec = t \<and> c = consumer_of spec)) \<and>
    ar_decision (last (ms_records s')) = (if isl res then AuthReject else AuthOk) \<and>
    ar_consumerId (last (ms_records s')) = (case res of Inl _ \<Rightarrow> None | Inr c' \<Rightarrow> Some (c_id c'))"
proof -
  have "resolve reg t = Some c \<longleftrightarrow> t \<noteq> [] \<and> (\<exists>spec \<in> set specs. cs_token spec = t \<and> c = consumer_of spec)"
    using resolve_new_registry [OF assms(1), of t c] by (cases t) (auto simp: resolve_def)
  moreover have "res = Inr c \<longleftrightarrow> resolve reg t = Some c"
    using assms(2,3) by (auto simp: authenticate_def split: option.splits)
  moreover have "\<exists>e. s' = mem_record e s \<and> ar_decision e = (if isl res then AuthReject else AuthOk) \<and>
      ar_consumerId e = (case res of Inl _ \<Rightarrow> None | Inr c' \<Rightarrow> Some (c_id c'))"
    using assms(2,3) by (auto simp: authenticate_def split: option.splits)
  ultimately show ?thesis using mem.newest_last by auto
qed

theorem authenticate_exact_witness:
  "\<exists>reg s'. new_ConsumerRegistry [example_spec] = Inr reg \<and>
     authenticate (mem_engine reg None None) 3 ''tok-124'' (new_InMemoryAuditSink 0) = (Inl UNAUTHENTICATED, s') \<and>
     ar_decision (last (ms_records s')) = AuthReject"
proof -
  obtain reg where r: "new_ConsumerRegistry [example_spec] = Inr reg"
    by (auto simp: new_ConsumerRegistry_def registry_add_def example_spec_def)
  have n: "resolve reg ''tok-124'' = None"
    using r by (auto simp: new_ConsumerRegistry_def registry_add_def example_spec_def resolve_def)
  then obtain s' where a: "authenticate (mem_engine reg None None) 3 ''tok-124'' (new_InMemoryAuditSink 0) =
      (Inl UNAUTHENTICATED, s')"
    by (simp add: authenticate_def)
  show ?thesis using r a authenticate_exact [OF r refl a] by auto
qed

end
