(* ===== verification/Interception.thy ===== *)
theory Interception
  imports Policy_Engine
begin

text \<open>
  Request interception in the browser core (\<open>src/browser/patchright-core.ts\<close>): a paused CDP Fetch
  request is mapped to the request the guard sees, decided fail-closed, and answered with exactly one
  continue or fail. Every redirect hop is paused again, so a chain of hops is a list of events. The
  core's fields the handler reads and writes are the record \<open>interceptor\<close>; the CDP session is the
  list of answers sent. A guard may throw: its verdict is \<open>Inl\<close> the error then.
\<close>

record fetch_event =
  ev_requestId :: nat
  ev_url :: "string option"
  ev_resourceType :: "string option"

definition cdpRequestToNavigation :: "url_parser \<Rightarrow> string option \<Rightarrow> string \<Rightarrow> nav_request" where
  \<comment> \<open>\<open>None\<close>: a \<open>resourceType\<close> that is not a string\<close>
  "cdpRequestToNavigation parse resourceType url =
     \<lparr>nr_url = url, nr_host = hostFromUrl parse url,
      nr_resourceType = (case resourceType of Some t \<Rightarrow> js_lower t | None \<Rightarrow> []),
      nr_isNavigationRequest = (resourceType = Some ''Document'')\<rparr>"

type_synonym 's guard_fun =
  "nav_request \<Rightarrow> 's \<Rightarrow> block_out \<Rightarrow> (string + nav_decision) \<times> 's \<times> block_out"

definition event_url :: "fetch_event \<Rightarrow> string" where
  \<comment> \<open>\<open>event.request?.url ?? ""\<close>\<close>
  "event_url ev = (case ev_url ev of Some u \<Rightarrow> u | None \<Rightarrow> [])"

definition decideRequest ::
  "url_parser \<Rightarrow> 's guard_fun option \<Rightarrow> fetch_event \<Rightarrow> 's \<Rightarrow> block_out
     \<Rightarrow> nav_decision \<times> 's \<times> block_out \<times> string option" where
  \<comment> \<open>the last component is what \<open>onError\<close> was called with\<close>
  "decideRequest parse guard ev s out =
     (case guard of
        None \<Rightarrow> (BlockNav, s, out, None)
      | Some g \<Rightarrow>
          (case g (cdpRequestToNavigation parse (ev_resourceType ev) (event_url ev)) s out of
             (Inr d, s', out') \<Rightarrow> (d, s', out', None)
           | (Inl err, s', out') \<Rightarrow> (BlockNav, s', out', Some err)))"

record 's interceptor =
  ic_closing :: bool
  ic_activeGuard :: "'s guard_fun option"
  ic_lastNavBlock :: "(string \<times> string) list"

datatype cdp_answer = ContinueRequest nat | FailRequest nat

definition MAX_NAV_BLOCK_ENTRIES :: nat where
  "MAX_NAV_BLOCK_ENTRIES = 32"

definition note_block :: "string \<Rightarrow> string \<Rightarrow> (string \<times> string) list \<Rightarrow> (string \<times> string) list" where
  "note_block key reason m =
     alist_put key reason
       (if length m \<ge> MAX_NAV_BLOCK_ENTRIES \<and> map_of m key = None then tl m else m)"

definition onRequestPaused ::
  "url_parser \<Rightarrow> 's interceptor \<Rightarrow> fetch_event \<Rightarrow> 's \<Rightarrow> cdp_answer \<times> 's interceptor \<times> 's" where
  "onRequestPaused parse ic ev s =
     (let (decision, s', blockInfo, err) =
            (if ic_closing ic then (BlockNav, s, Some None, None)
             else decideRequest parse (ic_activeGuard ic) ev s (Some None));
          ic' = (case blockInfo of
                   Some (Some reason) \<Rightarrow>
                     if decision = BlockNav \<and> ev_resourceType ev = Some ''Document''
                     then ic\<lparr>ic_lastNavBlock := note_block (event_url ev) reason (ic_lastNavBlock ic)\<rparr>
                     else ic
                 | _ \<Rightarrow> ic)
      in (if decision = AllowNav then ContinueRequest (ev_requestId ev) else FailRequest (ev_requestId ev),
          ic', s'))"

fun handle_events ::
  "url_parser \<Rightarrow> 's interceptor \<Rightarrow> fetch_event list \<Rightarrow> 's \<Rightarrow> cdp_answer list \<times> 's interceptor \<times> 's" where
  \<comment> \<open>the handler runs on each paused request in turn\<close>
  "handle_events parse ic [] s = ([], ic, s)"
| "handle_events parse ic (ev # evs) s =
     (case onRequestPaused parse ic ev s of (a, ic', s') \<Rightarrow>
        (case handle_events parse ic' evs s' of (as, ic'', s'') \<Rightarrow> (a # as, ic'', s'')))"

definition setNavigationGuard :: "'s guard_fun \<Rightarrow> 's interceptor \<Rightarrow> 's interceptor" where
  "setNavigationGuard g ic = ic\<lparr>ic_activeGuard := Some g\<rparr>"

section \<open>The handler\<close>

lemma alist_put_length:
  "length (alist_put k v m) = (if map_of m k = None then Suc (length m) else length m)"
  by (induction k v m rule: alist_put.induct) auto

lemma note_block_bounded:
  "length m \<le> MAX_NAV_BLOCK_ENTRIES \<Longrightarrow> length (note_block k r m) \<le> MAX_NAV_BLOCK_ENTRIES"
  by (auto simp: note_block_def alist_put_length MAX_NAV_BLOCK_ENTRIES_def)

lemma note_block_lookup [simp]: "map_of (note_block k r m) k = Some r"
  by (simp add: note_block_def)

lemma onRequestPaused_frame:
  assumes "onRequestPaused parse ic ev s = (a, ic', s')"
  shows "ic_closing ic' = ic_closing ic" "ic_activeGuard ic' = ic_activeGuard ic"
    "length (ic_lastNavBlock ic) \<le> MAX_NAV_BLOCK_ENTRIES \<Longrightarrow>
       length (ic_lastNavBlock ic') \<le> MAX_NAV_BLOCK_ENTRIES"
  using assms
  by (auto simp: onRequestPaused_def Let_def note_block_bounded split: if_splits option.splits prod.splits)

lemma continue_allowed:
  "fst (onRequestPaused parse ic ev s) = ContinueRequest i \<longleftrightarrow>
     i = ev_requestId ev \<and> \<not> ic_closing ic \<and>
     (\<exists>g. ic_activeGuard ic = Some g \<and>
        fst (g (cdpRequestToNavigation parse (ev_resourceType ev) (event_url ev)) s (Some None)) = Inr AllowNav)"
  by (auto simp: onRequestPaused_def decideRequest_def Let_def split: option.splits prod.splits sum.splits)

lemma answered_once:
  "fst (onRequestPaused parse ic ev s) \<in> {ContinueRequest (ev_requestId ev), FailRequest (ev_requestId ev)}"
  by (simp add: onRequestPaused_def Let_def split: prod.splits)

lemma handle_events_continue:
  assumes "handle_events parse ic evs s = (as, ic', s')"
  shows "length as = length evs \<and> ic_closing ic' = ic_closing ic \<and> ic_activeGuard ic' = ic_activeGuard ic \<and>
    (length (ic_lastNavBlock ic) \<le> MAX_NAV_BLOCK_ENTRIES \<longrightarrow>
       length (ic_lastNavBlock ic') \<le> MAX_NAV_BLOCK_ENTRIES) \<and>
    (\<forall>i < length evs. as ! i \<in> {ContinueRequest (ev_requestId (evs ! i)), FailRequest (ev_requestId (evs ! i))} \<and>
       (as ! i = ContinueRequest (ev_requestId (evs ! i)) \<longrightarrow> \<not> ic_closing ic \<and>
         (\<exists>g t. ic_activeGuard ic = Some g \<and>
           fst (g (cdpRequestToNavigation parse (ev_resourceType (evs ! i)) (event_url (evs ! i))) t (Some None))
             = Inr AllowNav)))"
  using assms
proof (induction evs arbitrary: ic s as ic' s')
  case (Cons ev evs)
  obtain a ic1 s1 where h: "onRequestPaused parse ic ev s = (a, ic1, s1)" by (metis prod_cases3)
  obtain bs ic2 s2 where t: "handle_events parse ic1 evs s1 = (bs, ic2, s2)" by (metis prod_cases3)
  have eqs: "as = a # bs" "ic' = ic2" using Cons.prems h t by simp_all
  have a: "a \<in> {ContinueRequest (ev_requestId ev), FailRequest (ev_requestId ev)}"
    using answered_once [of parse ic ev s] h by simp
  have c: "a = ContinueRequest (ev_requestId ev) \<longrightarrow> \<not> ic_closing ic \<and>
      (\<exists>g t. ic_activeGuard ic = Some g \<and>
        fst (g (cdpRequestToNavigation parse (ev_resourceType ev) (event_url ev)) t (Some None)) = Inr AllowNav)"
    using continue_allowed [of parse ic ev s "ev_requestId ev"] h by auto
  note IH = Cons.IH [OF t] and fr = onRequestPaused_frame [OF h]
  have "as ! i \<in> {ContinueRequest (ev_requestId ((ev # evs) ! i)), FailRequest (ev_requestId ((ev # evs) ! i))} \<and>
      (as ! i = ContinueRequest (ev_requestId ((ev # evs) ! i)) \<longrightarrow> \<not> ic_closing ic \<and>
       (\<exists>g t. ic_activeGuard ic = Some g \<and>
         fst (g (cdpRequestToNavigation parse (ev_resourceType ((ev # evs) ! i)) (event_url ((ev # evs) ! i))) t (Some None))
           = Inr AllowNav))" if "i < length (ev # evs)" for i
    using that a c IH fr(1,2) by (cases i) (simp_all add: eqs)
  then show ?case using IH fr eqs by simp
qed simp

section \<open>Properties\<close>


definition closing_interceptor :: "unit interceptor" where
  "closing_interceptor =
     \<lparr>ic_closing = True, ic_activeGuard = Some (\<lambda>req s out. (Inr AllowNav, s, out)), ic_lastNavBlock = []\<rparr>"

definition document_event :: "nat \<Rightarrow> string \<Rightarrow> fetch_event" where
  "document_event i u = \<lparr>ev_requestId = i, ev_url = Some u, ev_resourceType = Some ''Document''\<rparr>"


definition never_throws :: "(nav_request \<Rightarrow> 's \<Rightarrow> block_out \<Rightarrow> nav_decision \<times> 's \<times> block_out) \<Rightarrow> 's guard_fun" where
  "never_throws g req s out = (case g req s out of (d, s', out') \<Rightarrow> (Inr d, s', out'))"

lemma never_throws_fst: "fst (never_throws g req s out) = Inr (fst (g req s out))"
  by (simp add: never_throws_def split: prod.splits)

text \<open>C1: a credentialed session cannot be led off its owner's host: with the credential guard
  installed, whatever chain of requests and redirect hops is paused, every request that is continued is
  http(s), is not an egress target, is admitted by one of the consumer's rules and, when it is a
  document load, has the credential's owner as its host.\<close>

theorem credential_session_confined:
  assumes "ic_activeGuard ic = Some (never_throws
      (guardForCredentialHost parse (mem_engine reg None (Some ob)) now (consumer_of spec) h))"
    and "handle_events parse ic evs s = (as, ic', s')"
    and "i < length evs" "as ! i = ContinueRequest (ev_requestId (evs ! i))"
  shows "isHttpUrl parse (event_url (evs ! i)) \<and>
    \<not> isBlockedEgressHost (hostFromUrl parse (event_url (evs ! i))) \<and>
    (\<exists>r \<in> set (cs_allow spec). rule_allows r (hostFromUrl parse (event_url (evs ! i)))) \<and>
    (ev_resourceType (evs ! i) = Some ''Document'' \<longrightarrow>
       canonicalizeHost (hostFromUrl parse (event_url (evs ! i))) = canonicalizeHost h)"
proof -
  let ?req = "cdpRequestToNavigation parse (ev_resourceType (evs ! i)) (event_url (evs ! i))"
  let ?g = "guardForCredentialHost parse (mem_engine reg None (Some ob)) now (consumer_of spec) h"
  obtain t where "fst (never_throws ?g ?req t (Some None)) = Inr AllowNav"
    using handle_events_continue [OF assms(2)] assms(1,3,4) by auto
  then have allowed: "fst (?g ?req t (Some None)) = AllowNav" by (simp add: never_throws_fst)
  then have "fst (guardFor parse (mem_engine reg None (Some ob)) now (consumer_of spec) ?req t (Some None)) = AllowNav"
    by (simp add: guardForCredentialHost_allow_iff)
  then show ?thesis
    using credential_guard.clamp [OF allowed]
    by (simp add: guardFor_allow_iff consumer_of_def new_Allowlist_def allows_foldl cdpRequestToNavigation_def)
qed

definition wide_spec :: consumer_spec where
  "wide_spec = \<lparr>cs_id = ''agent'', cs_token = ''tok-1'', cs_allow = [''*.example''], cs_tags = None\<rparr>"

abbreviation example_parse :: url_parser where
  "example_parse \<equiv> \<lambda>_. Some (example_url ''/'')"

abbreviation owner_guard :: "nav_request \<Rightarrow> memory_sink \<Rightarrow> block_out \<Rightarrow> nav_decision \<times> memory_sink \<times> block_out" where
  "owner_guard \<equiv> guardForCredentialHost example_parse (mem_engine [] None (Some example_boundary)) 0
     (consumer_of wide_spec) ''Shop.Example.''"

definition credential_interceptor :: "memory_sink interceptor" where
  "credential_interceptor =
     \<lparr>ic_closing = False, ic_activeGuard = Some (never_throws owner_guard), ic_lastNavBlock = []\<rparr>"

lemma owner_allowed:
  "fst (owner_guard (cdpRequestToNavigation example_parse (Some ''Document'') ''u'') s out) = AllowNav"
proof -
  have "hostFromUrl example_parse ''u'' = ''shop.example''" by code_simp
  moreover have "isHttpUrl example_parse ''u''" by code_simp
  moreover have "\<not> isBlockedEgressHost ''shop.example''" by code_simp
  moreover have "\<not> denies example_parse example_boundary ''shop.example'' ''u''" by code_simp
  moreover have "allows (c_allowlist (consumer_of wide_spec)) ''shop.example''" by code_simp
  moreover have "canonicalizeHost ''shop.example'' = canonicalizeHost ''Shop.Example.''" by code_simp
  ultimately show ?thesis
    by (simp add: guardForCredentialHost_allow_iff guardFor_allow_iff cdpRequestToNavigation_def)
qed

theorem credential_session_confined_witness:
  "fst (handle_events example_parse credential_interceptor [document_event 1 ''u''] (new_InMemoryAuditSink 0))
     = [ContinueRequest 1] \<and>
   canonicalizeHost (hostFromUrl example_parse ''u'') = ''shop.example''"
proof -
  let ?evs = "[document_event 1 ''u'']"
  obtain as ic' s' where h: "handle_events example_parse credential_interceptor ?evs
      (new_InMemoryAuditSink 0) = (as, ic', s')"
    by (metis prod_cases3)
  have "fst (onRequestPaused example_parse credential_interceptor (document_event 1 ''u'') (new_InMemoryAuditSink 0))
      = ContinueRequest 1"
    using owner_allowed
    by (simp add: continue_allowed credential_interceptor_def document_event_def event_url_def never_throws_fst)
  then have as: "as = [ContinueRequest 1]"
    using h by (auto split: prod.splits)
  have "canonicalizeHost (hostFromUrl example_parse ''u'') = canonicalizeHost ''Shop.Example.''"
    using credential_session_confined [OF _ h, where i = 0 and reg = "[]" and ob = example_boundary and now = 0
        and spec = wide_spec and h = "''Shop.Example.''"]
    by (simp add: as credential_interceptor_def document_event_def event_url_def)
  moreover have "canonicalizeHost ''Shop.Example.'' = ''shop.example''" by code_simp
  ultimately show ?thesis using h as by simp
qed

end
