(* ===== verification/Transition.thy ===== *)
theory Transition
  imports Main
begin

text \<open>
  Components as transition systems: the states reachable from an initial one by labelled steps, and
  the contract of an inductive invariant, stated once as a locale and interpreted by every component
  that proves one.
\<close>

inductive reachable :: "('s \<Rightarrow> bool) \<Rightarrow> ('s \<Rightarrow> 'e \<Rightarrow> 's \<Rightarrow> bool) \<Rightarrow> 's \<Rightarrow> bool"
  for init :: "'s \<Rightarrow> bool" and step :: "'s \<Rightarrow> 'e \<Rightarrow> 's \<Rightarrow> bool" where
  start: "init s \<Longrightarrow> reachable init step s"
| more: "reachable init step s \<Longrightarrow> step s e s' \<Longrightarrow> reachable init step s'"

locale inductive_invariant =
  fixes init :: "'s \<Rightarrow> bool" and step :: "'s \<Rightarrow> 'e \<Rightarrow> 's \<Rightarrow> bool" and I :: "'s \<Rightarrow> bool"
  assumes initially: "init s \<Longrightarrow> I s"
    and preserved: "I s \<Longrightarrow> step s e s' \<Longrightarrow> I s'"
begin

lemma always: "reachable init step s \<Longrightarrow> I s"
  by (induction rule: reachable.induct) (auto intro: initially preserved)

lemma next_state: "reachable init step s \<Longrightarrow> step s e s' \<Longrightarrow> I s \<and> I s'"
  using always preserved by blast

end

section \<open>Running a list of events\<close>

fun run :: "('e \<Rightarrow> 's \<Rightarrow> 's option) \<Rightarrow> 'e list \<Rightarrow> 's \<Rightarrow> 's option" where
  "run f [] s = Some s"
| "run f (e # es) s = (case f e s of None \<Rightarrow> None | Some s' \<Rightarrow> run f es s')"

lemma run_reachable:
  assumes "\<And>s e s'. f e s = Some s' \<Longrightarrow> step s e s'"
  shows "run f es s = Some s' \<Longrightarrow> reachable init step s \<Longrightarrow> reachable init step s'"
  by (induction es arbitrary: s) (auto split: option.splits intro: reachable.more assms)

end
