(* ===== verification/Session.thy ===== *)
theory Session
  imports Prelude
begin

text \<open>
  A browser session (\<open>src/gateway/session.ts\<close>): its lifecycle metadata as a record, the activity
  stamps, and the two operations that end it. What the owned core answers is an argument: how the
  graceful \<open>close()\<close> raced against its grace timer came out, and whether \<open>kill()\<close> resolved. An
  operation returns the calls it made to the core and either the session it leaves behind (the
  promise resolved) or \<open>None\<close> (it rejected, the session unchanged). Times are milliseconds.
\<close>

datatype session_state = OpenState | ClosedState

record session =
  s_consumerId :: "string option"
  s_createdAt :: int
  s_state :: session_state
  s_lastActivityAt :: int
  s_inFlight :: nat
  s_inFlightSince :: "int option"
  s_forceKillAvailable :: bool

definition new_Session :: "bool \<Rightarrow> string option \<Rightarrow> int \<Rightarrow> session" where
  "new_Session fk consumerId now =
     \<lparr>s_consumerId = consumerId, s_createdAt = now, s_state = OpenState, s_lastActivityAt = now,
      s_inFlight = 0, s_inFlightSince = None, s_forceKillAvailable = fk\<rparr>"

definition inFlightMs :: "session \<Rightarrow> int \<Rightarrow> int" where
  "inFlightMs s now = (case s_inFlightSince s of None \<Rightarrow> 0 | Some t \<Rightarrow> now - t)"

definition touch :: "int \<Rightarrow> session \<Rightarrow> session" where
  "touch now s = s\<lparr>s_lastActivityAt := now\<rparr>"

definition beginActivity :: "int \<Rightarrow> session \<Rightarrow> session" where
  "beginActivity now s =
     (let s1 = (if s_inFlight s = 0 then s\<lparr>s_inFlightSince := Some now\<rparr> else s)
      in s1\<lparr>s_inFlight := s_inFlight s1 + 1, s_lastActivityAt := now\<rparr>)"

definition endActivity :: "int \<Rightarrow> session \<Rightarrow> session" where
  \<comment> \<open>\<open>Math.max(0, inFlight - 1)\<close> is the subtraction of natural numbers\<close>
  "endActivity now s =
     (let s1 = s\<lparr>s_inFlight := s_inFlight s - 1\<rparr>;
          s2 = (if s_inFlight s1 = 0 then s1\<lparr>s_inFlightSince := None\<rparr> else s1)
      in s2\<lparr>s_lastActivityAt := now\<rparr>)"

definition use_core :: "session \<Rightarrow> unit option" where
  \<comment> \<open>the \<open>core\<close> getter: \<open>None\<close> where it throws\<close>
  "use_core s = (if s_state s = ClosedState then None else Some ())"

datatype close_outcome = Closed | CloseFailed | CloseTimeout

datatype core_call = CallClose | CallKill

definition teardown :: "close_outcome \<Rightarrow> bool \<Rightarrow> session \<Rightarrow> core_call list \<times> session option" where
  "teardown outcome killOk s =
     (if s_state s = ClosedState then ([], Some s)
      else if s_forceKillAvailable s \<or> outcome \<noteq> Closed
        then ([CallClose, CallKill], if killOk then Some (s\<lparr>s_state := ClosedState\<rparr>) else None)
      else ([CallClose], Some (s\<lparr>s_state := ClosedState\<rparr>)))"

definition reconfirm :: "bool \<Rightarrow> session \<Rightarrow> core_call list \<times> session option" where
  "reconfirm killOk s =
     (if s_state s = ClosedState then ([], Some s)
      else ([CallKill], if killOk then Some (s\<lparr>s_state := ClosedState\<rparr>) else None))"

section \<open>Activity\<close>

definition activity_ok :: "session \<Rightarrow> bool" where
  \<comment> \<open>a burst has a start exactly while a verb is in flight\<close>
  "activity_ok s \<longleftrightarrow> (s_inFlightSince s = None \<longleftrightarrow> s_inFlight s = 0)"

lemma activity_ok_new [simp]: "activity_ok (new_Session fk c now)"
  by (simp add: activity_ok_def new_Session_def)

lemma activity_ok_begin: "activity_ok s \<Longrightarrow> activity_ok (beginActivity now s)"
  by (auto simp: activity_ok_def beginActivity_def Let_def)

lemma activity_ok_end: "activity_ok s \<Longrightarrow> activity_ok (endActivity now s)"
  by (auto simp: activity_ok_def endActivity_def Let_def)

datatype activity = Begin int | End int | Touch int

fun act :: "activity \<Rightarrow> session \<Rightarrow> session" where
  "act (Begin t) = beginActivity t"
| "act (End t) = endActivity t"
| "act (Touch t) = touch t"

fun time_of :: "activity \<Rightarrow> int" where
  "time_of (Begin t) = t" | "time_of (End t) = t" | "time_of (Touch t) = t"

lemma activity_ok_act: "activity_ok s \<Longrightarrow> activity_ok (act a s)"
  by (cases a) (simp_all add: activity_ok_begin activity_ok_end, simp add: activity_ok_def touch_def)

lemma activity_ok_fold: "activity_ok s \<Longrightarrow> activity_ok (fold act as s)"
  by (induction as arbitrary: s) (simp_all add: activity_ok_act)

fun depth :: "nat \<Rightarrow> activity list \<Rightarrow> nat" where
  \<comment> \<open>verbs entered and not yet left\<close>
  "depth n [] = n"
| "depth n (Begin _ # as) = depth (Suc n) as"
| "depth n (End _ # as) = depth (n - 1) as"
| "depth n (Touch _ # as) = depth n as"

lemma inFlight_depth: "s_inFlight (fold act as s) = depth (s_inFlight s) as"
proof (induction as arbitrary: s)
  case (Cons a as)
  then show ?case
    by (cases a) (simp_all add: beginActivity_def endActivity_def touch_def Let_def)
qed simp

lemma lastActivity_last: "s_lastActivityAt (fold act (as @ [a]) s) = time_of a"
  by (cases a) (simp_all add: beginActivity_def endActivity_def touch_def Let_def)

section \<open>Ending a session\<close>

lemma teardown_closes: "snd (teardown outcome killOk s) = Some s' \<Longrightarrow> s_state s' = ClosedState"
  by (auto simp: teardown_def split: if_splits)

lemma reconfirm_closes: "snd (reconfirm killOk s) = Some s' \<Longrightarrow> s_state s' = ClosedState"
  by (auto simp: reconfirm_def split: if_splits)

lemma teardown_consumer: "snd (teardown outcome killOk s) = Some s' \<Longrightarrow> s_consumerId s' = s_consumerId s"
  by (auto simp: teardown_def split: if_splits)

lemma reconfirm_consumer: "snd (reconfirm killOk s) = Some s' \<Longrightarrow> s_consumerId s' = s_consumerId s"
  by (auto simp: reconfirm_def split: if_splits)

text \<open>A session is reported dead only on confirmation: \<open>teardown\<close> of an open session resolves
  exactly when the force-kill confirmed or, where no force-kill is available, the close was clean;
  \<open>reconfirm\<close> never calls \<open>close()\<close> and resolves exactly when the kill confirmed.\<close>

theorem death_needs_confirmation:
  assumes "s_state s = OpenState"
  shows "(snd (teardown outcome killOk s) \<noteq> None \<longleftrightarrow>
      (if s_forceKillAvailable s then killOk else outcome = Closed \<or> killOk)) \<and>
    (CallKill \<in> set (fst (teardown outcome killOk s)) \<longleftrightarrow> s_forceKillAvailable s \<or> outcome \<noteq> Closed) \<and>
    fst (reconfirm killOk s) = [CallKill] \<and> (snd (reconfirm killOk s) \<noteq> None \<longleftrightarrow> killOk)"
  using assms by (auto simp: teardown_def reconfirm_def)

theorem death_needs_confirmation_witness:
  "snd (teardown Closed False (new_Session True None 0)) = None"
  using death_needs_confirmation [of "new_Session True None 0" Closed False] by (simp add: new_Session_def)

text \<open>The in-flight count is the number of verbs entered and not left, floored at zero, a burst
  has a start time exactly while that count is positive, and the last activity is the last stamp.\<close>

lemma activity_accounting:
  "s_inFlight (fold act (as @ [a]) (new_Session fk c t)) = depth 0 (as @ [a]) \<and>
   (s_inFlightSince (fold act (as @ [a]) (new_Session fk c t)) = None \<longleftrightarrow> depth 0 (as @ [a]) = 0) \<and>
   s_lastActivityAt (fold act (as @ [a]) (new_Session fk c t)) = time_of a"
  using inFlight_depth [of "as @ [a]" "new_Session fk c t"]
    activity_ok_fold [OF activity_ok_new, of "as @ [a]" fk c t] lastActivity_last
  by (simp only: activity_ok_def) (simp add: new_Session_def)

end
