(* ===== verification/Session_Manager.thy ===== *)
theory Session_Manager
  imports Session Transition
begin

text \<open>
  The session manager (\<open>src/gateway/session-manager.ts\<close>): its fields as the record \<open>manager\<close>, its
  methods as functions on it, cut at every \<open>await\<close> into segments that run to completion. What an
  awaited promise answers (a minted profile directory, a launch, a teardown, a sweep) is the argument
  of the segment that resumes. Sessions and orphan records are objects shared by reference, so they
  live in two stores and are named by their index; a JavaScript \<open>Set\<close> or \<open>Map\<close> is a list in
  insertion order.

  Beside the code's own fields the record keeps the promises in flight (\<open>m_launches\<close>: the acquires
  between their admission and their \<open>finally\<close>; \<open>m_late\<close>: launches still pending after their deadline,
  with the profile directory they were given; \<open>m_reaping\<close>, \<open>m_reconfirming\<close>: teardowns of late cores
  and kill-only reconfirms) and what the world has done so far: the browsers alive, the profile
  directory each was launched in, the directories minted and removed.
\<close>

section \<open>State\<close>

record orphan =
  o_dir :: "nat option"
  o_session :: "nat option"
  o_sweeping :: bool
  o_consumerId :: "string option"
  o_settled :: bool
  o_stamps :: "nat list option"
  o_settleAfterSweep :: bool

datatype error_code = SESSION_LIMIT | CORE_LAUNCH

datatype failure_kind =
  LaunchFailed | LaunchTimeout | AtCapacityGlobal | AtCapacityConsumer | ShuttingDown

type_synonym acquire_error = "error_code \<times> failure_kind"

datatype phase =
    Minting                         \<comment> \<open>awaiting the profile directory\<close>
  | Racing                          \<comment> \<open>awaiting the factory against the deadline\<close>
  | SelfTeardown nat nat            \<comment> \<open>launched into a shutdown: awaiting the teardown of (record, session)\<close>
  | Settling                        \<comment> \<open>awaiting that record's settlement\<close>
  | Settled "acquire_error + nat"   \<comment> \<open>the launch promise settled; \<open>acquire\<close>'s \<open>finally\<close> has not run\<close>

record launch =
  l_consumerId :: "string option"
  l_dir :: "nat option"
  l_phase :: phase

record manager =
  m_maxSessions :: nat
  m_perConsumerMax :: nat
  m_sessions :: "nat list"
  m_store :: "nat \<Rightarrow> session"
  m_nextSession :: nat
  m_reserved :: nat
  m_reservedByConsumer :: "(string \<times> nat) list"
  m_closing :: "nat list"
  m_unconfirmed :: "nat list"
  m_launches :: "(nat \<times> launch) list"
  m_shuttingDown :: bool
  m_ownedDirs :: "(nat \<times> nat) list"
  m_recs :: "nat \<Rightarrow> orphan"
  m_nextRec :: nat
  m_orphans :: "nat list"
  m_watch :: "nat list"
  m_late :: "(nat \<times> nat option) list"
  m_reaping :: "(nat \<times> nat) list"
  m_reconfirming :: "nat list"
  m_alive :: "nat list"
  m_profile :: "nat \<Rightarrow> nat option"
  m_minted :: "nat list"
  m_removed :: "nat list"

definition MAX_WATCHED_LAUNCHES :: nat where
  "MAX_WATCHED_LAUNCHES = 32"

definition MAX_INFLIGHT_MS :: int where
  "MAX_INFLIGHT_MS = 600000"

definition blank_orphan :: orphan where
  "blank_orphan =
     \<lparr>o_dir = None, o_session = None, o_sweeping = False, o_consumerId = None, o_settled = False,
      o_stamps = None, o_settleAfterSweep = False\<rparr>"

definition new_SessionManager :: "nat \<Rightarrow> nat option \<Rightarrow> manager" where
  "new_SessionManager maxSessions perConsumerMax =
     \<lparr>m_maxSessions = maxSessions,
      m_perConsumerMax = (case perConsumerMax of None \<Rightarrow> 1 | Some n \<Rightarrow> n),
      m_sessions = [], m_store = (\<lambda>_. new_Session False None 0), m_nextSession = 0,
      m_reserved = 0, m_reservedByConsumer = [], m_closing = [], m_unconfirmed = [], m_launches = [],
      m_shuttingDown = False, m_ownedDirs = [], m_recs = (\<lambda>_. blank_orphan), m_nextRec = 0,
      m_orphans = [], m_watch = [], m_late = [], m_reaping = [], m_reconfirming = [],
      m_alive = [], m_profile = (\<lambda>_. None), m_minted = [], m_removed = []\<rparr>"

definition truthy :: "string option \<Rightarrow> string option" where
  "truthy c = (if js_truthy c then c else None)"

definition upd_rec :: "nat \<Rightarrow> (orphan \<Rightarrow> orphan) \<Rightarrow> manager \<Rightarrow> manager" where
  "upd_rec r f m = m\<lparr>m_recs := (m_recs m)(r := f (m_recs m r))\<rparr>"

definition upd_launch :: "nat \<Rightarrow> (launch \<Rightarrow> launch) \<Rightarrow> manager \<Rightarrow> manager" where
  "upd_launch l f m = m\<lparr>m_launches := map (\<lambda>(k, la). (k, if k = l then f la else la)) (m_launches m)\<rparr>"

definition new_rec :: "orphan \<Rightarrow> manager \<Rightarrow> manager" where
  "new_rec rec m = m\<lparr>m_recs := (m_recs m)(m_nextRec m := rec), m_nextRec := m_nextRec m + 1\<rparr>"

definition new_core :: "bool \<Rightarrow> string option \<Rightarrow> int \<Rightarrow> nat option \<Rightarrow> manager \<Rightarrow> manager" where
  \<comment> \<open>\<open>new Session(core, ...)\<close> for a browser that runs in directory \<open>d\<close>\<close>
  "new_core fk c now d m =
     m\<lparr>m_store := (m_store m)(m_nextSession m := new_Session fk c now),
       m_profile := (m_profile m)(m_nextSession m := d),
       m_alive := m_nextSession m # m_alive m, m_nextSession := m_nextSession m + 1\<rparr>"

definition set_session :: "nat \<Rightarrow> session \<Rightarrow> manager \<Rightarrow> manager" where
  "set_session i s m = m\<lparr>m_store := (m_store m)(i := s)\<rparr>"

definition confirmed_dead :: "nat \<Rightarrow> session \<Rightarrow> manager \<Rightarrow> manager" where
  \<comment> \<open>a teardown or a reconfirm resolved: the session is closed and its browser is gone\<close>
  "confirmed_dead i s m = set_session i s m \<lparr>m_alive := removeAll i (m_alive m)\<rparr>"

section \<open>Counting\<close>

definition countForConsumer :: "manager \<Rightarrow> string \<Rightarrow> nat" where
  "countForConsumer m c =
     (case map_of (m_reservedByConsumer m) c of None \<Rightarrow> 0 | Some n \<Rightarrow> n) +
     length (filter (\<lambda>i. s_consumerId (m_store m i) = Some c) (m_sessions m)) +
     length (filter (\<lambda>r. o_consumerId (m_recs m r) = Some c) (m_orphans m))"

definition activeCount :: "manager \<Rightarrow> nat" where
  "activeCount m = length (m_sessions m) + length (m_orphans m)"

definition orphanCount :: "manager \<Rightarrow> nat" where
  "orphanCount m = length (m_orphans m)"

definition watchedCount :: "manager \<Rightarrow> nat" where
  "watchedCount m = length (m_watch m)"

definition unconfirmedCount :: "manager \<Rightarrow> nat" where
  "unconfirmedCount m = length (m_unconfirmed m)"

definition forceKillAvailable :: "manager \<Rightarrow> bool" where
  "forceKillAvailable m \<longleftrightarrow> (\<forall>i \<in> set (m_sessions m). s_forceKillAvailable (m_store m i))"

section \<open>Orphans\<close>

definition finalizeOrphan :: "nat \<Rightarrow> manager \<Rightarrow> manager" where
  "finalizeOrphan r m =
     (let m1 = m\<lparr>m_orphans := removeAll r (m_orphans m), m_watch := removeAll r (m_watch m)\<rparr>
      in case o_dir (m_recs m r) of
           None \<Rightarrow> m1
         | Some d \<Rightarrow> upd_rec r (\<lambda>q. q\<lparr>o_dir := None\<rparr>) (m1\<lparr>m_removed := m_removed m @ [d]\<rparr>))"

definition sweepOrphan :: "nat \<Rightarrow> manager \<Rightarrow> manager" where
  \<comment> \<open>up to the call of \<open>dirOps.sweep\<close>\<close>
  "sweepOrphan r m =
     (if o_sweeping (m_recs m r) \<or> o_session (m_recs m r) \<noteq> None then m
      else if r \<notin> set (m_orphans m) \<and> r \<notin> set (m_watch m) then m
      else if o_dir (m_recs m r) = None
        then m\<lparr>m_orphans := removeAll r (m_orphans m), m_watch := removeAll r (m_watch m)\<rparr>
      else upd_rec r (\<lambda>q. q\<lparr>o_sweeping := True\<rparr>) m)"

definition add_orphan :: "nat \<Rightarrow> manager \<Rightarrow> manager" where
  "add_orphan r m = m\<lparr>m_orphans := set_add r (m_orphans m)\<rparr>"

definition enqueueOrphan :: "nat \<Rightarrow> manager \<Rightarrow> manager" where
  "enqueueOrphan r m = sweepOrphan r (add_orphan r m)"

definition settleReapedOrphan :: "nat \<Rightarrow> manager \<Rightarrow> manager" where
  "settleReapedOrphan r m =
     (if o_sweeping (m_recs m r)
        then add_orphan r (upd_rec r (\<lambda>q. q\<lparr>o_settleAfterSweep := True\<rparr>) m)
      else if o_dir (m_recs m r) \<noteq> None \<and> o_stamps (m_recs m r) \<noteq> None \<and> o_stamps (m_recs m r) \<noteq> Some []
        then sweepOrphan r (add_orphan r (upd_rec r (\<lambda>q. q\<lparr>o_session := None\<rparr>) m))
      else finalizeOrphan r m)"

function evict :: "(nat \<Rightarrow> bool) \<Rightarrow> nat \<Rightarrow> nat list \<Rightarrow> nat list" where
  "evict sweeping reserve w =
     (if length w + reserve > MAX_WATCHED_LAUNCHES
      then (case find (\<lambda>r. \<not> sweeping r) w of
              None \<Rightarrow> w
            | Some r \<Rightarrow> evict sweeping reserve (removeAll r w))
      else w)"
  by pat_completeness auto
termination
  by (relation "measure (\<lambda>(_, _, w). length w)") (auto simp: find_Some_iff intro!: length_removeAll_less nth_mem)

declare evict.simps [simp del]

definition enforceWatchCap :: "nat \<Rightarrow> manager \<Rightarrow> manager" where
  "enforceWatchCap reserve m = m\<lparr>m_watch := evict (\<lambda>r. o_sweeping (m_recs m r)) reserve (m_watch m)\<rparr>"

definition watchLaunch :: "nat \<Rightarrow> manager \<Rightarrow> manager" where
  "watchLaunch r m = (let m1 = enforceWatchCap 1 m in m1\<lparr>m_watch := set_add r (m_watch m1)\<rparr>)"

datatype sweep_outcome = SweepConfirmed | SweepUnsupported | SweepUnconfirmed "nat list"

definition sweepDone :: "nat \<Rightarrow> sweep_outcome \<Rightarrow> manager \<Rightarrow> manager" where
  "sweepDone r out m =
     (let stamps = (case out of SweepUnconfirmed st \<Rightarrow> Some st | _ \<Rightarrow> None);
          m1 = upd_rec r (\<lambda>q. q\<lparr>o_sweeping := False, o_stamps := stamps\<rparr>) m
      in if o_settleAfterSweep (m_recs m1 r)
           then settleReapedOrphan r (upd_rec r (\<lambda>q. q\<lparr>o_settleAfterSweep := False\<rparr>) m1)
         else if o_session (m_recs m1 r) \<noteq> None then m1
         else case out of
                SweepConfirmed \<Rightarrow>
                  if o_settled (m_recs m1 r) then finalizeOrphan r m1
                  else if r \<in> set (m_orphans m1)
                    then watchLaunch r (m1\<lparr>m_orphans := removeAll r (m_orphans m1)\<rparr>)
                  else m1
              | SweepUnsupported \<Rightarrow>
                  m1\<lparr>m_orphans := removeAll r (m_orphans m1), m_watch := removeAll r (m_watch m1)\<rparr>
              | SweepUnconfirmed st \<Rightarrow>
                  add_orphan r (m1\<lparr>m_watch := removeAll r (m_watch m1)\<rparr>))"

definition sweepFailed :: "nat \<Rightarrow> manager \<Rightarrow> manager" where
  "sweepFailed r m =
     (let m1 = upd_rec r (\<lambda>q. q\<lparr>o_sweeping := False\<rparr>) m
      in if o_settleAfterSweep (m_recs m1 r)
           then settleReapedOrphan r (upd_rec r (\<lambda>q. q\<lparr>o_settleAfterSweep := False\<rparr>) m1)
         else if r \<in> set (m_watch m1)
           then add_orphan r (m1\<lparr>m_watch := removeAll r (m_watch m1)\<rparr>)
         else m1)"


section \<open>Acquire\<close>

definition settle_launch :: "nat \<Rightarrow> acquire_error + nat \<Rightarrow> manager \<Rightarrow> manager" where
  "settle_launch l res m = upd_launch l (\<lambda>la. la\<lparr>l_phase := Settled res\<rparr>) m"

definition orphan_of_launch :: "launch \<Rightarrow> bool \<Rightarrow> orphan" where
  "orphan_of_launch la settled =
     blank_orphan\<lparr>o_dir := l_dir la, o_consumerId := l_consumerId la, o_settled := settled\<rparr>"

definition launchFailed :: "nat \<Rightarrow> launch \<Rightarrow> manager \<Rightarrow> manager" where
  \<comment> \<open>the factory threw, or its promise rejected\<close>
  "launchFailed l la m =
     settle_launch l (Inl (CORE_LAUNCH, LaunchFailed))
       (if l_dir la \<noteq> None
        then enqueueOrphan (m_nextRec m) (new_rec (orphan_of_launch la True) m)
        else m)"

definition call_factory :: "nat \<Rightarrow> bool \<Rightarrow> launch \<Rightarrow> manager \<Rightarrow> manager" where
  "call_factory l throws la m =
     (if throws then launchFailed l la m
      else upd_launch l (\<lambda>_. la\<lparr>l_phase := Racing\<rparr>) m)"

definition acquire ::
  "nat \<Rightarrow> string option \<Rightarrow> bool \<Rightarrow> bool \<Rightarrow> manager \<Rightarrow> acquire_error option \<times> manager" where
  \<comment> \<open>up to the first \<open>await\<close>; \<open>callerDir\<close>: the caller supplied a profile directory\<close>
  "acquire l consumerId callerDir throws m =
     (if m_shuttingDown m then (Some (SESSION_LIMIT, ShuttingDown), m)
      else if activeCount m + m_reserved m \<ge> m_maxSessions m
        then (Some (SESSION_LIMIT, AtCapacityGlobal), m)
      else if js_truthy consumerId \<and> countForConsumer m (the consumerId) \<ge> m_perConsumerMax m
        then (Some (SESSION_LIMIT, AtCapacityConsumer), m)
      else
        (let la = \<lparr>l_consumerId = truthy consumerId, l_dir = None, l_phase = Minting\<rparr>;
             rbc = m_reservedByConsumer m;
             m1 = m\<lparr>m_reserved := m_reserved m + 1,
                    m_reservedByConsumer :=
                      (if js_truthy consumerId
                       then alist_put (the consumerId)
                              ((case map_of rbc (the consumerId) of None \<Rightarrow> 0 | Some n \<Rightarrow> n) + 1) rbc
                       else rbc),
                    m_launches := m_launches m @ [(l, la)]\<rparr>
         in (None, if callerDir then call_factory l throws la m1 else m1)))"

definition dirMinted :: "nat \<Rightarrow> nat option \<Rightarrow> bool \<Rightarrow> launch \<Rightarrow> manager \<Rightarrow> manager" where
  \<comment> \<open>\<open>None\<close>: \<open>dirOps.make()\<close> rejected\<close>
  "dirMinted l d throws la m =
     (let la1 = la\<lparr>l_dir := d\<rparr>
      in call_factory l throws la1
           (upd_launch l (\<lambda>_. la1) (m\<lparr>m_minted := (case d of None \<Rightarrow> m_minted m | Some x \<Rightarrow> x # m_minted m)\<rparr>)))"

definition launchTimedOut :: "nat \<Rightarrow> launch \<Rightarrow> manager \<Rightarrow> manager" where
  "launchTimedOut l la m =
     (let r = m_nextRec m;
          m1 = enqueueOrphan r (new_rec (orphan_of_launch la False) m)
      in settle_launch l (Inl (CORE_LAUNCH, LaunchTimeout)) (m1\<lparr>m_late := m_late m1 @ [(r, l_dir la)]\<rparr>))"

definition launched :: "nat \<Rightarrow> bool \<Rightarrow> int \<Rightarrow> launch \<Rightarrow> manager \<Rightarrow> manager" where
  "launched l fk now la m =
     (let i = m_nextSession m in
      if m_shuttingDown m
        then (let r = m_nextRec m;
                  m1 = new_core fk None now (l_dir la) m;
                  m2 = add_orphan r (new_rec (blank_orphan\<lparr>o_session := Some i, o_dir := l_dir la\<rparr>) m1)
              in upd_launch l (\<lambda>la. la\<lparr>l_phase := SelfTeardown r i\<rparr>) m2)
      else
        (let m1 = new_core fk (l_consumerId la) now (l_dir la) m;
             m2 = m1\<lparr>m_ownedDirs := (case l_dir la of None \<Rightarrow> m_ownedDirs m1 | Some d \<Rightarrow> alist_put i d (m_ownedDirs m1)),
                     m_sessions := set_add i (m_sessions m1)\<rparr>
         in settle_launch l (Inr i) m2))"

definition selfTeardownDone :: "nat \<Rightarrow> nat \<Rightarrow> nat \<Rightarrow> close_outcome \<Rightarrow> bool \<Rightarrow> manager \<Rightarrow> manager" where
  "selfTeardownDone l r i close killOk m =
     (case snd (teardown close killOk (m_store m i)) of
        Some s \<Rightarrow>
          upd_launch l (\<lambda>la. la\<lparr>l_phase := Settling\<rparr>) (settleReapedOrphan r (confirmed_dead i s m))
      | None \<Rightarrow>
          settle_launch l (Inl (SESSION_LIMIT, ShuttingDown)) (m\<lparr>m_unconfirmed := set_add i (m_unconfirmed m)\<rparr>))"

definition acquireFinally :: "nat \<Rightarrow> launch \<Rightarrow> manager \<Rightarrow> manager" where
  "acquireFinally l la m =
     (let rbc = m_reservedByConsumer m
      in m\<lparr>m_reserved := m_reserved m - 1,
           m_reservedByConsumer :=
             (case l_consumerId la of
                None \<Rightarrow> rbc
              | Some c \<Rightarrow>
                  (let remaining = (case map_of rbc c of None \<Rightarrow> 1 | Some n \<Rightarrow> n) - 1
                   in if remaining > 0 then alist_put c remaining rbc else alist_del c rbc)),
           m_launches := filter (\<lambda>p. fst p \<noteq> l) (m_launches m)\<rparr>)"

section \<open>Late launches\<close>

definition lateResolved :: "nat \<Rightarrow> nat option \<Rightarrow> bool \<Rightarrow> int \<Rightarrow> manager \<Rightarrow> manager" where
  \<comment> \<open>the launch of record \<open>r\<close> resolved past its deadline: \<open>#reapLateLaunch\<close> up to its first \<open>await\<close>\<close>
  "lateResolved r d fk now m =
     (let i = m_nextSession m;
          m1 = new_core fk None now d (m\<lparr>m_late := remove1 (r, d) (m_late m)\<rparr>);
          m2 = upd_rec r (\<lambda>q. q\<lparr>o_settled := True, o_session := Some i\<rparr>) m1;
          m3 = add_orphan r (m2\<lparr>m_watch := removeAll r (m_watch m2)\<rparr>)
      in m3\<lparr>m_reaping := m_reaping m3 @ [(r, i)]\<rparr>)"

definition lateTeardownDone :: "nat \<Rightarrow> nat \<Rightarrow> close_outcome \<Rightarrow> bool \<Rightarrow> manager \<Rightarrow> manager" where
  "lateTeardownDone r i close killOk m =
     (let m1 = m\<lparr>m_reaping := remove1 (r, i) (m_reaping m)\<rparr>
      in case snd (teardown close killOk (m_store m1 i)) of
           Some s \<Rightarrow> settleReapedOrphan r (confirmed_dead i s m1)
         | None \<Rightarrow> m1\<lparr>m_unconfirmed := set_add i (m_unconfirmed m1)\<rparr>)"

definition lateRejected :: "nat \<Rightarrow> nat option \<Rightarrow> manager \<Rightarrow> manager" where
  "lateRejected r d m =
     (let m1 = upd_rec r (\<lambda>q. q\<lparr>o_settled := True\<rparr>) (m\<lparr>m_late := remove1 (r, d) (m_late m)\<rparr>)
      in sweepOrphan r (if r \<in> set (m_watch m1) then m1 else add_orphan r m1))"

section \<open>Release, reconfirm, reap, shutdown\<close>

definition removeOwnedDir :: "nat \<Rightarrow> manager \<Rightarrow> manager" where
  "removeOwnedDir i m =
     (case map_of (m_ownedDirs m) i of
        None \<Rightarrow> m
      | Some d \<Rightarrow> m\<lparr>m_ownedDirs := alist_del i (m_ownedDirs m), m_removed := m_removed m @ [d]\<rparr>)"

definition beginTeardown :: "nat \<Rightarrow> manager \<Rightarrow> manager" where
  "beginTeardown i m =
     (if i \<in> set (m_closing m) then m
      else if i \<in> set (m_unconfirmed m) then m
      else m\<lparr>m_closing := m_closing m @ [i]\<rparr>)"

definition teardownDone :: "nat \<Rightarrow> close_outcome \<Rightarrow> bool \<Rightarrow> manager \<Rightarrow> manager" where
  "teardownDone i close killOk m =
     (case snd (teardown close killOk (m_store m i)) of
        Some s \<Rightarrow>
          removeOwnedDir i (confirmed_dead i s
            (m\<lparr>m_sessions := removeAll i (m_sessions m), m_closing := removeAll i (m_closing m)\<rparr>))
      | None \<Rightarrow>
          m\<lparr>m_unconfirmed := set_add i (m_unconfirmed m), m_closing := removeAll i (m_closing m)\<rparr>)"

definition release :: "nat \<Rightarrow> manager \<Rightarrow> manager" where
  "release i m = (if i \<in> set (m_sessions m) then beginTeardown i m else m)"

definition drainUnconfirmed :: "manager \<Rightarrow> manager" where
  "drainUnconfirmed m = m\<lparr>m_reconfirming := m_reconfirming m @ m_unconfirmed m\<rparr>"

definition reconfirmDone :: "nat \<Rightarrow> bool \<Rightarrow> manager \<Rightarrow> manager" where
  "reconfirmDone i killOk m =
     (let m1 = m\<lparr>m_reconfirming := remove1 i (m_reconfirming m)\<rparr>
      in case snd (reconfirm killOk (m_store m1 i)) of
           None \<Rightarrow> m1
         | Some s \<Rightarrow>
             (let m2 = removeOwnedDir i (confirmed_dead i s
                    (m1\<lparr>m_sessions := removeAll i (m_sessions m1), m_unconfirmed := removeAll i (m_unconfirmed m1)\<rparr>))
              in case find (\<lambda>r. o_session (m_recs m2 r) = Some i) (m_orphans m2) of
                   None \<Rightarrow> m2
                 | Some r \<Rightarrow> settleReapedOrphan r m2))"

definition stale :: "int \<Rightarrow> int \<Rightarrow> int \<Rightarrow> manager \<Rightarrow> nat \<Rightarrow> bool" where
  "stale ttlMs now maxInFlightMs m i \<longleftrightarrow>
     (let s = m_store m i
      in i \<notin> set (m_closing m) \<and> i \<notin> set (m_unconfirmed m) \<and>
         ((s_consumerId s \<noteq> None \<and> s_inFlight s = 0 \<and> now - s_lastActivityAt s > ttlMs) \<or>
          (s_inFlight s > 0 \<and> inFlightMs s now > maxInFlightMs)))"

definition reapIdle :: "int \<Rightarrow> int \<Rightarrow> int \<Rightarrow> manager \<Rightarrow> nat list \<times> manager" where
  \<comment> \<open>up to the first \<open>await\<close>; \<open>drainUnconfirmed\<close> and \<open>reapSweeps\<close> follow\<close>
  "reapIdle ttlMs now maxInFlightMs m =
     (let ids = filter (stale ttlMs now maxInFlightMs m) (m_sessions m)
      in (ids, fold release ids m))"

definition reapSweeps :: "manager \<Rightarrow> manager" where
  "reapSweeps m = (let m1 = enforceWatchCap 0 m in fold sweepOrphan (m_orphans m1 @ m_watch m1) m1)"

definition shutdownBegin :: "manager \<Rightarrow> manager" where
  "shutdownBegin m = m\<lparr>m_shuttingDown := True\<rparr>"

definition shutdownTeardowns :: "manager \<Rightarrow> manager" where
  "shutdownTeardowns m =
     fold beginTeardown
       (filter (\<lambda>i. i \<notin> set (m_closing m) \<and> i \<notin> set (m_unconfirmed m)) (m_sessions m)) m"

definition shutdownSweeps :: "manager \<Rightarrow> manager" where
  "shutdownSweeps m = fold sweepOrphan (m_orphans m @ m_watch m) m"

section \<open>Steps\<close>

datatype event =
    Acquire nat "string option" bool bool
  | DirMinted nat "nat option" bool
  | Launched nat bool int | LaunchRejected nat | LaunchDeadline nat
  | SelfTeardownDone nat close_outcome bool | SelfTeardownSettled nat | AcquireFinally nat
  | LateResolved nat bool int | LateTeardownDone nat nat close_outcome bool | LateRejected nat
  | SweepDone nat sweep_outcome | SweepFailed nat
  | Release nat | TeardownDone nat close_outcome bool
  | Drain | ReconfirmDone nat bool
  | Reap int int int | ReapSweeps
  | ShutdownBegin | ShutdownTeardowns | ShutdownSweeps
  | Use nat activity

inductive mstep :: "manager \<Rightarrow> event \<Rightarrow> manager \<Rightarrow> bool" where
  acquire: "l \<notin> fst ` set (m_launches m) \<Longrightarrow> mstep m (Acquire l c cd th) (snd (acquire l c cd th m))"
| minted: "map_of (m_launches m) l = Some la \<Longrightarrow> l_phase la = Minting \<Longrightarrow>
    (\<forall>x. d = Some x \<longrightarrow> x \<notin> set (m_minted m)) \<Longrightarrow> mstep m (DirMinted l d th) (dirMinted l d th la m)"
| launched: "map_of (m_launches m) l = Some la \<Longrightarrow> l_phase la = Racing \<Longrightarrow>
    mstep m (Launched l fk now) (launched l fk now la m)"
| rejected: "map_of (m_launches m) l = Some la \<Longrightarrow> l_phase la = Racing \<Longrightarrow>
    mstep m (LaunchRejected l) (launchFailed l la m)"
| deadline: "map_of (m_launches m) l = Some la \<Longrightarrow> l_phase la = Racing \<Longrightarrow>
    mstep m (LaunchDeadline l) (launchTimedOut l la m)"
| selfDone: "map_of (m_launches m) l = Some la \<Longrightarrow> l_phase la = SelfTeardown r i \<Longrightarrow>
    mstep m (SelfTeardownDone l cl ok) (selfTeardownDone l r i cl ok m)"
| selfSettled: "map_of (m_launches m) l = Some la \<Longrightarrow> l_phase la = Settling \<Longrightarrow>
    mstep m (SelfTeardownSettled l) (settle_launch l (Inl (SESSION_LIMIT, ShuttingDown)) m)"
| finally_: "map_of (m_launches m) l = Some la \<Longrightarrow> l_phase la = Settled res \<Longrightarrow>
    mstep m (AcquireFinally l) (acquireFinally l la m)"
| lateOk: "(r, d) \<in> set (m_late m) \<Longrightarrow> mstep m (LateResolved r fk now) (lateResolved r d fk now m)"
| lateDone: "(r, i) \<in> set (m_reaping m) \<Longrightarrow>
    mstep m (LateTeardownDone r i cl ok) (lateTeardownDone r i cl ok m)"
| lateBad: "(r, d) \<in> set (m_late m) \<Longrightarrow> mstep m (LateRejected r) (lateRejected r d m)"
| sweepDone: "r < m_nextRec m \<Longrightarrow> o_sweeping (m_recs m r) \<Longrightarrow> mstep m (SweepDone r out) (sweepDone r out m)"
| sweepFailed: "r < m_nextRec m \<Longrightarrow> o_sweeping (m_recs m r) \<Longrightarrow> mstep m (SweepFailed r) (sweepFailed r m)"
| release: "mstep m (Release i) (release i m)"
| tornDown: "i \<in> set (m_closing m) \<Longrightarrow> mstep m (TeardownDone i cl ok) (teardownDone i cl ok m)"
| drain: "mstep m Drain (drainUnconfirmed m)"
| reconfirmed: "i \<in> set (m_reconfirming m) \<Longrightarrow> mstep m (ReconfirmDone i ok) (reconfirmDone i ok m)"
| reap: "mstep m (Reap ttl now mx) (snd (reapIdle ttl now mx m))"
| sweeps: "mstep m ReapSweeps (reapSweeps m)"
| down: "mstep m ShutdownBegin (shutdownBegin m)"
| downTear: "m_shuttingDown m \<Longrightarrow> mstep m ShutdownTeardowns (shutdownTeardowns m)"
| downSweep: "m_shuttingDown m \<Longrightarrow> mstep m ShutdownSweeps (shutdownSweeps m)"
| use: "i < m_nextSession m \<Longrightarrow> mstep m (Use i a) (set_session i (act a (m_store m i)) m)"

definition fresh_manager :: "manager \<Rightarrow> bool" where
  "fresh_manager m \<longleftrightarrow> (\<exists>mx pc. m = new_SessionManager mx pc)"


section \<open>Execution\<close>

definition at_launch :: "nat \<Rightarrow> (phase \<Rightarrow> bool) \<Rightarrow> (launch \<Rightarrow> manager \<Rightarrow> manager) \<Rightarrow> manager \<Rightarrow> manager option" where
  "at_launch l P f m =
     (case map_of (m_launches m) l of
        Some la \<Rightarrow> if P (l_phase la) then Some (f la m) else None
      | None \<Rightarrow> None)"

fun is_settled :: "phase \<Rightarrow> bool" where
  "is_settled (Settled _) = True"
| "is_settled _ = False"

definition enabled :: "bool \<Rightarrow> manager \<Rightarrow> manager option" where
  "enabled b m = (if b then Some m else None)"

fun exec :: "event \<Rightarrow> manager \<Rightarrow> manager option" where
  "exec (Acquire l c cd th) m = enabled (l \<notin> fst ` set (m_launches m)) (snd (acquire l c cd th m))"
| "exec (DirMinted l d th) m =
     (if (case d of None \<Rightarrow> False | Some x \<Rightarrow> x \<in> set (m_minted m)) then None
      else at_launch l (\<lambda>p. p = Minting) (dirMinted l d th) m)"
| "exec (Launched l fk now) m = at_launch l (\<lambda>p. p = Racing) (launched l fk now) m"
| "exec (LaunchRejected l) m = at_launch l (\<lambda>p. p = Racing) (launchFailed l) m"
| "exec (LaunchDeadline l) m = at_launch l (\<lambda>p. p = Racing) (launchTimedOut l) m"
| "exec (SelfTeardownDone l cl ok) m =
     (case map_of (m_launches m) l of
        None \<Rightarrow> None
      | Some la \<Rightarrow> (case l_phase la of SelfTeardown r i \<Rightarrow> Some (selfTeardownDone l r i cl ok m) | _ \<Rightarrow> None))"
| "exec (SelfTeardownSettled l) m =
     at_launch l (\<lambda>p. p = Settling) (\<lambda>_. settle_launch l (Inl (SESSION_LIMIT, ShuttingDown))) m"
| "exec (AcquireFinally l) m = at_launch l is_settled (acquireFinally l) m"
| "exec (LateResolved r fk now) m =
     (case map_of (m_late m) r of None \<Rightarrow> None | Some d \<Rightarrow> Some (lateResolved r d fk now m))"
| "exec (LateTeardownDone r i cl ok) m = enabled ((r, i) \<in> set (m_reaping m)) (lateTeardownDone r i cl ok m)"
| "exec (LateRejected r) m =
     (case map_of (m_late m) r of None \<Rightarrow> None | Some d \<Rightarrow> Some (lateRejected r d m))"
| "exec (SweepDone r out) m = enabled (r < m_nextRec m \<and> o_sweeping (m_recs m r)) (sweepDone r out m)"
| "exec (SweepFailed r) m = enabled (r < m_nextRec m \<and> o_sweeping (m_recs m r)) (sweepFailed r m)"
| "exec (Release i) m = Some (release i m)"
| "exec (TeardownDone i cl ok) m = enabled (i \<in> set (m_closing m)) (teardownDone i cl ok m)"
| "exec Drain m = Some (drainUnconfirmed m)"
| "exec (ReconfirmDone i ok) m = enabled (i \<in> set (m_reconfirming m)) (reconfirmDone i ok m)"
| "exec (Reap ttl now mx) m = Some (snd (reapIdle ttl now mx m))"
| "exec ReapSweeps m = Some (reapSweeps m)"
| "exec ShutdownBegin m = Some (shutdownBegin m)"
| "exec ShutdownTeardowns m = enabled (m_shuttingDown m) (shutdownTeardowns m)"
| "exec ShutdownSweeps m = enabled (m_shuttingDown m) (shutdownSweeps m)"
| "exec (Use i a) m = enabled (i < m_nextSession m) (set_session i (act a (m_store m i)) m)"

lemma at_launch_Some:
  "at_launch l P f m = Some m' \<longleftrightarrow> (\<exists>la. map_of (m_launches m) l = Some la \<and> P (l_phase la) \<and> m' = f la m)"
  by (auto simp: at_launch_def split: option.splits)

lemma is_settled_iff: "is_settled p \<longleftrightarrow> (\<exists>res. p = Settled res)"
  by (cases p) auto

lemma exec_sound: "exec e m = Some m' \<Longrightarrow> mstep m e m'"
  by (cases e)
    (auto simp: at_launch_Some enabled_def is_settled_iff split: if_splits option.splits phase.splits
      intro: mstep.intros dest: map_of_SomeD)

lemma fresh_new [simp]: "fresh_manager (new_SessionManager mx pc)"
  unfolding fresh_manager_def by blast

lemma run_exec_reachable:
  "run exec es (new_SessionManager mx pc) = Some m \<Longrightarrow> reachable fresh_manager mstep m"
  by (rule run_reachable [of exec mstep, OF exec_sound]) (auto intro: reachable.start)

end
