(* ===== verification/Session_Accounting.thy ===== *)
theory Session_Accounting
  imports Session_Manager
begin

text \<open>
  The manager never loses sight of a browser: every live core belongs to a registered session or to an
  orphan record that is counted. The orphan operations change the ledgers only, and are described by
  one relation (\<open>quiet\<close>): they keep the owner of every live core where it was. The invariant is carried
  through every step of the manager and interpreted as an \<open>inductive_invariant\<close>.
\<close>

section \<open>What the orphan operations leave alone\<close>

definition ledgers_only :: "manager \<Rightarrow> manager \<Rightarrow> bool" where
  "ledgers_only m m' \<longleftrightarrow>
     (\<exists>recs orphans watch removed.
        m' = m\<lparr>m_recs := recs, m_orphans := orphans, m_watch := watch, m_removed := removed\<rparr>)"

lemma ledgers_onlyD:
  assumes "ledgers_only m m'"
  shows "m_maxSessions m' = m_maxSessions m" "m_perConsumerMax m' = m_perConsumerMax m"
    "m_sessions m' = m_sessions m" "m_store m' = m_store m" "m_nextSession m' = m_nextSession m"
    "m_reserved m' = m_reserved m" "m_reservedByConsumer m' = m_reservedByConsumer m"
    "m_closing m' = m_closing m" "m_unconfirmed m' = m_unconfirmed m" "m_launches m' = m_launches m"
    "m_shuttingDown m' = m_shuttingDown m" "m_ownedDirs m' = m_ownedDirs m" "m_nextRec m' = m_nextRec m"
    "m_late m' = m_late m" "m_reaping m' = m_reaping m" "m_reconfirming m' = m_reconfirming m"
    "m_alive m' = m_alive m" "m_profile m' = m_profile m" "m_minted m' = m_minted m"
  using assms by (auto simp: ledgers_only_def)

lemma ledgers_only_refl [simp]: "ledgers_only m m"
  unfolding ledgers_only_def
  by (rule exI [of _ "m_recs m"], rule exI [of _ "m_orphans m"], rule exI [of _ "m_watch m"],
      rule exI [of _ "m_removed m"]) simp

lemma ledgers_only_trans: "ledgers_only a b \<Longrightarrow> ledgers_only b c \<Longrightarrow> ledgers_only a c"
  by (force simp: ledgers_only_def)

lemma ledgers_only_updates [simp]:
  "ledgers_only m (upd_rec r f m)" "ledgers_only m (add_orphan r m)" "ledgers_only m (m\<lparr>m_orphans := xs\<rparr>)"
  "ledgers_only m (m\<lparr>m_watch := xs\<rparr>)" "ledgers_only m (m\<lparr>m_orphans := xs, m_watch := ys\<rparr>)"
  "ledgers_only m (m\<lparr>m_removed := zs\<rparr>)"
  by (rule ledgers_only_trans [OF ledgers_only_refl], force simp: ledgers_only_def upd_rec_def add_orphan_def
      intro: manager.equality)+

section \<open>Quiet changes of the ledgers\<close>

definition owner_dead :: "manager \<Rightarrow> nat \<Rightarrow> bool" where
  "owner_dead m r \<longleftrightarrow> (\<forall>i. o_session (m_recs m r) = Some i \<longrightarrow> i \<notin> set (m_alive m))"

definition quiet :: "manager \<Rightarrow> manager \<Rightarrow> bool" where
  "quiet m m' \<longleftrightarrow>
     ledgers_only m m' \<and>
     (\<forall>r. \<not> owner_dead m r \<longrightarrow> o_session (m_recs m' r) = o_session (m_recs m r) \<and>
        (r \<in> set (m_orphans m) \<longrightarrow> r \<in> set (m_orphans m'))) \<and>
     (\<forall>r. o_session (m_recs m' r) = o_session (m_recs m r) \<or> o_session (m_recs m' r) = None) \<and>
     (\<forall>r. o_settled (m_recs m' r) = o_settled (m_recs m r)) \<and>
     (\<forall>r. o_settleAfterSweep (m_recs m' r) \<longrightarrow>
        o_settleAfterSweep (m_recs m r) \<or> r \<notin> fst ` set (m_late m) \<and> owner_dead m r)"

lemma quiet_refl [simp]: "quiet m m"
  by (simp add: quiet_def)

lemma quiet_owner_dead: "quiet m m' \<Longrightarrow> owner_dead m r \<Longrightarrow> owner_dead m' r"
  by (auto simp: quiet_def owner_dead_def dest!: ledgers_onlyD(17)) (metis option.distinct(1))

lemma quiet_trans:
  assumes "quiet a b" "quiet b c"
  shows "quiet a c"
proof -
  have live: "\<not> owner_dead a r \<Longrightarrow> \<not> owner_dead b r" for r
    using assms(1) by (auto simp: quiet_def owner_dead_def dest: ledgers_onlyD(17))
  have dead: "owner_dead b r \<Longrightarrow> owner_dead a r" for r using live by blast
  have late: "m_late b = m_late a" using assms(1) by (simp add: quiet_def ledgers_onlyD)
  show ?thesis
    using assms live dead late ledgers_only_trans [of a b c]
    unfolding quiet_def by (metis (no_types, lifting))
qed

lemma upd_rec_sel [simp]:
  "m_recs (upd_rec r f m) = (m_recs m)(r := f (m_recs m r))"
  "m_orphans (upd_rec r f m) = m_orphans m" "m_watch (upd_rec r f m) = m_watch m"
  "m_late (upd_rec r f m) = m_late m" "m_alive (upd_rec r f m) = m_alive m"
  "m_removed (upd_rec r f m) = m_removed m" "m_nextRec (upd_rec r f m) = m_nextRec m"
  by (simp_all add: upd_rec_def)

lemma add_orphan_sel [simp]:
  "m_recs (add_orphan r m) = m_recs m" "set (m_orphans (add_orphan r m)) = insert r (set (m_orphans m))"
  "m_watch (add_orphan r m) = m_watch m" "m_late (add_orphan r m) = m_late m"
  "m_alive (add_orphan r m) = m_alive m" "m_removed (add_orphan r m) = m_removed m"
  "m_nextRec (add_orphan r m) = m_nextRec m"
  by (simp_all add: add_orphan_def)

lemma quiet_upd_rec:
  assumes "\<And>q. o_session (f q) = o_session q" "\<And>q. o_settled (f q) = o_settled q"
    and "\<And>q. o_settleAfterSweep (f q) \<Longrightarrow> o_settleAfterSweep q"
  shows "quiet m (upd_rec r f m)"
  using assms by (simp add: quiet_def)

lemma quiet_defer:
  assumes "owner_dead m r" "r \<notin> fst ` set (m_late m)"
  shows "quiet m (upd_rec r (\<lambda>q. q\<lparr>o_settleAfterSweep := True\<rparr>) m)"
  using assms by (simp add: quiet_def)

lemma quiet_disown: "owner_dead m r \<Longrightarrow> quiet m (upd_rec r (\<lambda>q. q\<lparr>o_session := None\<rparr>) m)"
  by (simp add: quiet_def)

lemma quiet_add_orphan [simp]: "quiet m (add_orphan r m)"
  by (simp add: quiet_def)

lemma quiet_watch [simp]: "quiet m (m\<lparr>m_watch := xs\<rparr>)"
  by (simp add: quiet_def)

lemma quiet_removed [simp]: "quiet m (m\<lparr>m_removed := xs\<rparr>)"
  by (simp add: quiet_def)

lemma quiet_drop: "owner_dead m r \<Longrightarrow> quiet m (m\<lparr>m_orphans := removeAll r (m_orphans m)\<rparr>)"
  by (auto simp: quiet_def)

lemma quiet_drop2:
  "owner_dead m r \<Longrightarrow> quiet m (m\<lparr>m_orphans := removeAll r (m_orphans m), m_watch := xs\<rparr>)"
  by (auto simp: quiet_def)

lemma owner_dead_None: "o_session (m_recs m r) = None \<Longrightarrow> owner_dead m r"
  by (simp add: owner_dead_def)

section \<open>The orphan operations are quiet\<close>

lemma quiet_finalize: "owner_dead m r \<Longrightarrow> quiet m (finalizeOrphan r m)"
proof -
  assume d: "owner_dead m r"
  let ?m1 = "m\<lparr>m_orphans := removeAll r (m_orphans m), m_watch := removeAll r (m_watch m)\<rparr>"
  have q: "quiet m ?m1" using d by (rule quiet_drop2)
  show ?thesis
  proof (cases "o_dir (m_recs m r)")
    case None
    then show ?thesis using q by (simp add: finalizeOrphan_def Let_def)
  next
    case (Some x)
    have "quiet ?m1 (?m1\<lparr>m_removed := m_removed m @ [x]\<rparr>)" by (rule quiet_removed)
    moreover have "quiet (?m1\<lparr>m_removed := m_removed m @ [x]\<rparr>)
        (upd_rec r (\<lambda>q. q\<lparr>o_dir := None\<rparr>) (?m1\<lparr>m_removed := m_removed m @ [x]\<rparr>))"
      by (rule quiet_upd_rec) simp_all
    ultimately show ?thesis
      using q Some by (simp only: finalizeOrphan_def Let_def option.case) (blast intro: quiet_trans)
  qed
qed

lemma quiet_sweep: "quiet m (sweepOrphan r m)"
  by (auto simp: sweepOrphan_def intro: quiet_drop2 owner_dead_None quiet_upd_rec)

lemma quiet_fold_sweep: "quiet m (fold sweepOrphan rs m)"
  by (induction rs arbitrary: m) (auto intro: quiet_trans quiet_sweep)

lemma quiet_enqueue: "quiet m (enqueueOrphan r m)"
  unfolding enqueueOrphan_def by (rule quiet_trans [OF quiet_add_orphan quiet_sweep])

lemma quiet_settle:
  assumes "owner_dead m r" "r \<notin> fst ` set (m_late m)"
  shows "quiet m (settleReapedOrphan r m)"
  unfolding settleReapedOrphan_def
  using quiet_trans [OF quiet_defer [OF assms] quiet_add_orphan]
    quiet_trans [OF quiet_disown [OF assms(1)] quiet_trans [OF quiet_add_orphan quiet_sweep]]
    quiet_finalize [OF assms(1)]
  by auto

lemma quiet_cap [simp]: "quiet m (enforceWatchCap n m)"
  by (simp add: enforceWatchCap_def)

lemma quiet_watchLaunch [simp]: "quiet m (watchLaunch r m)"
  unfolding watchLaunch_def Let_def by (rule quiet_trans [OF quiet_cap quiet_watch])

lemma quiet_reapSweeps: "quiet m (reapSweeps m)"
  unfolding reapSweeps_def Let_def by (rule quiet_trans [OF quiet_cap quiet_fold_sweep])

text \<open>The verdict of a sweep; a deferred settlement belongs to a dead owner whose launch is over.\<close>

definition deferred_ok :: "manager \<Rightarrow> bool" where
  "deferred_ok m \<longleftrightarrow>
     (\<forall>r. o_settleAfterSweep (m_recs m r) \<longrightarrow> owner_dead m r \<and> r \<notin> fst ` set (m_late m))"

lemma quiet_resume:
  assumes "deferred_ok m" "quiet m m1" "o_settleAfterSweep (m_recs m r)"
  shows "quiet m (settleReapedOrphan r (upd_rec r (\<lambda>q. q\<lparr>o_settleAfterSweep := False\<rparr>) m1))"
proof -
  let ?m2 = "upd_rec r (\<lambda>q. q\<lparr>o_settleAfterSweep := False\<rparr>) m1"
  have q: "quiet m ?m2"
    using assms(2) by (rule quiet_trans) (rule quiet_upd_rec, simp_all)
  moreover have "owner_dead ?m2 r" using assms(1,3) q by (auto simp: deferred_ok_def intro: quiet_owner_dead)
  moreover have "r \<notin> fst ` set (m_late ?m2)"
    using assms ledgers_onlyD(14) [of m m1] by (auto simp: deferred_ok_def quiet_def)
  ultimately show ?thesis by (blast intro: quiet_trans quiet_settle)
qed

lemma quiet_sweepDone:
  assumes "deferred_ok m"
  shows "quiet m (sweepDone r out m)"
proof -
  define st where "st = (case out of SweepUnconfirmed x \<Rightarrow> Some x | _ \<Rightarrow> None)"
  define m1 where "m1 = upd_rec r (\<lambda>q. q\<lparr>o_sweeping := False, o_stamps := st\<rparr>) m"
  have q: "quiet m m1" unfolding m1_def by (rule quiet_upd_rec) simp_all
  have same: "o_settleAfterSweep (m_recs m1 r) = o_settleAfterSweep (m_recs m r)"
    by (simp add: m1_def)
  show ?thesis
  proof (cases "o_settleAfterSweep (m_recs m r)")
    case True
    then show ?thesis
      using quiet_resume [OF assms q True] same by (simp add: sweepDone_def Let_def flip: st_def m1_def)
  next
    case False
    have "o_session (m_recs m r) = None \<Longrightarrow> owner_dead m1 r"
      by (rule owner_dead_None) (simp add: m1_def)
    then have "quiet m1 (sweepDone r out m)"
      using False same
      by (auto simp: sweepDone_def Let_def quiet_finalize quiet_drop2 simp flip: st_def m1_def
          split: sweep_outcome.splits intro: quiet_trans [OF quiet_drop quiet_watchLaunch]
          quiet_trans [OF quiet_watch quiet_add_orphan])
    then show ?thesis using q quiet_trans by blast
  qed
qed

lemma quiet_sweepFailed:
  assumes "deferred_ok m"
  shows "quiet m (sweepFailed r m)"
proof -
  define m1 where "m1 = upd_rec r (\<lambda>q. q\<lparr>o_sweeping := False\<rparr>) m"
  have q: "quiet m m1" unfolding m1_def by (rule quiet_upd_rec) simp_all
  have same: "o_settleAfterSweep (m_recs m1 r) = o_settleAfterSweep (m_recs m r)"
    by (simp add: m1_def)
  have "quiet m (add_orphan r (m1\<lparr>m_watch := removeAll r (m_watch m1)\<rparr>))"
    using q by (blast intro: quiet_trans quiet_watch quiet_add_orphan)
  then show ?thesis
    using quiet_resume [OF assms q] q same by (auto simp: sweepFailed_def Let_def simp flip: m1_def)
qed

section \<open>The invariant\<close>

definition accounted :: "manager \<Rightarrow> bool" where
  "accounted m \<longleftrightarrow>
     (\<forall>i \<in> set (m_alive m). i \<in> set (m_sessions m) \<or>
        (\<exists>r \<in> set (m_orphans m). o_session (m_recs m r) = Some i))"

definition allocated :: "manager \<Rightarrow> bool" where
  "allocated m \<longleftrightarrow>
     (\<forall>i \<in> set (m_alive m). i < m_nextSession m \<and> s_state (m_store m i) = OpenState) \<and>
     (\<forall>r i. o_session (m_recs m r) = Some i \<longrightarrow> i < m_nextSession m \<and> r < m_nextRec m) \<and>
     (\<forall>i \<in> set (m_sessions m). i < m_nextSession m) \<and>
     distinct (map fst (m_launches m))"

abbreviation lates :: "manager \<Rightarrow> nat set" where
  "lates m \<equiv> fst ` set (m_late m)"

abbreviation reapings :: "manager \<Rightarrow> nat set" where
  "reapings m \<equiv> fst ` set (m_reaping m)"

definition selfs :: "manager \<Rightarrow> (nat \<times> nat) set" where
  "selfs m = {(r, i). \<exists>la \<in> snd ` set (m_launches m). l_phase la = SelfTeardown r i}"

definition late_ok :: "manager \<Rightarrow> bool" where
  "late_ok m \<longleftrightarrow>
     distinct (map fst (m_late m)) \<and> lates m \<inter> reapings m = {} \<and>
     (\<forall>r \<in> lates m. r < m_nextRec m \<and> o_session (m_recs m r) = None \<and> \<not> o_settled (m_recs m r))"

definition owned_by :: "manager \<Rightarrow> nat \<Rightarrow> nat \<Rightarrow> bool" where
  \<comment> \<open>record \<open>r\<close> still has session \<open>i\<close>, or its settlement took it away\<close>
  "owned_by m r i \<longleftrightarrow> r < m_nextRec m \<and> i < m_nextSession m \<and>
     (o_session (m_recs m r) = None \<or> o_session (m_recs m r) = Some i)"

definition reaping_ok :: "manager \<Rightarrow> bool" where
  "reaping_ok m \<longleftrightarrow> (\<forall>r i. (r, i) \<in> set (m_reaping m) \<longrightarrow> owned_by m r i)"

definition self_ok :: "manager \<Rightarrow> bool" where
  "self_ok m \<longleftrightarrow> (\<forall>r i. (r, i) \<in> selfs m \<longrightarrow> owned_by m r i \<and> r \<notin> lates m \<and> r \<notin> reapings m)"

definition acc_inv :: "manager \<Rightarrow> bool" where
  "acc_inv m \<longleftrightarrow>
     accounted m \<and> allocated m \<and> late_ok m \<and> reaping_ok m \<and> self_ok m \<and> deferred_ok m"

lemma acc_quiet:
  assumes "acc_inv m" "quiet m m'"
  shows "acc_inv m'"
proof -
  have l: "ledgers_only m m'" and sess: "\<And>r. o_session (m_recs m' r) = o_session (m_recs m r) \<or> o_session (m_recs m' r) = None"
    and settled: "\<And>r. o_settled (m_recs m' r) = o_settled (m_recs m r)"
    using assms(2) by (auto simp: quiet_def)
  note eqs = ledgers_onlyD [OF l]
  have selfs: "selfs m' = selfs m" by (simp add: selfs_def eqs)
  have "accounted m'"
    unfolding accounted_def
  proof
    fix i assume i: "i \<in> set (m_alive m')"
    then have "i \<in> set (m_sessions m) \<or> (\<exists>r \<in> set (m_orphans m). o_session (m_recs m r) = Some i)"
      using assms(1) eqs by (simp add: acc_inv_def accounted_def)
    then show "i \<in> set (m_sessions m') \<or> (\<exists>r \<in> set (m_orphans m'). o_session (m_recs m' r) = Some i)"
    proof
      assume "\<exists>r \<in> set (m_orphans m). o_session (m_recs m r) = Some i"
      then obtain r where r: "r \<in> set (m_orphans m)" "o_session (m_recs m r) = Some i" by blast
      then have "\<not> owner_dead m r" using i eqs by (auto simp: owner_dead_def)
      then show ?thesis using assms(2) r unfolding quiet_def by metis
    qed (simp add: eqs)
  qed
  moreover have "allocated m'"
    using assms(1) sess unfolding acc_inv_def allocated_def eqs by (metis option.distinct(1))
  moreover have own: "owned_by m r i \<Longrightarrow> owned_by m' r i" for r i
    using sess [of r] by (auto simp: owned_by_def eqs)
  moreover have "late_ok m'"
    using assms(1) sess settled unfolding acc_inv_def late_ok_def eqs by metis
  moreover have "reaping_ok m'" "self_ok m'"
    using assms(1) own unfolding acc_inv_def reaping_ok_def self_ok_def eqs selfs by blast+
  moreover have "deferred_ok m'"
    using assms quiet_owner_dead [OF assms(2)]
    unfolding acc_inv_def deferred_ok_def eqs quiet_def by blast
  ultimately show ?thesis by (simp add: acc_inv_def)
qed

text \<open>Changes that start nothing new: fewer browsers live, fewer promises are in flight.\<close>

lemma disjoint_shrink: "A \<inter> B = {} \<Longrightarrow> A' \<subseteq> A \<Longrightarrow> B' \<subseteq> B \<Longrightarrow> A' \<inter> B' = {}"
  by blast

lemma subset_ball: "A \<subseteq> B \<Longrightarrow> \<forall>x \<in> B. P x \<Longrightarrow> \<forall>x \<in> A. P x"
  by blast

lemma acc_shrink:
  assumes "acc_inv m"
    and "set (m_alive m') \<subseteq> set (m_alive m)" "set (m_sessions m') \<subseteq> set (m_sessions m)"
    and "\<forall>i \<in> set (m_alive m'). (i \<in> set (m_sessions m) \<longrightarrow> i \<in> set (m_sessions m')) \<and>
      s_state (m_store m' i) = s_state (m_store m i)"
    and "m_recs m' = m_recs m" "m_orphans m' = m_orphans m"
    and "m_nextRec m' = m_nextRec m" "m_nextSession m' = m_nextSession m"
    and "lates m' \<subseteq> lates m" "distinct (map fst (m_late m'))"
    and "set (m_reaping m') \<subseteq> set (m_reaping m)" "selfs m' \<subseteq> selfs m"
    and "distinct (map fst (m_launches m'))"
  shows "acc_inv m'"
proof -
  have own: "owned_by m' r i = owned_by m r i" for r i
    by (simp add: owned_by_def assms(5,7,8))
  have reap: "reapings m' \<subseteq> reapings m" using assms(11) by blast
  have "accounted m'"
    using assms(1-4) unfolding acc_inv_def accounted_def assms(5,6) by blast
  moreover have "allocated m'"
    using assms(1-4,13) unfolding acc_inv_def allocated_def assms(5,7,8) by (metis subsetD)
  moreover have "late_ok m'"
  proof -
    have l: "lates m \<inter> reapings m = {}" "\<forall>r \<in> lates m. r < m_nextRec m \<and>
        o_session (m_recs m r) = None \<and> \<not> o_settled (m_recs m r)"
      using assms(1) unfolding acc_inv_def late_ok_def by - (elim conjE, assumption)+
    show ?thesis
      unfolding late_ok_def assms(5,7)
      using assms(10) disjoint_shrink [OF l(1) assms(9) reap] subset_ball [OF assms(9) l(2)] by (intro conjI)
  qed
  moreover have "reaping_ok m'"
    using assms(1,11) unfolding acc_inv_def reaping_ok_def own by blast
  moreover have "self_ok m'"
    using assms(1) subsetD [OF assms(12)] contra_subsetD [OF assms(9)] contra_subsetD [OF reap]
    unfolding acc_inv_def self_ok_def own by (metis (mono_tags, lifting))
  moreover have "deferred_ok m'"
    using assms(1) subsetD [OF assms(2)] contra_subsetD [OF assms(9)]
    unfolding acc_inv_def deferred_ok_def owner_dead_def assms(5) by metis
  ultimately show ?thesis by (simp add: acc_inv_def)
qed

section \<open>The launches\<close>

lemma upd_launch_sel [simp]:
  "m_recs (upd_launch l f m) = m_recs m" "m_orphans (upd_launch l f m) = m_orphans m"
  "m_late (upd_launch l f m) = m_late m" "m_alive (upd_launch l f m) = m_alive m"
  "m_sessions (upd_launch l f m) = m_sessions m" "m_store (upd_launch l f m) = m_store m"
  "m_nextSession (upd_launch l f m) = m_nextSession m" "m_nextRec (upd_launch l f m) = m_nextRec m"
  "m_reaping (upd_launch l f m) = m_reaping m" "m_reserved (upd_launch l f m) = m_reserved m"
  "m_reservedByConsumer (upd_launch l f m) = m_reservedByConsumer m"
  "m_maxSessions (upd_launch l f m) = m_maxSessions m" "m_watch (upd_launch l f m) = m_watch m"
  "m_perConsumerMax (upd_launch l f m) = m_perConsumerMax m" "m_ownedDirs (upd_launch l f m) = m_ownedDirs m"
  "m_removed (upd_launch l f m) = m_removed m" "m_minted (upd_launch l f m) = m_minted m"
  "m_profile (upd_launch l f m) = m_profile m" "m_shuttingDown (upd_launch l f m) = m_shuttingDown m"
  "m_closing (upd_launch l f m) = m_closing m" "m_unconfirmed (upd_launch l f m) = m_unconfirmed m"
  "map fst (m_launches (upd_launch l f m)) = map fst (m_launches m)"
  by (auto simp: upd_launch_def)

lemma upd_launch_launches:
  "m_launches (upd_launch l f m) = map (\<lambda>(k, la). (k, if k = l then f la else la)) (m_launches m)"
  by (simp add: upd_launch_def)

lemma upd_launch_inv:
  "allocated (upd_launch l f m) = allocated m" "accounted (upd_launch l f m) = accounted m"
  "late_ok (upd_launch l f m) = late_ok m" "reaping_ok (upd_launch l f m) = reaping_ok m"
  "deferred_ok (upd_launch l f m) = deferred_ok m"
  by (simp_all only: allocated_def accounted_def late_ok_def reaping_ok_def owned_by_def deferred_ok_def
      owner_dead_def upd_launch_sel)

lemma selfs_upd_launch:
  "selfs (upd_launch l f m) \<subseteq> selfs m \<union> {(r, i). \<exists>la. l_phase (f la) = SelfTeardown r i}"
  by (auto simp: selfs_def upd_launch_launches split: if_splits)

lemma acc_upd_launch:
  assumes "acc_inv m" "\<And>la r i. l_phase (f la) \<noteq> SelfTeardown r i"
  shows "acc_inv (upd_launch l f m)"
proof (rule acc_shrink [OF assms(1)])
  show "selfs (upd_launch l f m) \<subseteq> selfs m" using selfs_upd_launch [of l f m] assms(2) by auto
  show "distinct (map fst (m_late (upd_launch l f m)))" "distinct (map fst (m_launches (upd_launch l f m)))"
    using assms(1) by (simp_all only: upd_launch_sel acc_inv_def late_ok_def allocated_def)
qed simp_all

lemma acc_settle_launch: "acc_inv m \<Longrightarrow> acc_inv (settle_launch l res m)"
  unfolding settle_launch_def by (rule acc_upd_launch) simp_all

lemma acc_new_rec:
  assumes "acc_inv m" "o_session rec = None" "\<not> o_settleAfterSweep rec"
  shows "acc_inv (new_rec rec m)"
proof -
  let ?m' = "new_rec rec m"
  have [simp]: "m_recs ?m' = (m_recs m)(m_nextRec m := rec)" "m_nextRec ?m' = m_nextRec m + 1"
    "m_alive ?m' = m_alive m" "m_sessions ?m' = m_sessions m" "m_orphans ?m' = m_orphans m"
    "m_late ?m' = m_late m" "m_reaping ?m' = m_reaping m" "selfs ?m' = selfs m"
    "m_nextSession ?m' = m_nextSession m" "m_store ?m' = m_store m" "m_launches ?m' = m_launches m"
    by (simp_all add: new_rec_def selfs_def)
  have own: "owned_by m r i \<Longrightarrow> owned_by ?m' r i" for r i
    by (simp add: owned_by_def)
  have other: "o_session (m_recs m r) = Some i \<Longrightarrow> m_recs ?m' r = m_recs m r" for r i
    using assms(1) by (auto simp: acc_inv_def allocated_def)
  have "accounted ?m'"
    unfolding accounted_def
  proof
    fix i assume "i \<in> set (m_alive ?m')"
    then have "i \<in> set (m_sessions m) \<or> (\<exists>r \<in> set (m_orphans m). o_session (m_recs m r) = Some i)"
      using assms(1) by (simp add: acc_inv_def accounted_def)
    then show "i \<in> set (m_sessions ?m') \<or> (\<exists>r \<in> set (m_orphans ?m'). o_session (m_recs ?m' r) = Some i)"
      using other by (metis \<open>m_sessions ?m' = m_sessions m\<close> \<open>m_orphans ?m' = m_orphans m\<close>)
  qed
  moreover have "allocated ?m'" using assms(1,2) by (auto simp: acc_inv_def allocated_def less_Suc_eq)
  moreover have "late_ok ?m'" using assms(1) by (force simp: acc_inv_def late_ok_def)
  moreover have "reaping_ok ?m'" "self_ok ?m'"
    using assms(1) own by (auto simp: acc_inv_def reaping_ok_def self_ok_def)
  moreover have "deferred_ok ?m'" using assms(1,3) by (simp add: acc_inv_def deferred_ok_def owner_dead_def)
  ultimately show ?thesis by (simp add: acc_inv_def)
qed

lemma ledger_of_sweep:
  "o_session (m_recs (sweepOrphan r m) q) = o_session (m_recs m q)"
  "o_settled (m_recs (sweepOrphan r m) q) = o_settled (m_recs m q)"
  "o_settleAfterSweep (m_recs (sweepOrphan r m) q) = o_settleAfterSweep (m_recs m q)"
  "m_late (sweepOrphan r m) = m_late m" "m_reaping (sweepOrphan r m) = m_reaping m"
  "m_launches (sweepOrphan r m) = m_launches m" "m_nextRec (sweepOrphan r m) = m_nextRec m"
  by (auto simp: sweepOrphan_def upd_rec_def)

lemma acc_launchFailed: "acc_inv m \<Longrightarrow> acc_inv (launchFailed l la m)"
  unfolding launchFailed_def
  by (auto intro!: acc_settle_launch acc_quiet [OF _ quiet_enqueue] acc_new_rec
      simp: orphan_of_launch_def blank_orphan_def)

lemma acc_call_factory: "acc_inv m \<Longrightarrow> acc_inv (call_factory l th la m)"
  by (auto simp: call_factory_def intro: acc_launchFailed acc_upd_launch)

lemma selfs_append_minting [simp]:
  "l_phase la = Minting \<Longrightarrow> selfs (m\<lparr>m_launches := m_launches m @ [(l, la)]\<rparr>) = selfs m"
  by (auto simp: selfs_def)

lemma acc_simple:
  assumes "acc_inv m" "m_recs m' = m_recs m" "m_orphans m' = m_orphans m" "m_alive m' = m_alive m"
    "m_sessions m' = m_sessions m" "m_store m' = m_store m" "m_nextRec m' = m_nextRec m"
    "m_nextSession m' = m_nextSession m" "m_late m' = m_late m" "m_reaping m' = m_reaping m"
    "selfs m' \<subseteq> selfs m" "distinct (map fst (m_launches m'))"
  shows "acc_inv m'"
proof (rule acc_shrink [OF assms(1)])
  show "distinct (map fst (m_late m'))" using assms(1,9) by (simp only: acc_inv_def late_ok_def)
qed (use assms(2-12) in simp_all)

lemma launches_distinct: "acc_inv m \<Longrightarrow> distinct (map fst (m_launches m))"
  by (simp add: acc_inv_def allocated_def)

lemma acc_acquire:
  assumes "acc_inv m" "l \<notin> fst ` set (m_launches m)"
  shows "acc_inv (snd (acquire l c cd th m))"
proof -
  have "acc_inv (m\<lparr>m_reserved := x, m_reservedByConsumer := y,
      m_launches := m_launches m @ [(l, \<lparr>l_consumerId = z, l_dir = None, l_phase = Minting\<rparr>)]\<rparr>)" for x y z
    by (rule acc_simple [OF assms(1)])
      (use launches_distinct [OF assms(1)] assms(2) in \<open>auto simp: selfs_def\<close>)
  then show ?thesis
    using assms(1) unfolding acquire_def Let_def
    by (simp only: snd_conv split: if_split) (simp only: acc_call_factory simp_thms)
qed

lemma acc_dirMinted:
  assumes "acc_inv m" "l_phase la = Minting"
  shows "acc_inv (dirMinted l d th la m)"
  unfolding dirMinted_def Let_def
  by (intro acc_call_factory acc_upd_launch, rule acc_simple [OF assms(1)])
    (use assms(2) launches_distinct [OF assms(1)] in \<open>simp_all add: selfs_def\<close>)

lemma acc_launchTimedOut:
  assumes "acc_inv m"
  shows "acc_inv (launchTimedOut l la m)"
proof -
  let ?r = "m_nextRec m"
  let ?rec = "orphan_of_launch la False"
  let ?m1 = "enqueueOrphan ?r (new_rec ?rec m)"
  have m1: "acc_inv ?m1"
    by (intro acc_quiet [OF _ quiet_enqueue] acc_new_rec assms) (simp_all add: orphan_of_launch_def blank_orphan_def)
  have sel: "o_session (m_recs ?m1 ?r) = None" "\<not> o_settled (m_recs ?m1 ?r)"
    "\<not> o_settleAfterSweep (m_recs ?m1 ?r)" "m_late ?m1 = m_late m" "m_reaping ?m1 = m_reaping m"
    "m_launches ?m1 = m_launches m" "m_nextRec ?m1 = ?r + 1"
    by (simp_all add: enqueueOrphan_def ledger_of_sweep, simp_all add: new_rec_def add_orphan_def
        orphan_of_launch_def blank_orphan_def)
  have fresh: "?r \<notin> lates m" "?r \<notin> reapings m" "\<And>i. (?r, i) \<notin> selfs m"
    using assms unfolding acc_inv_def late_ok_def reaping_ok_def self_ok_def owned_by_def
    by (blast, metis (no_types, lifting) imageE less_irrefl prod.collapse, blast)
  let ?m2 = "?m1\<lparr>m_late := m_late ?m1 @ [(?r, l_dir la)]\<rparr>"
  have own: "owned_by ?m2 q i = owned_by ?m1 q i" for q i by (simp add: owned_by_def)
  have selfs: "selfs ?m2 = selfs m" "selfs ?m1 = selfs m" by (simp_all add: selfs_def sel)
  have "accounted ?m2" "allocated ?m2"
    using m1 by (simp_all add: acc_inv_def accounted_def allocated_def)
  moreover have "late_ok ?m2"
    using m1 sel fresh by (auto simp: acc_inv_def late_ok_def)
  moreover have "reaping_ok ?m2"
    using m1 by (simp add: acc_inv_def reaping_ok_def own)
  moreover have "self_ok ?m2"
    using m1 fresh sel unfolding acc_inv_def self_ok_def own selfs by auto
  moreover have "deferred_ok ?m2"
    using m1 sel by (auto simp: acc_inv_def deferred_ok_def owner_dead_def)
  ultimately have "acc_inv ?m2" by (simp add: acc_inv_def)
  then show ?thesis by (simp add: launchTimedOut_def Let_def acc_settle_launch)
qed

section \<open>A browser comes up\<close>

lemma new_core_sel [simp]:
  "m_recs (new_core fk c now d m) = m_recs m" "m_orphans (new_core fk c now d m) = m_orphans m"
  "m_late (new_core fk c now d m) = m_late m" "m_reaping (new_core fk c now d m) = m_reaping m"
  "m_sessions (new_core fk c now d m) = m_sessions m" "m_launches (new_core fk c now d m) = m_launches m"
  "m_nextRec (new_core fk c now d m) = m_nextRec m" "m_watch (new_core fk c now d m) = m_watch m"
  "m_nextSession (new_core fk c now d m) = m_nextSession m + 1"
  "m_alive (new_core fk c now d m) = m_nextSession m # m_alive m"
  "m_store (new_core fk c now d m) = (m_store m)(m_nextSession m := new_Session fk c now)"
  "m_ownedDirs (new_core fk c now d m) = m_ownedDirs m"
  by (simp_all add: new_core_def)

text \<open>Either it is registered at once \dots\<close>

lemma acc_register:
  assumes "acc_inv m" "i = m_nextSession m"
  shows "acc_inv (new_core fk c now d m \<lparr>m_ownedDirs := od, m_sessions := set_add i (m_sessions m)\<rparr>)"
    (is "acc_inv ?m'")
proof -
  have own: "owned_by m r j \<Longrightarrow> owned_by ?m' r j" for r j by (auto simp: owned_by_def)
  have selfs: "selfs ?m' = selfs m" by (simp add: selfs_def)
  have "accounted ?m'" using assms by (auto simp: acc_inv_def accounted_def)
  moreover have "allocated ?m'" using assms by (auto simp: acc_inv_def allocated_def new_Session_def less_Suc_eq)
  moreover have "late_ok ?m'" using assms by (simp add: acc_inv_def late_ok_def)
  moreover have "reaping_ok ?m'" using assms own by (simp add: acc_inv_def reaping_ok_def)
  moreover have "self_ok ?m'"
    using assms(1) own unfolding acc_inv_def self_ok_def selfs by simp
  moreover have "deferred_ok ?m'"
    using assms unfolding acc_inv_def deferred_ok_def owner_dead_def allocated_def by auto
  ultimately show ?thesis by (simp add: acc_inv_def)
qed

text \<open>\dots or an orphan record takes it.\<close>

definition adopt :: "nat \<Rightarrow> bool \<Rightarrow> bool \<Rightarrow> string option \<Rightarrow> int \<Rightarrow> nat option \<Rightarrow> manager \<Rightarrow> manager" where
  "adopt r settled fk c now d m =
     add_orphan r (upd_rec r (\<lambda>q. q\<lparr>o_settled := settled, o_session := Some (m_nextSession m)\<rparr>)
       (new_core fk c now d m))"

lemma adopt_sel [simp]:
  "m_recs (adopt r st fk c now d m) =
     (m_recs m)(r := (m_recs m r)\<lparr>o_settled := st, o_session := Some (m_nextSession m)\<rparr>)"
  "set (m_orphans (adopt r st fk c now d m)) = insert r (set (m_orphans m))"
  "m_late (adopt r st fk c now d m) = m_late m" "m_reaping (adopt r st fk c now d m) = m_reaping m"
  "m_sessions (adopt r st fk c now d m) = m_sessions m" "m_launches (adopt r st fk c now d m) = m_launches m"
  "m_nextRec (adopt r st fk c now d m) = m_nextRec m" "m_nextSession (adopt r st fk c now d m) = m_nextSession m + 1"
  "m_alive (adopt r st fk c now d m) = m_nextSession m # m_alive m"
  "m_store (adopt r st fk c now d m) = (m_store m)(m_nextSession m := new_Session fk c now)"
  by (simp_all add: adopt_def) (simp_all add: add_orphan_def upd_rec_def)

lemma acc_adopt:
  assumes "acc_inv m" "r < m_nextRec m" "o_session (m_recs m r) = None"
    and "r \<notin> lates m" "r \<notin> reapings m" "\<And>i. (r, i) \<notin> selfs m" "\<not> o_settleAfterSweep (m_recs m r)"
  shows "acc_inv (adopt r st fk c now d m)"
    (is "acc_inv ?m'")
proof -
  have own: "q \<noteq> r \<Longrightarrow> owned_by m q j \<Longrightarrow> owned_by ?m' q j" for q j by (auto simp: owned_by_def)
  have selfs: "selfs ?m' = selfs m" by (simp add: selfs_def)
  have acc: "i \<in> set (m_alive m) \<Longrightarrow> i \<in> set (m_sessions m) \<or>
      (\<exists>q \<in> set (m_orphans m). o_session (m_recs m q) = Some i)" for i
    using assms(1) by (simp add: acc_inv_def accounted_def)
  have "i \<in> set (m_sessions ?m') \<or> (\<exists>q \<in> set (m_orphans ?m'). o_session (m_recs ?m' q) = Some i)"
    if "i \<in> set (m_alive ?m')" for i
  proof (cases "i = m_nextSession m")
    case False
    then show ?thesis using acc [of i] that assms(3) by (simp, metis option.distinct(1))
  qed simp
  then have "accounted ?m'" by (simp only: accounted_def Ball_def) blast
  moreover have "allocated ?m'"
    using assms(1,2) by (auto simp: acc_inv_def allocated_def new_Session_def less_Suc_eq)
  moreover have "late_ok ?m'"
    using assms(1,4) by (auto simp: acc_inv_def late_ok_def)
  moreover have "reaping_ok ?m'"
    using assms(1,5) own by (force simp: acc_inv_def reaping_ok_def)
  moreover have "self_ok ?m'"
    using assms(1,6) own unfolding acc_inv_def self_ok_def selfs adopt_sel by metis
  moreover have "deferred_ok ?m'"
    using assms(1,7) unfolding acc_inv_def deferred_ok_def owner_dead_def allocated_def by auto
  ultimately show ?thesis by (simp add: acc_inv_def)
qed

lemma acc_launched:
  assumes "acc_inv m" "map_of (m_launches m) l = Some la" "l_phase la = Racing"
  shows "acc_inv (launched l fk now la m)"
proof (cases "m_shuttingDown m")
  case False
  then show ?thesis
    by (auto simp: launched_def Let_def intro!: acc_settle_launch acc_register [OF assms(1)])
next
  case True
  let ?r = "m_nextRec m"
  let ?m0 = "new_rec (blank_orphan\<lparr>o_dir := l_dir la\<rparr>) m"
  have m0: "acc_inv ?m0" by (rule acc_new_rec [OF assms(1)]) (simp_all add: blank_orphan_def)
  have fresh: "?r \<notin> lates m" "?r \<notin> reapings m" "\<And>i. (?r, i) \<notin> selfs m"
    using assms(1) unfolding acc_inv_def late_ok_def reaping_ok_def self_ok_def owned_by_def
    by (blast, metis (no_types, lifting) imageE less_irrefl prod.collapse, blast)
  have selfs0: "selfs ?m0 = selfs m" by (simp add: selfs_def new_rec_def)
  let ?m2 = "adopt ?r False fk None now (l_dir la) ?m0"
  have m2: "acc_inv ?m2"
  proof (rule acc_adopt [OF m0])
    show "\<And>i. (?r, i) \<notin> selfs ?m0" by (simp only: selfs0 fresh not_False_eq_True)
  qed (use fresh(1,2) in \<open>simp_all add: new_rec_def blank_orphan_def\<close>)
  have eq: "launched l fk now la m = upd_launch l (\<lambda>la. la\<lparr>l_phase := SelfTeardown ?r (m_nextSession m)\<rparr>) ?m2"
    using True by (intro manager.equality) (simp_all add: launched_def Let_def adopt_def new_rec_def new_core_def
        upd_rec_def add_orphan_def blank_orphan_def upd_launch_def)
  let ?m3 = "upd_launch l (\<lambda>la. la\<lparr>l_phase := SelfTeardown ?r (m_nextSession m)\<rparr>) ?m2"
  have own: "owned_by ?m3 q j = owned_by ?m2 q j" for q j by (simp add: owned_by_def)
  have me: "owned_by ?m2 ?r (m_nextSession m)" by (simp add: owned_by_def) (simp add: new_rec_def)
  have selfs3: "selfs ?m3 \<subseteq> insert (?r, m_nextSession m) (selfs ?m2)"
    using selfs_upd_launch [of l "\<lambda>la. la\<lparr>l_phase := SelfTeardown ?r (m_nextSession m)\<rparr>" ?m2] by auto
  have frame: "lates ?m3 = lates m" "reapings ?m3 = reapings m" "lates ?m2 = lates m" "reapings ?m2 = reapings m"
    by (simp_all add: new_rec_def)
  have "self_ok ?m3"
    unfolding self_ok_def own frame(1,2)
  proof (intro allI impI)
    fix q j assume "(q, j) \<in> selfs ?m3"
    then have "(q, j) = (?r, m_nextSession m) \<or> (q, j) \<in> selfs ?m2" using selfs3 by blast
    then show "owned_by ?m2 q j \<and> q \<notin> lates m \<and> q \<notin> reapings m"
      using m2 me fresh(1,2) unfolding acc_inv_def self_ok_def frame(3,4) by (metis prod.inject)
  qed
  then show ?thesis
    using m2 unfolding eq acc_inv_def upd_launch_inv by metis
qed

lemma remove1_key:
  "distinct (map fst xs) \<Longrightarrow> (r, d) \<in> set xs \<Longrightarrow>
     r \<notin> fst ` set (remove1 (r, d) xs) \<and> distinct (map fst (remove1 (r, d) xs))"
  by (induction xs) (auto simp: rev_image_eqI dest: notin_set_remove1 set_mp [OF set_remove1_subset])

lemma late_facts:
  assumes "acc_inv m" "(r, d) \<in> set (m_late m)"
  shows "r < m_nextRec m" "o_session (m_recs m r) = None" "\<not> o_settled (m_recs m r)" "r \<notin> reapings m"
    "\<not> o_settleAfterSweep (m_recs m r)" "(r, i) \<notin> selfs m"
proof -
  have l: "r \<in> lates m" using assms(2) by (rule rev_image_eqI) simp
  have "late_ok m" "deferred_ok m" "self_ok m" using assms(1) by (simp_all add: acc_inv_def)
  with l show "r < m_nextRec m" "o_session (m_recs m r) = None" "\<not> o_settled (m_recs m r)" "r \<notin> reapings m"
    "\<not> o_settleAfterSweep (m_recs m r)" "(r, i) \<notin> selfs m"
    unfolding late_ok_def deferred_ok_def self_ok_def by (metis disjoint_iff)+
qed

lemma acc_drop_late:
  assumes "acc_inv m" "(r, d) \<in> set (m_late m)"
  shows "acc_inv (m\<lparr>m_late := remove1 (r, d) (m_late m)\<rparr>)"
proof (rule acc_shrink [OF assms(1)])
  have "distinct (map fst (m_late m))" using assms(1) by (simp add: acc_inv_def late_ok_def)
  then show "distinct (map fst (m_late (m\<lparr>m_late := remove1 (r, d) (m_late m)\<rparr>)))"
    using remove1_key [OF _ assms(2)] by simp
  show "lates (m\<lparr>m_late := remove1 (r, d) (m_late m)\<rparr>) \<subseteq> lates m"
    using set_remove1_subset [of "(r, d)" "m_late m"] by (simp add: image_mono)
qed (use launches_distinct [OF assms(1)] in \<open>simp_all add: selfs_def\<close>)

lemma acc_lateResolved:
  assumes "acc_inv m" "(r, d) \<in> set (m_late m)"
  shows "acc_inv (lateResolved r d fk now m)"
proof -
  note r = late_facts [OF assms]
  let ?i = "m_nextSession m"
  let ?m0 = "m\<lparr>m_late := remove1 (r, d) (m_late m), m_watch := removeAll r (m_watch m)\<rparr>"
  define m1 where "m1 = adopt r True fk None now d ?m0"
  have m0: "acc_inv ?m0"
    using acc_quiet [OF acc_drop_late [OF assms] quiet_watch] by simp
  have dl: "distinct (map fst (m_late m))" using assms(1) by (simp add: acc_inv_def late_ok_def)
  have gone: "r \<notin> lates ?m0" using remove1_key [OF dl assms(2)] by simp
  have s0: "selfs ?m0 = selfs m" by (simp add: selfs_def)
  have m1: "acc_inv m1"
    unfolding m1_def
  proof (rule acc_adopt [OF m0])
    show "(r, i) \<notin> selfs ?m0" for i using r(6) by (simp only: s0 not_False_eq_True)
  qed (use r gone in simp_all)
  define m2 where "m2 = m1\<lparr>m_reaping := m_reaping m1 @ [(r, ?i)]\<rparr>"
  have eq: "lateResolved r d fk now m = m2"
    by (intro manager.equality) (simp_all add: lateResolved_def Let_def m2_def m1_def adopt_def new_core_def
        upd_rec_def add_orphan_def)
  have own: "owned_by m2 q j = owned_by m1 q j" for q j by (simp add: owned_by_def m2_def)
  have me: "owned_by m1 r ?i" using r(1) by (simp add: owned_by_def m1_def)
  have s2: "selfs m2 = selfs m" "selfs m1 = selfs m" by (simp_all add: selfs_def m2_def m1_def)
  have sel: "m_late m2 = m_late m1" "set (m_reaping m2) = insert (r, ?i) (set (m_reaping m1))"
    "r \<notin> lates m1"
    using gone by (simp_all add: m2_def, simp add: m1_def)
  have "reaping_ok m2"
    using m1 me by (auto simp: acc_inv_def reaping_ok_def own sel)
  moreover have "late_ok m2"
    using m1 sel by (auto simp: acc_inv_def late_ok_def m2_def)
  moreover have "self_ok m2"
    unfolding self_ok_def own s2
  proof (intro allI impI)
    fix q j assume q: "(q, j) \<in> selfs m"
    then have "q \<noteq> r" using r(6) by blast
    moreover have "owned_by m1 q j \<and> q \<notin> lates m1 \<and> q \<notin> reapings m1"
      using m1 q unfolding acc_inv_def self_ok_def s2 by metis
    ultimately show "owned_by m1 q j \<and> q \<notin> lates m2 \<and> q \<notin> reapings m2" by (simp add: sel)
  qed
  ultimately show ?thesis
    using m1 unfolding eq
    by (simp add: acc_inv_def accounted_def allocated_def deferred_ok_def owner_dead_def m2_def)
qed

section \<open>A browser goes down\<close>

lemma confirmed_dead_sel [simp]:
  "m_recs (confirmed_dead i s m) = m_recs m" "m_orphans (confirmed_dead i s m) = m_orphans m"
  "m_late (confirmed_dead i s m) = m_late m" "m_reaping (confirmed_dead i s m) = m_reaping m"
  "m_sessions (confirmed_dead i s m) = m_sessions m" "m_launches (confirmed_dead i s m) = m_launches m"
  "m_nextRec (confirmed_dead i s m) = m_nextRec m" "m_nextSession (confirmed_dead i s m) = m_nextSession m"
  "m_alive (confirmed_dead i s m) = removeAll i (m_alive m)"
  "m_store (confirmed_dead i s m) = (m_store m)(i := s)" "m_watch (confirmed_dead i s m) = m_watch m"
  "m_ownedDirs (confirmed_dead i s m) = m_ownedDirs m" "m_unconfirmed (confirmed_dead i s m) = m_unconfirmed m"
  "m_closing (confirmed_dead i s m) = m_closing m" "m_removed (confirmed_dead i s m) = m_removed m"
  by (simp_all add: confirmed_dead_def set_session_def)

lemma removeOwnedDir_sel [simp]:
  "m_recs (removeOwnedDir i m) = m_recs m" "m_orphans (removeOwnedDir i m) = m_orphans m"
  "m_late (removeOwnedDir i m) = m_late m" "m_reaping (removeOwnedDir i m) = m_reaping m"
  "m_sessions (removeOwnedDir i m) = m_sessions m" "m_launches (removeOwnedDir i m) = m_launches m"
  "m_nextRec (removeOwnedDir i m) = m_nextRec m" "m_nextSession (removeOwnedDir i m) = m_nextSession m"
  "m_alive (removeOwnedDir i m) = m_alive m" "m_store (removeOwnedDir i m) = m_store m"
  "m_watch (removeOwnedDir i m) = m_watch m" "m_unconfirmed (removeOwnedDir i m) = m_unconfirmed m"
  "m_closing (removeOwnedDir i m) = m_closing m"
  by (simp_all add: removeOwnedDir_def split: option.splits)

lemma late_distinct: "acc_inv m \<Longrightarrow> distinct (map fst (m_late m))"
  by (simp add: acc_inv_def late_ok_def)

lemma acc_confirmed_dead:
  assumes "acc_inv m" "m_sessions m' = m_sessions m \<or> m_sessions m' = removeAll i (m_sessions m)"
    and "m_recs m' = m_recs m" "m_orphans m' = m_orphans m" "m_late m' = m_late m"
    and "set (m_reaping m') \<subseteq> set (m_reaping m)" "m_launches m' = m_launches m"
    and "m_nextRec m' = m_nextRec m" "m_nextSession m' = m_nextSession m"
    and "m_alive m' = removeAll i (m_alive m)" "m_store m' = (m_store m)(i := s)"
  shows "acc_inv m'"
  by (rule acc_shrink [OF assms(1)])
    (use assms(2-) launches_distinct [OF assms(1)] late_distinct [OF assms(1)] in \<open>auto simp: selfs_def\<close>)

lemma owner_dead_confirmed:
  "o_session (m_recs m r) = None \<or> o_session (m_recs m r) = Some i \<Longrightarrow> owner_dead (confirmed_dead i s m) r"
  by (auto simp: owner_dead_def)

lemma acc_teardownDone: "acc_inv m \<Longrightarrow> acc_inv (teardownDone i cl ok m)"
  unfolding teardownDone_def
  by (auto split: option.splits intro: acc_confirmed_dead acc_simple simp: selfs_def launches_distinct)

lemma acc_selfTeardownDone:
  assumes "acc_inv m" "map_of (m_launches m) l = Some la" "l_phase la = SelfTeardown r i"
  shows "acc_inv (selfTeardownDone l r i cl ok m)"
proof -
  have "(r, i) \<in> selfs m"
    using map_of_SomeD [OF assms(2)] assms(3) by (auto simp: selfs_def intro: rev_bexI)
  then have own: "owned_by m r i" "r \<notin> lates m"
    using assms(1) unfolding acc_inv_def self_ok_def by metis+
  have "acc_inv (confirmed_dead i s m)" for s
    by (rule acc_confirmed_dead [OF assms(1)]) simp_all
  moreover have "owner_dead (confirmed_dead i s m) r" for s
    using own(1) by (intro owner_dead_confirmed) (simp add: owned_by_def)
  ultimately have "acc_inv (settleReapedOrphan r (confirmed_dead i s m))" for s
    using own(2) by (intro acc_quiet [OF _ quiet_settle]) simp_all
  moreover have "acc_inv (m\<lparr>m_unconfirmed := x\<rparr>)" for x
    by (rule acc_simple [OF assms(1)]) (simp_all add: selfs_def launches_distinct assms(1))
  ultimately show ?thesis
    by (auto simp: selfTeardownDone_def split: option.splits intro!: acc_upd_launch acc_settle_launch)
qed

lemma acc_lateTeardownDone:
  assumes "acc_inv m" "(r, i) \<in> set (m_reaping m)"
  shows "acc_inv (lateTeardownDone r i cl ok m)"
proof -
  let ?m1 = "m\<lparr>m_reaping := remove1 (r, i) (m_reaping m)\<rparr>"
  have sub: "set (remove1 (r, i) (m_reaping m)) \<subseteq> set (m_reaping m)" by (rule set_remove1_subset)
  have own: "owned_by m r i" using assms by (simp add: acc_inv_def reaping_ok_def)
  have "r \<in> reapings m" using assms(2) by (rule rev_image_eqI) simp
  then have nl: "r \<notin> lates m" using assms(1) unfolding acc_inv_def late_ok_def by (metis disjoint_iff)
  have "acc_inv (confirmed_dead i s ?m1)" for s
    by (rule acc_confirmed_dead [OF assms(1)]) (simp_all add: sub)
  moreover have "owner_dead (confirmed_dead i s ?m1) r" for s
    using own by (intro owner_dead_confirmed) (simp add: owned_by_def)
  ultimately have "acc_inv (settleReapedOrphan r (confirmed_dead i s ?m1))" for s
    using nl by (intro acc_quiet [OF _ quiet_settle]) simp_all
  moreover have "acc_inv (?m1\<lparr>m_unconfirmed := x\<rparr>)" for x
    by (rule acc_shrink [OF assms(1)])
      (use sub launches_distinct [OF assms(1)] late_distinct [OF assms(1)] in \<open>simp_all add: selfs_def\<close>)
  ultimately show ?thesis
    by (auto simp: lateTeardownDone_def Let_def split: option.splits)
qed

lemma acc_lateRejected:
  assumes "acc_inv m" "(r, d) \<in> set (m_late m)"
  shows "acc_inv (lateRejected r d m)"
proof -
  let ?m0 = "m\<lparr>m_late := remove1 (r, d) (m_late m)\<rparr>"
  let ?m1 = "upd_rec r (\<lambda>q. q\<lparr>o_settled := True\<rparr>) ?m0"
  have gone: "r \<notin> lates ?m0" using remove1_key [OF late_distinct [OF assms(1)] assms(2)] by simp
  have m0: "acc_inv ?m0" by (rule acc_drop_late [OF assms])
  have own: "owned_by ?m1 q j = owned_by ?m0 q j" for q j by (simp add: owned_by_def upd_rec_def)
  have s: "selfs ?m1 = selfs ?m0" by (simp add: selfs_def upd_rec_def)
  have frame: "m_reaping ?m1 = m_reaping ?m0" "m_late ?m1 = m_late ?m0" "m_sessions ?m1 = m_sessions ?m0"
    "m_nextSession ?m1 = m_nextSession ?m0" "m_store ?m1 = m_store ?m0" "m_launches ?m1 = m_launches ?m0"
    by (simp_all add: upd_rec_def)
  have "accounted ?m1" "allocated ?m1" "reaping_ok ?m1" "deferred_ok ?m1"
    using m0 unfolding acc_inv_def accounted_def allocated_def reaping_ok_def deferred_ok_def owner_dead_def own frame
    by (auto split: if_splits)
  moreover have "self_ok ?m1" using m0 unfolding acc_inv_def self_ok_def own s frame by blast
  moreover have "late_ok ?m1" using m0 gone unfolding acc_inv_def late_ok_def frame by auto
  ultimately have "acc_inv ?m1" by (simp add: acc_inv_def)
  then show ?thesis
    by (auto simp: lateRejected_def Let_def intro: acc_quiet [OF _ quiet_sweep] acc_quiet [OF _ quiet_add_orphan])
qed

lemma acc_reconfirmDone:
  assumes "acc_inv m"
  shows "acc_inv (reconfirmDone i ok m)"
proof -
  let ?m1 = "m\<lparr>m_reconfirming := remove1 i (m_reconfirming m)\<rparr>"
  let ?m2 = "\<lambda>s. removeOwnedDir i (confirmed_dead i s
      (?m1\<lparr>m_sessions := removeAll i (m_sessions ?m1), m_unconfirmed := removeAll i (m_unconfirmed ?m1)\<rparr>))"
  have m1: "acc_inv ?m1"
    by (rule acc_simple [OF assms]) (simp_all add: selfs_def launches_distinct assms)
  have m2: "acc_inv (?m2 s)" for s
    by (rule acc_confirmed_dead [OF assms]) simp_all
  have "acc_inv (settleReapedOrphan r (?m2 s))" if "find (\<lambda>r. o_session (m_recs (?m2 s) r) = Some i) (m_orphans (?m2 s)) = Some r" for r s
  proof (rule acc_quiet [OF m2 quiet_settle])
    have sess: "o_session (m_recs m r) = Some i" using that by (auto simp: find_Some_iff)
    then show "owner_dead (?m2 s) r" by (simp add: owner_dead_def)
    show "r \<notin> lates (?m2 s)" using assms sess by (auto simp: acc_inv_def late_ok_def)
  qed
  then show ?thesis
    using m1 m2 by (auto simp: reconfirmDone_def Let_def split: option.splits)
qed

lemma beginTeardown_sel [simp]:
  "m_recs (beginTeardown i m) = m_recs m" "m_orphans (beginTeardown i m) = m_orphans m"
  "m_late (beginTeardown i m) = m_late m" "m_reaping (beginTeardown i m) = m_reaping m"
  "m_sessions (beginTeardown i m) = m_sessions m" "m_launches (beginTeardown i m) = m_launches m"
  "m_nextRec (beginTeardown i m) = m_nextRec m" "m_nextSession (beginTeardown i m) = m_nextSession m"
  "m_alive (beginTeardown i m) = m_alive m" "m_store (beginTeardown i m) = m_store m"
  "m_unconfirmed (beginTeardown i m) = m_unconfirmed m"
  by (simp_all add: beginTeardown_def)

lemma selfs_cong: "m_launches m' = m_launches m \<Longrightarrow> selfs m' = selfs m"
  by (simp add: selfs_def)

lemma acc_beginTeardown:
  assumes "acc_inv m"
  shows "acc_inv (beginTeardown i m)"
  by (rule acc_simple [OF assms])
    (simp_all only: beginTeardown_sel selfs_cong [OF beginTeardown_sel(6)] order_refl launches_distinct assms)

lemma acc_release: "acc_inv m \<Longrightarrow> acc_inv (release i m)"
  by (simp add: release_def acc_beginTeardown)

lemma acc_fold:
  assumes "\<And>x m. acc_inv m \<Longrightarrow> acc_inv (f x m)"
  shows "acc_inv m \<Longrightarrow> acc_inv (fold f xs m)"
  by (induction xs arbitrary: m) (simp_all add: assms)

lemma acc_acquireFinally:
  assumes "acc_inv m"
  shows "acc_inv (acquireFinally l la m)"
  by (rule acc_simple [OF assms])
    (use launches_distinct [OF assms] in
      \<open>simp_all add: acquireFinally_def Let_def distinct_map_filter, force simp: selfs_def\<close>)

lemma act_state: "s_state (act a s) = s_state s"
  by (cases a) (simp_all add: beginActivity_def endActivity_def touch_def Let_def)

lemma acc_use: "acc_inv m \<Longrightarrow> acc_inv (set_session i (act a (m_store m i)) m)"
  by (rule acc_shrink)
    (auto simp: set_session_def selfs_def act_state launches_distinct late_distinct)

lemma acc_trivial:
  assumes "acc_inv m"
  shows "acc_inv (drainUnconfirmed m)" "acc_inv (shutdownBegin m)"
  by (rule acc_simple [OF assms]; simp add: drainUnconfirmed_def shutdownBegin_def selfs_def launches_distinct assms)+

lemma acc_composed:
  assumes "acc_inv m"
  shows "acc_inv (snd (reapIdle ttl now mx m))" "acc_inv (reapSweeps m)" "acc_inv (shutdownTeardowns m)"
    "acc_inv (shutdownSweeps m)"
  using assms
  by (simp_all add: reapIdle_def Let_def shutdownTeardowns_def shutdownSweeps_def acc_fold acc_release
      acc_beginTeardown acc_quiet [OF _ quiet_reapSweeps] acc_quiet [OF _ quiet_fold_sweep])

lemma acc_verdicts:
  assumes "acc_inv m"
  shows "acc_inv (sweepDone r out m)" "acc_inv (sweepFailed r m)"
  using assms quiet_sweepDone quiet_sweepFailed acc_quiet unfolding acc_inv_def by metis+

lemma acc_step: "mstep m e m' \<Longrightarrow> acc_inv m \<Longrightarrow> acc_inv m'"
  by (induction rule: mstep.induct)
    (simp_all only: acc_acquire acc_dirMinted acc_launched acc_launchFailed acc_launchTimedOut
      acc_selfTeardownDone acc_settle_launch acc_acquireFinally acc_lateResolved acc_lateTeardownDone
      acc_lateRejected acc_release acc_teardownDone acc_trivial acc_reconfirmDone acc_composed acc_verdicts acc_use
      simp_thms)

lemma acc_init: "fresh_manager m \<Longrightarrow> acc_inv m"
  by (auto simp: fresh_manager_def new_SessionManager_def acc_inv_def accounted_def allocated_def late_ok_def
      reaping_ok_def self_ok_def selfs_def deferred_ok_def blank_orphan_def)

interpretation accounting: inductive_invariant fresh_manager mstep acc_inv
  by unfold_locales (auto intro: acc_init acc_step)

end
