(* ===== verification/Session_Caps.thy ===== *)
theory Session_Caps
  imports Session_Accounting
begin

text \<open>
  The caps of the session manager and the accounting of its reservations: the reserved slots are
  exactly the acquires in flight, per consumer too, so a slot can neither leak nor be freed twice; and
  registered sessions plus the launches that may still register stay within the global and the
  per-consumer limits.
\<close>

fun pending :: "phase \<Rightarrow> bool" where
  "pending Minting = True"
| "pending Racing = True"
| "pending _ = False"

abbreviation count :: "('a \<Rightarrow> bool) \<Rightarrow> 'a list \<Rightarrow> nat" where
  "count P xs \<equiv> length (filter P xs)"

definition of_consumer :: "string \<Rightarrow> nat \<times> launch \<Rightarrow> bool" where
  "of_consumer c p \<longleftrightarrow> l_consumerId (snd p) = Some c"

definition is_pending :: "nat \<times> launch \<Rightarrow> bool" where
  "is_pending p \<longleftrightarrow> pending (l_phase (snd p))"

definition reserved_for :: "manager \<Rightarrow> string \<Rightarrow> nat" where
  "reserved_for m c = (case map_of (m_reservedByConsumer m) c of None \<Rightarrow> 0 | Some n \<Rightarrow> n)"

definition sessions_of :: "manager \<Rightarrow> string \<Rightarrow> nat" where
  "sessions_of m c = count (\<lambda>i. s_consumerId (m_store m i) = Some c) (m_sessions m)"

definition caps_inv :: "manager \<Rightarrow> bool" where
  "caps_inv m \<longleftrightarrow>
     m_reserved m = length (m_launches m) \<and>
     (\<forall>c. reserved_for m c = count (of_consumer c) (m_launches m)) \<and>
     (\<forall>p \<in> set (m_launches m). l_consumerId (snd p) \<noteq> Some []) \<and>
     length (m_sessions m) + count is_pending (m_launches m) \<le> m_maxSessions m \<and>
     (\<forall>c. c \<noteq> [] \<longrightarrow> sessions_of m c + count (\<lambda>p. of_consumer c p \<and> is_pending p) (m_launches m) \<le> m_perConsumerMax m)"

lemma caps_shrink:
  assumes "caps_inv m" "m_reserved m' = m_reserved m" "m_reservedByConsumer m' = m_reservedByConsumer m"
    and "m_launches m' = m_launches m" "m_maxSessions m' = m_maxSessions m"
    and "m_perConsumerMax m' = m_perConsumerMax m"
    and "m_sessions m' = m_sessions m \<or> m_sessions m' = removeAll i (m_sessions m)"
    and "\<And>i. i \<in> set (m_sessions m) \<Longrightarrow> s_consumerId (m_store m' i) = s_consumerId (m_store m i)"
  shows "caps_inv m'"
proof -
  have le: "count P (removeAll i xs) \<le> count P xs" for P and xs :: "nat list"
    by (induction xs) auto
  have same: "sessions_of m' c = count (\<lambda>i. s_consumerId (m_store m i) = Some c) (m_sessions m')" for c
    unfolding sessions_of_def using assms(7,8) by (auto intro!: arg_cong [where f = length] filter_cong)
  have "sessions_of m' c \<le> sessions_of m c" for c
    unfolding same using assms(7) le unfolding sessions_of_def by auto
  moreover have "length (m_sessions m') \<le> length (m_sessions m)"
    using assms(7) length_removeAll_less_eq [of i "m_sessions m"] by auto
  ultimately show ?thesis
    using assms(1) unfolding caps_inv_def assms(2-6) reserved_for_def
    by (meson add_le_mono1 le_trans)
qed

lemma caps_ledgers: "caps_inv m \<Longrightarrow> ledgers_only m m' \<Longrightarrow> caps_inv m'"
  by (erule caps_shrink) (simp_all add: ledgers_onlyD)

lemma caps_quiet: "caps_inv m \<Longrightarrow> quiet m m' \<Longrightarrow> caps_inv m'"
  by (rule caps_ledgers) (auto simp: quiet_def)

lemma count_map_le:
  "(\<And>x. x \<in> set xs \<Longrightarrow> P (f x) \<Longrightarrow> P x) \<Longrightarrow> count P (map f xs) \<le> count P xs"
  by (induction xs) (auto simp: le_Suc_eq)

lemma count_map_eq:
  "(\<And>x. x \<in> set xs \<Longrightarrow> P (f x) = P x) \<Longrightarrow> count P (map f xs) = count P xs"
  by (induction xs) auto

lemma caps_upd_launch:
  assumes "caps_inv m"
    and "\<And>la. (l, la) \<in> set (m_launches m) \<Longrightarrow> l_consumerId (f la) = l_consumerId la \<and>
      (pending (l_phase (f la)) \<longrightarrow> pending (l_phase la))"
  shows "caps_inv (upd_launch l f m)"
proof -
  let ?g = "\<lambda>(k, la). (k, if k = l then f la else la)"
  note inv = assms(1) [unfolded caps_inv_def]
  have c: "count (of_consumer c) (map ?g (m_launches m)) = count (of_consumer c) (m_launches m)" for c
    using assms(2) by (intro count_map_eq) (auto simp: of_consumer_def split: if_splits)
  have p: "count is_pending (map ?g (m_launches m)) \<le> count is_pending (m_launches m)"
    using assms(2) by (intro count_map_le) (auto simp: is_pending_def split: if_splits)
  have cp: "count (\<lambda>p. of_consumer c p \<and> is_pending p) (map ?g (m_launches m))
      \<le> count (\<lambda>p. of_consumer c p \<and> is_pending p) (m_launches m)" for c
    using assms(2) by (intro count_map_le) (auto simp: is_pending_def of_consumer_def split: if_splits)
  have t: "l_consumerId (snd p) \<noteq> Some []" if "p \<in> set (map ?g (m_launches m))" for p
    using that assms by (auto simp: caps_inv_def split: if_splits)
  have s: "sessions_of (upd_launch l f m) = sessions_of m" "reserved_for (upd_launch l f m) = reserved_for m"
    by (simp_all add: sessions_of_def reserved_for_def fun_eq_iff)
  have "length (m_sessions m) + count is_pending (map ?g (m_launches m)) \<le> m_maxSessions m"
    using inv p by linarith
  moreover have "sessions_of m c + count (\<lambda>p. of_consumer c p \<and> is_pending p) (map ?g (m_launches m))
      \<le> m_perConsumerMax m" if "c \<noteq> []" for c
  proof -
    have "sessions_of m c + count (\<lambda>p. of_consumer c p \<and> is_pending p) (m_launches m) \<le> m_perConsumerMax m"
      using inv that by blast
    then show ?thesis using cp [of c] by linarith
  qed
  ultimately show ?thesis
    unfolding caps_inv_def upd_launch_launches s upd_launch_sel length_map c using inv t by blast
qed

section \<open>The steps that move the counts\<close>

lemma caps_same:
  assumes "caps_inv m" "m_reserved m' = m_reserved m" "m_reservedByConsumer m' = m_reservedByConsumer m"
    and "m_launches m' = m_launches m" "m_maxSessions m' = m_maxSessions m"
    and "m_perConsumerMax m' = m_perConsumerMax m" "m_sessions m' = m_sessions m" "m_store m' = m_store m"
  shows "caps_inv m'"
  using assms by (intro caps_shrink [OF assms(1)]) simp_all

lemma caps_settle_launch: "caps_inv m \<Longrightarrow> caps_inv (settle_launch l res m)"
  unfolding settle_launch_def by (rule caps_upd_launch) simp_all

lemma new_rec_sel [simp]:
  "m_reserved (new_rec q m) = m_reserved m" "m_reservedByConsumer (new_rec q m) = m_reservedByConsumer m"
  "m_launches (new_rec q m) = m_launches m" "m_maxSessions (new_rec q m) = m_maxSessions m"
  "m_perConsumerMax (new_rec q m) = m_perConsumerMax m" "m_sessions (new_rec q m) = m_sessions m"
  "m_store (new_rec q m) = m_store m" "m_orphans (new_rec q m) = m_orphans m"
  by (simp_all add: new_rec_def)

lemma caps_new_rec: "caps_inv m \<Longrightarrow> caps_inv (new_rec q m)"
  by (erule caps_same) simp_all

lemma caps_enqueue: "caps_inv m \<Longrightarrow> caps_inv (enqueueOrphan r m)"
  using caps_quiet quiet_enqueue by blast

lemma caps_launchFailed: "caps_inv m \<Longrightarrow> caps_inv (launchFailed l la m)"
  by (simp add: launchFailed_def caps_settle_launch caps_enqueue caps_new_rec)

lemma launch_unique:
  "distinct (map fst xs) \<Longrightarrow> map_of xs l = Some la \<Longrightarrow> (l, la') \<in> set xs \<Longrightarrow> la' = la"
  by (metis map_of_is_SomeI option.inject)

lemma caps_call_factory:
  assumes "caps_inv m" "distinct (map fst (m_launches m))" "map_of (m_launches m) l = Some la" "pending (l_phase la)"
  shows "caps_inv (call_factory l th la m)"
proof (cases th)
  case False
  then show ?thesis
    using launch_unique [OF assms(2,3)] assms(4)
    by (auto simp: call_factory_def intro!: caps_upd_launch [OF assms(1)])
qed (simp add: call_factory_def caps_launchFailed assms(1))

lemma count_conj_le: "count (\<lambda>x. P x \<and> Q x) xs \<le> count P xs"
  by (induction xs) auto

lemma caps_reserve:
  assumes "caps_inv m" "activeCount m + m_reserved m < m_maxSessions m"
    and "js_truthy c \<Longrightarrow> countForConsumer m (the c) < m_perConsumerMax m"
    and m': "m_reserved m' = m_reserved m + 1" "m_launches m' = m_launches m @ [(l, la)]"
    "m_reservedByConsumer m' =
      (if js_truthy c
       then alist_put (the c) ((case map_of (m_reservedByConsumer m) (the c) of None \<Rightarrow> 0 | Some n \<Rightarrow> n) + 1)
              (m_reservedByConsumer m)
       else m_reservedByConsumer m)"
    "m_sessions m' = m_sessions m" "m_store m' = m_store m" "m_maxSessions m' = m_maxSessions m"
    "m_perConsumerMax m' = m_perConsumerMax m"
    and la: "l_consumerId la = truthy c" "pending (l_phase la)"
  shows "caps_inv m'"
proof -
  note inv = assms(1) [unfolded caps_inv_def]
  have S: "sessions_of m' = sessions_of m" by (simp add: sessions_of_def fun_eq_iff m')
  have t: "truthy c = (if js_truthy c then Some (the c) else None)" "js_truthy c \<Longrightarrow> the c \<noteq> []"
    by (auto simp: truthy_def js_truthy_def)
  have pend: "count is_pending (m_launches m) \<le> m_reserved m"
    using inv length_filter_le by simp
  have pendc: "count (\<lambda>p. of_consumer k p \<and> is_pending p) (m_launches m) \<le> reserved_for m k" for k
    using inv count_conj_le [of "of_consumer k" is_pending "m_launches m"] by simp
  have res: "reserved_for m' k = count (of_consumer k) (m_launches m')" for k
    using inv by (auto simp: m' la reserved_for_def of_consumer_def t)
  have cons: "sessions_of m' k + count (\<lambda>p. of_consumer k p \<and> is_pending p) (m_launches m') \<le> m_perConsumerMax m'"
    if "k \<noteq> []" for k
  proof (cases "truthy c = Some k")
    case True
    then have "js_truthy c" "the c = k" using t(1) by (auto split: if_splits)
    then have "sessions_of m k + reserved_for m k < m_perConsumerMax m"
      using assms(3) by (simp add: countForConsumer_def sessions_of_def reserved_for_def)
    then show ?thesis using pendc [of k] la True by (simp add: m' S of_consumer_def is_pending_def)
  next
    case False
    then show ?thesis using inv that la unfolding m' S by (simp add: of_consumer_def)
  qed
  have "length (m_sessions m') + count is_pending (m_launches m') \<le> m_maxSessions m'"
    using assms(2) pend la by (simp add: m' is_pending_def activeCount_def)
  moreover have "\<forall>p \<in> set (m_launches m'). l_consumerId (snd p) \<noteq> Some []"
    using inv t la by (auto simp: m')
  moreover have "m_reserved m' = length (m_launches m')" using inv by (simp add: m')
  ultimately show ?thesis unfolding caps_inv_def using res cons by blast
qed

lemma caps_acquire:
  assumes "caps_inv m" "acc_inv m" "l \<notin> fst ` set (m_launches m)"
  shows "caps_inv (snd (acquire l c cd th m))"
proof (cases "m_shuttingDown m \<or> activeCount m + m_reserved m \<ge> m_maxSessions m \<or>
    js_truthy c \<and> countForConsumer m (the c) \<ge> m_perConsumerMax m")
  case True
  then show ?thesis using assms(1) by (auto simp: acquire_def)
next
  case False
  define la where "la = \<lparr>l_consumerId = truthy c, l_dir = None, l_phase = Minting\<rparr>"
  define m1 where "m1 = m\<lparr>m_reserved := m_reserved m + 1, m_reservedByConsumer :=
      (if js_truthy c
       then alist_put (the c) ((case map_of (m_reservedByConsumer m) (the c) of None \<Rightarrow> 0 | Some n \<Rightarrow> n) + 1)
              (m_reservedByConsumer m)
       else m_reservedByConsumer m),
      m_launches := m_launches m @ [(l, la)]\<rparr>"
  have m1: "caps_inv m1"
    using False by (intro caps_reserve [OF assms(1), of c _ l la]) (auto simp: m1_def la_def)
  have "map_of (m_launches m) l = None" using assms(3) by (simp add: map_of_eq_None_iff)
  then have la: "map_of (m_launches m1) l = Some la"
    by (simp add: m1_def map_add_def)
  have d: "distinct (map fst (m_launches m1))"
    using launches_distinct [OF assms(2)] assms(3) by (simp add: m1_def)
  have "caps_inv (call_factory l th la m1)"
    by (rule caps_call_factory [OF m1 d la]) (simp add: la_def)
  moreover have "snd (acquire l c cd th m) = (if cd then call_factory l th la m1 else m1)"
    using False unfolding acquire_def Let_def m1_def la_def by (simp only: de_Morgan_disj if_False snd_conv)
  ultimately show ?thesis using m1 by simp
qed

lemma map_of_update:
  "map_of xs l = Some la \<Longrightarrow> map_of (map (\<lambda>(k, v). (k, if k = l then f v else v)) xs) l = Some (f la)"
  by (induction xs) auto

lemma map_of_upd_launch:
  "map_of (m_launches m) l = Some la \<Longrightarrow> map_of (m_launches (upd_launch l f m)) l = Some (f la)"
  unfolding upd_launch_launches by (rule map_of_update)

lemma caps_dirMinted:
  assumes "caps_inv m" "acc_inv m" "map_of (m_launches m) l = Some la" "l_phase la = Minting"
  shows "caps_inv (dirMinted l d th la m)"
proof -
  let ?m0 = "m\<lparr>m_minted := (case d of None \<Rightarrow> m_minted m | Some x \<Rightarrow> x # m_minted m)\<rparr>"
  let ?la = "la\<lparr>l_dir := d\<rparr>"
  let ?m1 = "upd_launch l (\<lambda>_. ?la) ?m0"
  have m0: "caps_inv ?m0" by (rule caps_same [OF assms(1)]) simp_all
  have "caps_inv ?m1"
    using launch_unique [OF launches_distinct [OF assms(2)] assms(3)]
    by (intro caps_upd_launch [OF m0]) (auto simp: assms(4))
  moreover have "map_of (m_launches ?m1) l = Some ?la"
    using map_of_upd_launch [of ?m0 l la "\<lambda>_. ?la"] assms(3) by simp
  moreover have "distinct (map fst (m_launches ?m1))"
    using launches_distinct [OF assms(2)] unfolding upd_launch_sel by simp
  ultimately show ?thesis
    unfolding dirMinted_def Let_def by (intro caps_call_factory) (simp_all add: assms(4))
qed

lemma count_settled:
  assumes "distinct (map fst xs)" "map_of xs l = Some la" "P (l, la)" "\<not> P (l, f la)"
  shows "count P (map (\<lambda>(k, v). (k, if k = l then f v else v)) xs) + 1 = count P xs"
  using assms
proof (induction xs)
  case (Cons x xs)
  obtain k v where x: "x = (k, v)" by force
  show ?case
  proof (cases "k = l")
    case True
    then have "map (\<lambda>(k, v). (k, if k = l then f v else v)) xs = xs"
      using Cons.prems(1) by (intro map_idI) (auto simp: x rev_image_eqI)
    then show ?thesis using Cons.prems True by (simp add: x)
  next
    case False
    then show ?thesis using Cons by (simp add: x)
  qed
qed simp

lemma sessions_of_fresh:
  assumes "acc_inv m" "m_sessions m' = m_sessions m" "m_store m' = (m_store m)(m_nextSession m := s)"
  shows "sessions_of m' = sessions_of m"
proof -
  have "m_nextSession m \<notin> set (m_sessions m)" using assms(1) by (auto simp: acc_inv_def allocated_def)
  then show ?thesis
    by (auto simp: sessions_of_def assms(2,3) fun_eq_iff intro!: arg_cong [where f = length] filter_cong)
qed

lemma caps_launched:
  assumes "caps_inv m" "acc_inv m" "map_of (m_launches m) l = Some la" "l_phase la = Racing"
  shows "caps_inv (launched l fk now la m)"
proof (cases "m_shuttingDown m")
  case True
  let ?q = "blank_orphan\<lparr>o_session := Some (m_nextSession m), o_dir := l_dir la\<rparr>"
  let ?m1 = "new_core fk None now (l_dir la) m"
  let ?m2 = "add_orphan (m_nextRec m) (new_rec ?q ?m1)"
  have fresh: "m_nextSession m \<notin> set (m_sessions m)" using assms(2) by (auto simp: acc_inv_def allocated_def)
  have "caps_inv ?m1"
    by (rule caps_shrink [OF assms(1)]) (use fresh in \<open>auto simp: new_core_def\<close>)
  then have "caps_inv ?m2"
    by (intro caps_quiet [OF caps_new_rec quiet_add_orphan])
  then show ?thesis
    using True by (simp add: launched_def Let_def caps_upd_launch)
next
  case False
  let ?i = "m_nextSession m" and ?f = "\<lambda>la. la\<lparr>l_phase := Settled (Inr (m_nextSession m))\<rparr>"
  define m' where "m' = launched l fk now la m"
  let ?g = "\<lambda>(k, v). (k, if k = l then ?f v else v)"
  have fresh: "?i \<notin> set (m_sessions m)" using assms(2) by (auto simp: acc_inv_def allocated_def)
  have sel: "m_launches m' = map ?g (m_launches m)" "m_sessions m' = m_sessions m @ [?i]"
    "m_store m' = (m_store m)(?i := new_Session fk (l_consumerId la) now)" "m_reserved m' = m_reserved m"
    "m_reservedByConsumer m' = m_reservedByConsumer m" "m_maxSessions m' = m_maxSessions m"
    "m_perConsumerMax m' = m_perConsumerMax m"
    using False fresh by (simp_all add: m'_def launched_def Let_def settle_launch_def upd_launch_def new_core_def
        set_add_def)
  note inv = assms(1) [unfolded caps_inv_def]
  note one = count_settled [OF launches_distinct [OF assms(2)] assms(3)]
  have c: "count (of_consumer c) (map ?g (m_launches m)) = count (of_consumer c) (m_launches m)" for c
    by (intro count_map_eq) (auto simp: of_consumer_def split: if_splits)
  have p: "count is_pending (map ?g (m_launches m)) + 1 = count is_pending (m_launches m)"
    by (rule one) (simp_all add: is_pending_def assms(4))
  have old: "count (\<lambda>j. s_consumerId (m_store m' j) = Some c) (m_sessions m) = sessions_of m c" for c
    unfolding sessions_of_def sel using fresh by (auto intro!: arg_cong [where f = length] filter_cong)
  have s: "sessions_of m' c = sessions_of m c + (if l_consumerId la = Some c then 1 else 0)" for c
    unfolding sessions_of_def [of m'] sel(2) using old [of c] by (simp add: sel(3) new_Session_def)
  have cp: "sessions_of m' c + count (\<lambda>p. of_consumer c p \<and> is_pending p) (map ?g (m_launches m))
      \<le> m_perConsumerMax m" if "c \<noteq> []" for c
  proof -
    have le: "sessions_of m c + count (\<lambda>p. of_consumer c p \<and> is_pending p) (m_launches m) \<le> m_perConsumerMax m"
      using inv that by blast
    show ?thesis
    proof (cases "l_consumerId la = Some c")
      case True
      then have "count (\<lambda>p. of_consumer c p \<and> is_pending p) (map ?g (m_launches m)) + 1 =
          count (\<lambda>p. of_consumer c p \<and> is_pending p) (m_launches m)"
        by (intro one) (simp_all add: is_pending_def of_consumer_def assms(4))
      then show ?thesis using le by (simp add: s True)
    next
      case False
      moreover have "count (\<lambda>p. of_consumer c p \<and> is_pending p) (map ?g (m_launches m)) \<le>
          count (\<lambda>p. of_consumer c p \<and> is_pending p) (m_launches m)"
        by (intro count_map_le) (auto simp: is_pending_def of_consumer_def split: if_splits)
      ultimately show ?thesis using le by (simp add: s)
    qed
  qed
  have "length (m_sessions m') + count is_pending (m_launches m') \<le> m_maxSessions m'"
    using inv p by (simp add: sel)
  moreover have "l_consumerId (snd p) \<noteq> Some []" if "p \<in> set (map ?g (m_launches m))" for p
    using that inv by (auto split: if_splits)
  moreover have "reserved_for m' = reserved_for m" by (simp add: reserved_for_def fun_eq_iff sel)
  ultimately have "caps_inv m'"
    unfolding caps_inv_def using inv cp c by (simp add: sel)
  then show ?thesis by (simp add: m'_def)
qed

lemma caps_launchTimedOut: "caps_inv m \<Longrightarrow> caps_inv (launchTimedOut l la m)"
  unfolding launchTimedOut_def Let_def
  by (intro caps_settle_launch, rule caps_same [OF caps_enqueue [OF caps_new_rec]]) simp_all

lemma count_drop_key:
  assumes "distinct (map fst xs)" "map_of xs l = Some la"
  shows "count P (filter (\<lambda>p. fst p \<noteq> l) xs) + (if P (l, la) then 1 else 0) = count P xs"
  using assms
proof (induction xs)
  case (Cons x xs)
  show ?case
  proof (cases "fst x = l")
    case True
    then have "filter (\<lambda>p. fst p \<noteq> l) xs = xs"
      using Cons.prems(1) by (intro filter_True) (auto simp: rev_image_eqI)
    then show ?thesis using Cons.prems True by (cases x) auto
  next
    case False
    then show ?thesis using Cons by (cases x) auto
  qed
qed simp

lemma caps_acquireFinally:
  assumes "caps_inv m" "acc_inv m" "map_of (m_launches m) l = Some la" "l_phase la = Settled res"
  shows "caps_inv (acquireFinally l la m)"
proof -
  define m' where "m' = acquireFinally l la m"
  note inv = assms(1) [unfolded caps_inv_def]
  note drop = count_drop_key [OF launches_distinct [OF assms(2)] assms(3)]
  have sel: "m_launches m' = filter (\<lambda>p. fst p \<noteq> l) (m_launches m)" "m_reserved m' = m_reserved m - 1"
    "m_sessions m' = m_sessions m" "m_maxSessions m' = m_maxSessions m" "m_perConsumerMax m' = m_perConsumerMax m"
    "sessions_of m' = sessions_of m"
    by (simp_all add: m'_def acquireFinally_def Let_def sessions_of_def fun_eq_iff)
  have np: "\<not> is_pending (l, la)" by (simp add: is_pending_def assms(4))
  have "m_reserved m' = length (m_launches m')"
    using inv drop [of "\<lambda>_. True"] by (simp add: sel)
  moreover have "reserved_for m' c = count (of_consumer c) (m_launches m')" for c
  proof -
    have n: "reserved_for m c = count (of_consumer c) (m_launches m)" using inv by blast
    show ?thesis
    proof (cases "l_consumerId la = Some c")
      case True
      then have one: "count (of_consumer c) (m_launches m') + 1 = reserved_for m c"
        using drop [of "of_consumer c"] n by (simp add: sel of_consumer_def)
      then obtain k where k: "map_of (m_reservedByConsumer m) c = Some (Suc k)"
        by (cases "map_of (m_reservedByConsumer m) c") (auto simp: reserved_for_def gr0_conv_Suc dest!: sym [of "_ + 1"])
      then show ?thesis using one True
        by (auto simp: reserved_for_def m'_def acquireFinally_def Let_def)
    next
      case False
      then show ?thesis
        using drop [of "of_consumer c"] n
        by (auto simp: sel of_consumer_def reserved_for_def m'_def acquireFinally_def Let_def split: option.splits)
    qed
  qed
  moreover have "length (m_sessions m') + count is_pending (m_launches m') \<le> m_maxSessions m'"
    using inv drop [of is_pending] np by (simp add: sel)
  moreover have "sessions_of m' c + count (\<lambda>p. of_consumer c p \<and> is_pending p) (m_launches m') \<le> m_perConsumerMax m'"
    if "c \<noteq> []" for c
  proof -
    have "sessions_of m c + count (\<lambda>p. of_consumer c p \<and> is_pending p) (m_launches m) \<le> m_perConsumerMax m"
      using inv that by blast
    then show ?thesis using drop [of "\<lambda>p. of_consumer c p \<and> is_pending p"] np by (simp add: sel)
  qed
  moreover have "\<forall>p \<in> set (m_launches m'). l_consumerId (snd p) \<noteq> Some []"
    using inv by (auto simp: sel)
  ultimately show ?thesis unfolding m'_def [symmetric] caps_inv_def by blast
qed

section \<open>The steps that only free capacity\<close>

lemma confirmed_dead_sel2 [simp]:
  "m_reserved (confirmed_dead i s m) = m_reserved m"
  "m_reservedByConsumer (confirmed_dead i s m) = m_reservedByConsumer m"
  "m_maxSessions (confirmed_dead i s m) = m_maxSessions m"
  "m_perConsumerMax (confirmed_dead i s m) = m_perConsumerMax m"
  by (simp_all add: confirmed_dead_def set_session_def)

lemma removeOwnedDir_sel2 [simp]:
  "m_reserved (removeOwnedDir i m) = m_reserved m"
  "m_reservedByConsumer (removeOwnedDir i m) = m_reservedByConsumer m"
  "m_maxSessions (removeOwnedDir i m) = m_maxSessions m"
  "m_perConsumerMax (removeOwnedDir i m) = m_perConsumerMax m"
  by (simp_all add: removeOwnedDir_def split: option.splits)

lemma caps_confirmed_dead:
  assumes "caps_inv m" "s_consumerId s = s_consumerId (m_store m i)"
    and "m_sessions m' = m_sessions m \<or> m_sessions m' = removeAll i (m_sessions m)"
    and "m_store m' = (m_store m)(i := s)" "m_reserved m' = m_reserved m"
    and "m_reservedByConsumer m' = m_reservedByConsumer m" "m_launches m' = m_launches m"
    and "m_maxSessions m' = m_maxSessions m" "m_perConsumerMax m' = m_perConsumerMax m"
  shows "caps_inv m'"
  by (rule caps_shrink [OF assms(1)]) (use assms in auto)

lemma caps_selfTeardownDone:
  assumes "caps_inv m" "acc_inv m" "map_of (m_launches m) l = Some la" "l_phase la = SelfTeardown r i"
  shows "caps_inv (selfTeardownDone l r i cl ok m)"
proof -
  have "(r, i) \<in> selfs m"
    using map_of_SomeD [OF assms(3)] assms(4) by (auto simp: selfs_def intro: rev_bexI)
  then have own: "owned_by m r i" "r \<notin> lates m"
    using assms(2) unfolding acc_inv_def self_ok_def by metis+
  have dead: "owner_dead (confirmed_dead i s m) r" for s
    using own(1) by (intro owner_dead_confirmed) (simp add: owned_by_def)
  have "caps_inv (settleReapedOrphan r (confirmed_dead i s m))"
    if "snd (teardown cl ok (m_store m i)) = Some s" for s
    using own(2) teardown_consumer [OF that]
    by (intro caps_quiet [OF caps_confirmed_dead [OF assms(1)] quiet_settle [OF dead]]) simp_all
  moreover have "caps_inv (m\<lparr>m_unconfirmed := x\<rparr>)" for x
    by (rule caps_same [OF assms(1)]) simp_all
  ultimately show ?thesis
    by (auto simp: selfTeardownDone_def split: option.splits intro!: caps_upd_launch caps_settle_launch)
qed

lemma caps_lateResolved: "caps_inv m \<Longrightarrow> acc_inv m \<Longrightarrow> caps_inv (lateResolved r d fk now m)"
  by (rule caps_shrink)
    (auto simp: lateResolved_def Let_def new_core_def upd_rec_def add_orphan_def acc_inv_def allocated_def)

lemma caps_lateTeardownDone:
  assumes "caps_inv m" "acc_inv m" "(r, i) \<in> set (m_reaping m)"
  shows "caps_inv (lateTeardownDone r i cl ok m)"
proof -
  let ?m1 = "m\<lparr>m_reaping := remove1 (r, i) (m_reaping m)\<rparr>"
  have own: "owned_by m r i" using assms by (simp add: acc_inv_def reaping_ok_def)
  have "r \<in> reapings m" using assms(3) by (rule rev_image_eqI) simp
  then have nl: "r \<notin> lates m" using assms(2) unfolding acc_inv_def late_ok_def by (metis disjoint_iff)
  have dead: "owner_dead (confirmed_dead i s ?m1) r" for s
    using own by (intro owner_dead_confirmed) (simp add: owned_by_def)
  have "caps_inv (settleReapedOrphan r (confirmed_dead i s ?m1))"
    if "snd (teardown cl ok (m_store m i)) = Some s" for s
    using nl teardown_consumer [OF that]
    by (intro caps_quiet [OF caps_confirmed_dead [OF assms(1)] quiet_settle [OF dead]]) simp_all
  moreover have "caps_inv (?m1\<lparr>m_unconfirmed := x\<rparr>)" for x
    by (rule caps_same [OF assms(1)]) simp_all
  ultimately show ?thesis
    by (auto simp: lateTeardownDone_def Let_def split: option.splits)
qed

lemma caps_lateRejected:
  assumes "caps_inv m"
  shows "caps_inv (lateRejected r d m)"
  unfolding lateRejected_def Let_def
  by (rule caps_quiet [OF _ quiet_sweep], rule caps_same [OF assms])
    (simp_all add: upd_rec_def add_orphan_def)

lemma caps_teardownDone: "caps_inv m \<Longrightarrow> caps_inv (teardownDone i cl ok m)"
  unfolding teardownDone_def
  by (auto split: option.splits intro: caps_confirmed_dead caps_same teardown_consumer)

lemma caps_reconfirmDone:
  assumes "caps_inv m" "acc_inv m"
  shows "caps_inv (reconfirmDone i ok m)"
proof -
  let ?m1 = "m\<lparr>m_reconfirming := remove1 i (m_reconfirming m)\<rparr>"
  let ?m2 = "\<lambda>s. removeOwnedDir i (confirmed_dead i s
      (?m1\<lparr>m_sessions := removeAll i (m_sessions ?m1), m_unconfirmed := removeAll i (m_unconfirmed ?m1)\<rparr>))"
  have m1: "caps_inv ?m1" by (rule caps_same [OF assms(1)]) simp_all
  have m2: "caps_inv (?m2 s)" if "snd (reconfirm ok (m_store m i)) = Some s" for s
    by (rule caps_confirmed_dead [OF assms(1) reconfirm_consumer [OF that]]) simp_all
  have "caps_inv (settleReapedOrphan r (?m2 s))"
    if s: "snd (reconfirm ok (m_store m i)) = Some s"
      and f: "find (\<lambda>r. o_session (m_recs (?m2 s) r) = Some i) (m_orphans (?m2 s)) = Some r" for r s
  proof (rule caps_quiet [OF m2 [OF s] quiet_settle])
    have sess: "o_session (m_recs m r) = Some i" using f by (auto simp: find_Some_iff)
    then show "owner_dead (?m2 s) r" by (simp add: owner_dead_def)
    show "r \<notin> lates (?m2 s)" using assms(2) sess by (auto simp: acc_inv_def late_ok_def)
  qed
  then show ?thesis
    using m1 m2 by (auto simp: reconfirmDone_def Let_def split: option.splits)
qed

lemma caps_beginTeardown: "caps_inv m \<Longrightarrow> caps_inv (beginTeardown i m)"
  by (erule caps_same) (simp_all add: beginTeardown_def)

lemma caps_release: "caps_inv m \<Longrightarrow> caps_inv (release i m)"
  by (simp add: release_def caps_beginTeardown)

lemma caps_fold: "(\<And>x m. caps_inv m \<Longrightarrow> caps_inv (f x m)) \<Longrightarrow> caps_inv m \<Longrightarrow> caps_inv (fold f xs m)"
  by (induction xs arbitrary: m) simp_all

lemma caps_composed:
  assumes "caps_inv m"
  shows "caps_inv (snd (reapIdle ttl now mx m))" "caps_inv (reapSweeps m)" "caps_inv (shutdownTeardowns m)"
    "caps_inv (shutdownSweeps m)"
  using assms
  by (simp_all add: reapIdle_def Let_def shutdownTeardowns_def shutdownSweeps_def caps_fold caps_release
      caps_beginTeardown caps_quiet [OF _ quiet_reapSweeps] caps_quiet [OF _ quiet_fold_sweep])

lemma caps_verdicts:
  assumes "caps_inv m" "acc_inv m"
  shows "caps_inv (sweepDone r out m)" "caps_inv (sweepFailed r m)"
  using assms quiet_sweepDone quiet_sweepFailed caps_quiet unfolding acc_inv_def by metis+

lemma caps_trivial:
  assumes "caps_inv m"
  shows "caps_inv (drainUnconfirmed m)" "caps_inv (shutdownBegin m)"
  by (rule caps_same [OF assms]; simp add: drainUnconfirmed_def shutdownBegin_def)+

lemma act_consumer: "s_consumerId (act a s) = s_consumerId s"
  by (cases a) (simp_all add: beginActivity_def endActivity_def touch_def Let_def)

lemma caps_use: "caps_inv m \<Longrightarrow> caps_inv (set_session i (act a (m_store m i)) m)"
  by (rule caps_shrink) (auto simp: set_session_def act_consumer)


lemma caps_step: "mstep m e m' \<Longrightarrow> acc_inv m \<Longrightarrow> caps_inv m \<Longrightarrow> caps_inv m'"
  by (induction rule: mstep.induct)
    (simp_all only: caps_acquire caps_dirMinted caps_launched caps_launchFailed caps_launchTimedOut
      caps_selfTeardownDone caps_settle_launch caps_acquireFinally caps_lateResolved caps_lateTeardownDone
      caps_lateRejected caps_release caps_teardownDone caps_trivial caps_reconfirmDone caps_composed caps_verdicts
      caps_use simp_thms)

lemma caps_init: "fresh_manager m \<Longrightarrow> caps_inv m"
  by (auto simp: fresh_manager_def new_SessionManager_def caps_inv_def reserved_for_def sessions_of_def)

interpretation caps: inductive_invariant fresh_manager mstep "\<lambda>m. acc_inv m \<and> caps_inv m"
  by unfold_locales (auto intro: acc_init acc_step caps_init caps_step)

end
