(* ===== verification/Session_Dirs.thy ===== *)
theory Session_Dirs
  imports Session_Caps
begin

text \<open>
  Profile directories: each minted directory has at any time one holder (a launch, a registered
  session, an orphan record, or the trash), it is removed at most once, and while a browser lives or
  a launch may still spawn one, its directory is not in the trash.
\<close>

datatype holder = HLaunch nat | HSession nat | HRec nat | HRemoved

definition launch_dirs :: "manager \<Rightarrow> (nat \<times> nat) set" where
  "launch_dirs m = {(l, d). \<exists>la. (l, la) \<in> set (m_launches m) \<and> pending (l_phase la) \<and> l_dir la = Some d}"

definition held :: "(nat \<Rightarrow> holder) \<Rightarrow> manager \<Rightarrow> bool" where
  "held owner m \<longleftrightarrow>
     (\<forall>l d. (l, d) \<in> launch_dirs m \<longrightarrow> owner d = HLaunch l \<and> d \<in> set (m_minted m)) \<and>
     (\<forall>i d. map_of (m_ownedDirs m) i = Some d \<longrightarrow> owner d = HSession i \<and> d \<in> set (m_minted m)) \<and>
     (\<forall>r d. o_dir (m_recs m r) = Some d \<longrightarrow> owner d = HRec r \<and> d \<in> set (m_minted m)) \<and>
     (\<forall>d \<in> set (m_removed m). owner d = HRemoved \<and> d \<in> set (m_minted m)) \<and>
     distinct (m_removed m)"

definition late_dirs :: "manager \<Rightarrow> bool" where
  "late_dirs m \<longleftrightarrow> (\<forall>r d. (r, Some d) \<in> set (m_late m) \<longrightarrow> o_dir (m_recs m r) = Some d)"

definition home :: "manager \<Rightarrow> nat \<Rightarrow> nat \<Rightarrow> bool" where
  \<comment> \<open>session \<open>i\<close> keeps directory \<open>d\<close>, itself or through its orphan record\<close>
  "home m i d \<longleftrightarrow>
     map_of (m_ownedDirs m) i = Some d \<or> (\<exists>r. o_session (m_recs m r) = Some i \<and> o_dir (m_recs m r) = Some d)"

definition homes :: "manager \<Rightarrow> bool" where
  "homes m \<longleftrightarrow> (\<forall>i \<in> set (m_alive m). \<forall>d. m_profile m i = Some d \<longrightarrow> home m i d)"

definition dirs_inv :: "manager \<Rightarrow> bool" where
  "dirs_inv m \<longleftrightarrow> (\<exists>owner. held owner m) \<and> late_dirs m \<and> homes m"

text \<open>Changes after which every holder holds what it held before, or less.\<close>

lemma dirs_keep:
  assumes "dirs_inv m" "launch_dirs m' \<subseteq> launch_dirs m"
    and "\<And>i d. map_of (m_ownedDirs m') i = Some d \<Longrightarrow> map_of (m_ownedDirs m) i = Some d"
    and "\<And>r. o_dir (m_recs m' r) = o_dir (m_recs m r)"
    and "m_removed m' = m_removed m" "set (m_minted m) \<subseteq> set (m_minted m')"
    and "set (m_late m') \<subseteq> set (m_late m)"
    and "\<And>i d. i \<in> set (m_alive m') \<Longrightarrow> m_profile m' i = Some d \<Longrightarrow>
      i \<in> set (m_alive m) \<and> m_profile m i = Some d \<and> (home m i d \<longrightarrow> home m' i d)"
  shows "dirs_inv m'"
proof -
  obtain owner where "held owner m" using assms(1) by (auto simp: dirs_inv_def)
  then have "held owner m'"
    unfolding held_def assms(5) using assms(2-4,6) by (auto; blast)
  moreover have "late_dirs m'"
    using assms(1,4,7) by (auto simp: dirs_inv_def late_dirs_def)
  moreover have "homes m'"
    using assms(1,8) by (auto simp: dirs_inv_def homes_def)
  ultimately show ?thesis by (auto simp: dirs_inv_def)
qed

text \<open>A directory \<open>d\<close> changes hands: \<open>h\<close> is its holder afterwards.\<close>

lemma dirs_move:
  assumes "held owner m"
    and "\<And>l e. (l, e) \<in> launch_dirs m' \<Longrightarrow> e \<noteq> d \<and> (l, e) \<in> launch_dirs m \<or> e = d \<and> h = HLaunch l"
    and "\<And>i e. map_of (m_ownedDirs m') i = Some e \<Longrightarrow>
      e \<noteq> d \<and> map_of (m_ownedDirs m) i = Some e \<or> e = d \<and> h = HSession i"
    and "\<And>r e. o_dir (m_recs m' r) = Some e \<Longrightarrow>
      e \<noteq> d \<and> o_dir (m_recs m r) = Some e \<or> e = d \<and> h = HRec r"
    and "\<And>e. e \<in> set (m_removed m') \<Longrightarrow> e \<noteq> d \<and> e \<in> set (m_removed m) \<or> e = d \<and> h = HRemoved"
    and "distinct (m_removed m')" "insert d (set (m_minted m)) \<subseteq> set (m_minted m')"
  shows "held (owner(d := h)) m'"
  unfolding held_def
proof (intro conjI allI impI ballI)
  note old = assms(1) [unfolded held_def]
  fix l e assume "(l, e) \<in> launch_dirs m'"
  then show "(owner(d := h)) e = HLaunch l" "e \<in> set (m_minted m')"
    using assms(2) [of l e] assms(7) old by auto
next
  note old = assms(1) [unfolded held_def]
  fix i e assume "map_of (m_ownedDirs m') i = Some e"
  then show "(owner(d := h)) e = HSession i" "e \<in> set (m_minted m')"
    using assms(3) [of i e] assms(7) old by auto
next
  note old = assms(1) [unfolded held_def]
  fix r e assume "o_dir (m_recs m' r) = Some e"
  then show "(owner(d := h)) e = HRec r" "e \<in> set (m_minted m')"
    using assms(4) [of r e] assms(7) old by auto
next
  note old = assms(1) [unfolded held_def]
  fix e assume "e \<in> set (m_removed m')"
  then show "(owner(d := h)) e = HRemoved" "e \<in> set (m_minted m')"
    using assms(5) [of e] assms(7) old by auto
qed (rule assms(6))

lemma held_unique:
  assumes "held owner m"
  shows "map_of (m_ownedDirs m) i = Some d \<Longrightarrow> map_of (m_ownedDirs m) j = Some d \<Longrightarrow> i = j"
    and "o_dir (m_recs m r) = Some d \<Longrightarrow> o_dir (m_recs m q) = Some d \<Longrightarrow> r = q"
    and "(l, d) \<in> launch_dirs m \<Longrightarrow> (k, d) \<in> launch_dirs m \<Longrightarrow> l = k"
    and "\<not> (map_of (m_ownedDirs m) i = Some d \<and> o_dir (m_recs m r) = Some d)"
    and "\<not> ((l, d) \<in> launch_dirs m \<and> map_of (m_ownedDirs m) i = Some d)"
    and "\<not> ((l, d) \<in> launch_dirs m \<and> o_dir (m_recs m r) = Some d)"
    and "d \<in> set (m_removed m) \<Longrightarrow> (l, d) \<notin> launch_dirs m \<and> map_of (m_ownedDirs m) i \<noteq> Some d \<and>
      o_dir (m_recs m r) \<noteq> Some d"
  using assms unfolding held_def by (metis holder.distinct holder.inject)+

section \<open>Orphan operations\<close>

lemma dirs_finalize:
  assumes "dirs_inv m" "owner_dead m r" "r \<notin> lates m"
  shows "dirs_inv (finalizeOrphan r m)"
proof (cases "o_dir (m_recs m r)")
  case None
  then show ?thesis
    by (intro dirs_keep [OF assms(1)]) (simp_all add: finalizeOrphan_def launch_dirs_def home_def)
next
  case (Some d)
  define m' where "m' = finalizeOrphan r m"
  have sel: "m_recs m' = (m_recs m)(r := (m_recs m r)\<lparr>o_dir := None\<rparr>)" "m_removed m' = m_removed m @ [d]"
    "m_launches m' = m_launches m" "m_ownedDirs m' = m_ownedDirs m" "m_minted m' = m_minted m"
    "m_late m' = m_late m" "m_alive m' = m_alive m" "m_profile m' = m_profile m"
    using Some by (simp_all add: m'_def finalizeOrphan_def upd_rec_def)
  have ld: "launch_dirs m' = launch_dirs m" by (simp add: launch_dirs_def sel)
  obtain owner where o: "held owner m" using assms(1) by (auto simp: dirs_inv_def)
  note u = held_unique [OF o]
  have "d \<in> set (m_minted m)" "d \<notin> set (m_removed m)"
    using o Some u(7) unfolding held_def by metis+
  then have "held (owner(d := HRemoved)) m'"
    using o Some u(2,4,6) by (intro dirs_move [OF o]) (auto simp: sel ld held_def split: if_splits)
  moreover have "late_dirs m'"
    using assms(1,3) unfolding dirs_inv_def late_dirs_def sel by (auto simp: rev_image_eqI)
  moreover have "homes m'"
    using assms(1,2) unfolding dirs_inv_def homes_def home_def sel owner_dead_def by (auto; metis fun_upd_apply)
  ultimately show ?thesis unfolding m'_def [symmetric] by (auto simp: dirs_inv_def)
qed

lemma dirs_ledger:
  assumes "dirs_inv m" "ledgers_only m m'" "m_removed m' = m_removed m"
    and "\<And>r. o_dir (m_recs m' r) = o_dir (m_recs m r)"
    and "\<And>r. o_session (m_recs m' r) = o_session (m_recs m r) \<or> owner_dead m r"
  shows "dirs_inv m'"
proof (rule dirs_keep [OF assms(1)])
  note eqs = ledgers_onlyD [OF assms(2)]
  show "launch_dirs m' \<subseteq> launch_dirs m" by (simp add: launch_dirs_def eqs)
  fix i d assume "i \<in> set (m_alive m')" "m_profile m' i = Some d"
  then show "i \<in> set (m_alive m) \<and> m_profile m i = Some d \<and> (home m i d \<longrightarrow> home m' i d)"
    using assms(4,5) unfolding eqs home_def owner_dead_def by metis
qed (simp_all add: assms(3,4) ledgers_onlyD [OF assms(2)])

lemma dirs_upd_rec:
  assumes "dirs_inv m" "\<And>q. o_dir (f q) = o_dir q" "\<And>q. o_session (f q) = o_session q"
  shows "dirs_inv (upd_rec r f m)"
  by (rule dirs_ledger [OF assms(1)]) (simp_all add: assms)

lemma dirs_add_orphan: "dirs_inv m \<Longrightarrow> dirs_inv (add_orphan r m)"
  by (erule dirs_ledger) simp_all

lemma dirs_lists:
  "dirs_inv m \<Longrightarrow> dirs_inv (m\<lparr>m_watch := xs\<rparr>)"
  "dirs_inv m \<Longrightarrow> dirs_inv (m\<lparr>m_orphans := ys\<rparr>)"
  "dirs_inv m \<Longrightarrow> dirs_inv (m\<lparr>m_orphans := ys, m_watch := xs\<rparr>)"
  by (erule dirs_ledger; simp)+

lemma dirs_sweep: "dirs_inv m \<Longrightarrow> dirs_inv (sweepOrphan r m)"
  by (auto simp: sweepOrphan_def intro: dirs_upd_rec dirs_lists)

lemma dirs_fold:
  "(\<And>x m. dirs_inv m \<Longrightarrow> dirs_inv (f x m)) \<Longrightarrow> dirs_inv m \<Longrightarrow> dirs_inv (fold f xs m)"
  by (induction xs arbitrary: m) simp_all

lemma dirs_settle:
  assumes "dirs_inv m" "owner_dead m r" "r \<notin> lates m"
  shows "dirs_inv (settleReapedOrphan r m)"
proof -
  have "dirs_inv (upd_rec r (\<lambda>q. q\<lparr>o_session := None\<rparr>) m)"
    by (rule dirs_ledger [OF assms(1)]) (simp_all add: assms(2))
  moreover have "dirs_inv (upd_rec r (\<lambda>q. q\<lparr>o_settleAfterSweep := True\<rparr>) m)"
    by (rule dirs_upd_rec [OF assms(1)]) simp_all
  ultimately show ?thesis
    unfolding settleReapedOrphan_def
    by (auto intro: dirs_sweep dirs_add_orphan dirs_finalize [OF assms])
qed

lemma dirs_watchLaunch: "dirs_inv m \<Longrightarrow> dirs_inv (watchLaunch r m)"
  by (simp add: watchLaunch_def enforceWatchCap_def Let_def dirs_lists)

lemma dirs_reapSweeps: "dirs_inv m \<Longrightarrow> dirs_inv (reapSweeps m)"
  unfolding reapSweeps_def Let_def enforceWatchCap_def by (intro dirs_fold dirs_sweep dirs_lists)

lemma dirs_resume:
  assumes "dirs_inv m1" "o_settleAfterSweep (m_recs m r)" "deferred_ok m" "quiet m m1"
  shows "dirs_inv (settleReapedOrphan r (upd_rec r (\<lambda>q. q\<lparr>o_settleAfterSweep := False\<rparr>) m1))"
proof (rule dirs_settle)
  show "dirs_inv (upd_rec r (\<lambda>q. q\<lparr>o_settleAfterSweep := False\<rparr>) m1)"
    by (rule dirs_upd_rec [OF assms(1)]) simp_all
  have "owner_dead m1 r"
    using assms(2-4) quiet_owner_dead unfolding deferred_ok_def by blast
  then show "owner_dead (upd_rec r (\<lambda>q. q\<lparr>o_settleAfterSweep := False\<rparr>) m1) r"
    by (simp add: owner_dead_def)
  have "m_late m1 = m_late m" using assms(4) by (simp add: quiet_def ledgers_onlyD(14))
  then show "r \<notin> lates (upd_rec r (\<lambda>q. q\<lparr>o_settleAfterSweep := False\<rparr>) m1)"
    using assms(2,3) unfolding deferred_ok_def upd_rec_sel by metis
qed

lemma dirs_sweepDone:
  assumes "dirs_inv m" "acc_inv m"
  shows "dirs_inv (sweepDone r out m)"
proof -
  define st where "st = (case out of SweepUnconfirmed x \<Rightarrow> Some x | _ \<Rightarrow> None)"
  define m1 where "m1 = upd_rec r (\<lambda>q. q\<lparr>o_sweeping := False, o_stamps := st\<rparr>) m"
  have q: "quiet m m1" unfolding m1_def by (rule quiet_upd_rec) simp_all
  have d1: "dirs_inv m1" unfolding m1_def by (rule dirs_upd_rec [OF assms(1)]) simp_all
  have def: "deferred_ok m" and a1: "acc_inv m1" using assms(2) acc_quiet [OF assms(2) q] by (simp_all add: acc_inv_def)
  have same: "o_settleAfterSweep (m_recs m1 r) = o_settleAfterSweep (m_recs m r)" by (simp add: m1_def)
  have fin: "dirs_inv (finalizeOrphan r m1)" if "o_session (m_recs m1 r) = None" "o_settled (m_recs m1 r)"
    using that a1 by (intro dirs_finalize [OF d1 owner_dead_None]) (auto simp: acc_inv_def late_ok_def)
  show ?thesis
    using dirs_resume [OF d1 _ def q] same fin d1
    by (auto simp: sweepDone_def Let_def dirs_watchLaunch dirs_lists dirs_add_orphan simp flip: st_def m1_def
        split: sweep_outcome.splits)
qed

lemma dirs_sweepFailed:
  assumes "dirs_inv m" "acc_inv m"
  shows "dirs_inv (sweepFailed r m)"
proof -
  define m1 where "m1 = upd_rec r (\<lambda>q. q\<lparr>o_sweeping := False\<rparr>) m"
  have q: "quiet m m1" unfolding m1_def by (rule quiet_upd_rec) simp_all
  have d1: "dirs_inv m1" unfolding m1_def by (rule dirs_upd_rec [OF assms(1)]) simp_all
  have def: "deferred_ok m" using assms(2) by (simp add: acc_inv_def)
  have same: "o_settleAfterSweep (m_recs m1 r) = o_settleAfterSweep (m_recs m r)" by (simp add: m1_def)
  show ?thesis
    using dirs_resume [OF d1 _ def q] same d1
    by (auto simp: sweepFailed_def Let_def dirs_lists dirs_add_orphan simp flip: m1_def)
qed

section \<open>Launches\<close>

text \<open>A launch that stops being pending hands its directory to a record, a session, or no one.\<close>

lemma launch_dirs_upd:
  "launch_dirs (upd_launch l f m) =
     {(k, d). k \<noteq> l \<and> (k, d) \<in> launch_dirs m} \<union>
     {(k, d). k = l \<and> (\<exists>la. (l, la) \<in> set (m_launches m) \<and> pending (l_phase (f la)) \<and> l_dir (f la) = Some d)}"
  by (auto simp: launch_dirs_def upd_launch_launches split: if_splits)

lemma dirs_settle_launch:
  assumes "dirs_inv m" "\<And>la. \<not> pending (l_phase (f la))"
  shows "dirs_inv (upd_launch l f m)"
  by (rule dirs_keep [OF assms(1)]) (use assms(2) in \<open>auto simp: launch_dirs_upd home_def\<close>)

lemma dirs_to_rec:
  assumes "dirs_inv m" "acc_inv m" "map_of (m_launches m) l = Some la" "pending (l_phase la)"
    and "o_session q = None" "o_dir q = l_dir la" "\<And>la. \<not> pending (l_phase (f la))"
  shows "dirs_inv (upd_launch l f (new_rec q m))"
proof -
  let ?r = "m_nextRec m"
  define m' where "m' = upd_launch l f (new_rec q m)"
  have sel: "m_recs m' = (m_recs m)(?r := q)" "m_removed m' = m_removed m" "m_ownedDirs m' = m_ownedDirs m"
    "m_minted m' = m_minted m" "m_late m' = m_late m" "m_alive m' = m_alive m" "m_profile m' = m_profile m"
    by (simp_all add: m'_def) (simp_all add: new_rec_def)
  have ld: "launch_dirs m' = {(k, d). k \<noteq> l \<and> (k, d) \<in> launch_dirs m}"
    using assms(7) by (auto simp: m'_def launch_dirs_upd) (auto simp: launch_dirs_def)
  have nolate: "?r \<notin> lates m" using assms(2) unfolding acc_inv_def late_ok_def by blast
  have nosess: "o_session (m_recs m ?r) = None"
    using assms(2) by (cases "o_session (m_recs m ?r)") (auto simp: acc_inv_def allocated_def)
  obtain owner where o: "held owner m" using assms(1) by (auto simp: dirs_inv_def)
  note u = held_unique [OF o]
  have "\<exists>owner. held owner m'"
  proof (cases "l_dir la")
    case None
    have "held owner m'"
      using o assms(6) None unfolding held_def sel ld by auto
    then show ?thesis by blast
  next
    case (Some d)
    have mine: "(l, d) \<in> launch_dirs m"
      using map_of_SomeD [OF assms(3)] assms(4) Some by (auto simp: launch_dirs_def)
    have "held (owner(d := HRec ?r)) m'"
    proof (rule dirs_move [OF o])
      show "e \<noteq> d \<and> (k, e) \<in> launch_dirs m \<or> e = d \<and> HRec ?r = HLaunch k" if "(k, e) \<in> launch_dirs m'" for k e
        using that u(3) [OF mine] unfolding ld by blast
      show "e \<noteq> d \<and> map_of (m_ownedDirs m) i = Some e \<or> e = d \<and> HRec ?r = HSession i"
        if "map_of (m_ownedDirs m') i = Some e" for i e
        using that u(5) mine unfolding sel by blast
      show "e \<noteq> d \<and> o_dir (m_recs m k) = Some e \<or> e = d \<and> HRec ?r = HRec k"
        if "o_dir (m_recs m' k) = Some e" for k e
        using that u(6) [of l d k] mine assms(6) Some by (simp add: sel split: if_splits)
      show "e \<noteq> d \<and> e \<in> set (m_removed m) \<or> e = d \<and> HRec ?r = HRemoved" if "e \<in> set (m_removed m')" for e
        using that u(7) [of d] mine unfolding sel by blast
      show "distinct (m_removed m')" "insert d (set (m_minted m)) \<subseteq> set (m_minted m')"
        using o mine by (simp_all add: held_def sel)
    qed
    then show ?thesis by blast
  qed
  moreover have "late_dirs m'"
    using assms(1) nolate unfolding dirs_inv_def late_dirs_def sel by (auto simp: rev_image_eqI)
  moreover have "homes m'"
    using assms(1) nosess unfolding dirs_inv_def homes_def home_def sel by (auto; metis fun_upd_apply option.distinct(1))
  ultimately show ?thesis unfolding m'_def [symmetric] by (simp add: dirs_inv_def)
qed

lemma sweep_dir [simp]: "o_dir (m_recs (sweepOrphan r m) q) = o_dir (m_recs m q)"
  by (auto simp: sweepOrphan_def)

lemma upd_launch_enqueue: "upd_launch l f (enqueueOrphan r m) = enqueueOrphan r (upd_launch l f m)"
  by (intro manager.equality)
    (simp_all add: enqueueOrphan_def sweepOrphan_def add_orphan_def upd_rec_def upd_launch_def)

lemma upd_launch_adopt: "upd_launch l f (adopt r st fk c now d m) = adopt r st fk c now d (upd_launch l f m)"
  by (intro manager.equality) (simp_all add: adopt_def new_core_def add_orphan_def upd_rec_def upd_launch_def)

lemma dirs_enqueue: "dirs_inv m \<Longrightarrow> dirs_inv (enqueueOrphan r m)"
  unfolding enqueueOrphan_def by (intro dirs_sweep dirs_add_orphan)

lemma dirs_add_late:
  assumes "dirs_inv m" "\<And>d. dd = Some d \<Longrightarrow> o_dir (m_recs m r) = Some d"
  shows "dirs_inv (m\<lparr>m_late := m_late m @ [(r, dd)]\<rparr>)"
  using assms by (auto simp: dirs_inv_def held_def launch_dirs_def late_dirs_def homes_def home_def)

lemma dirs_launchFailed:
  assumes "dirs_inv m" "acc_inv m" "map_of (m_launches m) l = Some la" "pending (l_phase la)"
  shows "dirs_inv (launchFailed l la m)"
proof (cases "l_dir la")
  case None
  then show ?thesis by (simp add: launchFailed_def settle_launch_def dirs_settle_launch assms(1))
next
  case (Some d)
  have "dirs_inv (upd_launch l (\<lambda>la. la\<lparr>l_phase := Settled (Inl (CORE_LAUNCH, LaunchFailed))\<rparr>)
      (new_rec (orphan_of_launch la True) m))"
    by (rule dirs_to_rec [OF assms]) (simp_all add: orphan_of_launch_def blank_orphan_def)
  then show ?thesis
    using Some by (simp add: launchFailed_def settle_launch_def upd_launch_enqueue dirs_enqueue)
qed

lemma dirs_launchTimedOut:
  assumes "dirs_inv m" "acc_inv m" "map_of (m_launches m) l = Some la" "l_phase la = Racing"
  shows "dirs_inv (launchTimedOut l la m)"
proof -
  let ?r = "m_nextRec m" and ?f = "\<lambda>la. la\<lparr>l_phase := Settled (Inl (CORE_LAUNCH, LaunchTimeout))\<rparr>"
  define m1 where "m1 = enqueueOrphan ?r (upd_launch l ?f (new_rec (orphan_of_launch la False) m))"
  have "dirs_inv m1"
    unfolding m1_def
    by (rule dirs_enqueue, rule dirs_to_rec [OF assms(1-3)])
      (simp_all add: assms(4) orphan_of_launch_def blank_orphan_def)
  then have "dirs_inv (m1\<lparr>m_late := m_late m1 @ [(?r, l_dir la)]\<rparr>)"
    by (rule dirs_add_late) (simp add: m1_def enqueueOrphan_def, simp add: new_rec_def orphan_of_launch_def)
  moreover have "launchTimedOut l la m = m1\<lparr>m_late := m_late m1 @ [(?r, l_dir la)]\<rparr>"
    by (simp add: launchTimedOut_def Let_def settle_launch_def m1_def upd_launch_enqueue [symmetric])
      (simp add: upd_launch_def)
  ultimately show ?thesis by simp
qed

lemma dirs_adopt:
  assumes "dirs_inv m" "o_session (m_recs m r) = None"
    and "\<And>d. dd = Some d \<Longrightarrow> o_dir (m_recs m r) = Some d"
  shows "dirs_inv (adopt r st fk c now dd m)"
proof -
  define m' where "m' = adopt r st fk c now dd m"
  let ?i = "m_nextSession m"
  have sel: "m_recs m' = (m_recs m)(r := (m_recs m r)\<lparr>o_settled := st, o_session := Some ?i\<rparr>)"
    "m_removed m' = m_removed m" "m_ownedDirs m' = m_ownedDirs m" "m_launches m' = m_launches m"
    "m_minted m' = m_minted m" "m_late m' = m_late m" "m_alive m' = ?i # m_alive m"
    "m_profile m' = (m_profile m)(?i := dd)"
    by (simp_all add: m'_def) (simp_all add: adopt_def new_core_def add_orphan_def upd_rec_def)
  have ld: "launch_dirs m' = launch_dirs m" by (simp add: launch_dirs_def sel)
  have dir: "o_dir (m_recs m' q) = o_dir (m_recs m q)" for q by (simp add: sel)
  have old: "home m i d \<Longrightarrow> home m' i d" for i d
    using assms(2) unfolding home_def sel by (metis (mono_tags) fun_upd_apply option.distinct(1))
  have "home m' i d" if "i \<in> set (m_alive m')" "m_profile m' i = Some d" for i d
  proof (cases "i = ?i")
    case True
    then show ?thesis using that assms(3) by (auto simp: home_def sel)
  next
    case False
    then show ?thesis using that assms(1) old by (auto simp: dirs_inv_def homes_def sel)
  qed
  then have "homes m'" by (simp add: homes_def)
  moreover have "\<exists>owner. held owner m'" "late_dirs m'"
    using assms(1) unfolding dirs_inv_def held_def late_dirs_def ld dir unfolding sel by blast+
  ultimately show ?thesis unfolding m'_def [symmetric] by (simp add: dirs_inv_def)
qed

lemma launched_shutdown_eq:
  "m_shuttingDown m \<Longrightarrow> launched l fk now la m =
     adopt (m_nextRec m) False fk None now (l_dir la)
       (upd_launch l (\<lambda>la. la\<lparr>l_phase := SelfTeardown (m_nextRec m) (m_nextSession m)\<rparr>)
         (new_rec (blank_orphan\<lparr>o_dir := l_dir la\<rparr>) m))"
  by (intro manager.equality) (simp_all add: launched_def Let_def adopt_def new_rec_def new_core_def
        upd_rec_def add_orphan_def blank_orphan_def upd_launch_def)

lemma dirs_launched:
  assumes "dirs_inv m" "acc_inv m" "map_of (m_launches m) l = Some la" "l_phase la = Racing"
  shows "dirs_inv (launched l fk now la m)"
proof (cases "m_shuttingDown m")
  case True
  let ?f = "\<lambda>la. la\<lparr>l_phase := SelfTeardown (m_nextRec m) (m_nextSession m)\<rparr>"
  let ?q = "blank_orphan\<lparr>o_dir := l_dir la\<rparr>"
  have d0: "dirs_inv (upd_launch l ?f (new_rec ?q m))"
    by (rule dirs_to_rec [OF assms(1-3)]) (simp_all add: assms(4) blank_orphan_def)
  have "dirs_inv (adopt (m_nextRec m) False fk None now (l_dir la) (upd_launch l ?f (new_rec ?q m)))"
    by (rule dirs_adopt [OF d0]) (simp_all add: new_rec_def blank_orphan_def)
  then show ?thesis by (simp add: launched_shutdown_eq [OF True])
next
  case False
  let ?i = "m_nextSession m" and ?f = "\<lambda>la. la\<lparr>l_phase := Settled (Inr (m_nextSession m))\<rparr>"
  define m' where "m' = launched l fk now la m"
  have sel: "m_recs m' = m_recs m" "m_removed m' = m_removed m" "m_minted m' = m_minted m"
    "m_late m' = m_late m" "m_alive m' = ?i # m_alive m" "m_profile m' = (m_profile m)(?i := l_dir la)"
    "m_ownedDirs m' = (case l_dir la of None \<Rightarrow> m_ownedDirs m | Some d \<Rightarrow> alist_put ?i d (m_ownedDirs m))"
    using False by (simp_all add: m'_def launched_def Let_def settle_launch_def upd_launch_def new_core_def
        split: option.splits)
  have ld: "launch_dirs m' = {(k, d). k \<noteq> l \<and> (k, d) \<in> launch_dirs m}"
    using False by (auto simp: m'_def launched_def Let_def settle_launch_def launch_dirs_upd)
      (auto simp: launch_dirs_def new_core_def)
  have new: "?i \<notin> set (m_alive m)" using assms(2) by (auto simp: acc_inv_def allocated_def)
  obtain owner where o: "held owner m" using assms(1) by (auto simp: dirs_inv_def)
  note u = held_unique [OF o]
  have "\<exists>owner. held owner m'"
  proof (cases "l_dir la")
    case None
    then have "held owner m'" using o unfolding held_def sel ld by auto
    then show ?thesis by blast
  next
    case (Some d)
    have mine: "(l, d) \<in> launch_dirs m"
      using map_of_SomeD [OF assms(3)] assms(4) Some by (auto simp: launch_dirs_def)
    have "held (owner(d := HSession ?i)) m'"
    proof (rule dirs_move [OF o])
      show "e \<noteq> d \<and> (k, e) \<in> launch_dirs m \<or> e = d \<and> HSession ?i = HLaunch k" if "(k, e) \<in> launch_dirs m'" for k e
        using that u(3) [OF mine] unfolding ld by blast
      show "e \<noteq> d \<and> map_of (m_ownedDirs m) i = Some e \<or> e = d \<and> HSession ?i = HSession i"
        if "map_of (m_ownedDirs m') i = Some e" for i e
        using that u(5) [of l d i] mine Some by (simp add: sel split: if_splits)
      show "e \<noteq> d \<and> o_dir (m_recs m k) = Some e \<or> e = d \<and> HSession ?i = HRec k"
        if "o_dir (m_recs m' k) = Some e" for k e
        using that u(6) mine unfolding sel by blast
      show "e \<noteq> d \<and> e \<in> set (m_removed m) \<or> e = d \<and> HSession ?i = HRemoved" if "e \<in> set (m_removed m')" for e
        using that u(7) [of d] mine unfolding sel by blast
      show "distinct (m_removed m')" "insert d (set (m_minted m)) \<subseteq> set (m_minted m')"
        using o mine by (simp_all add: held_def sel)
    qed
    then show ?thesis by blast
  qed
  moreover have "late_dirs m'" using assms(1) by (simp add: dirs_inv_def late_dirs_def sel)
  moreover have "home m' i d" if "i \<in> set (m_alive m')" "m_profile m' i = Some d" for i d
  proof (cases "i = ?i")
    case False
    then have "home m i d" using that assms(1) by (auto simp: dirs_inv_def homes_def sel)
    then show ?thesis using False by (auto simp: home_def sel split: option.splits)
  qed (use that in \<open>simp add: home_def sel\<close>)
  ultimately show ?thesis unfolding m'_def [symmetric] by (simp add: dirs_inv_def homes_def)
qed

lemma dirs_call_factory:
  assumes "dirs_inv m" "acc_inv m" "map_of (m_launches m) l = Some la" "pending (l_phase la)"
  shows "dirs_inv (call_factory l th la m)"
proof (cases th)
  case False
  have "dirs_inv (upd_launch l (\<lambda>_. la\<lparr>l_phase := Racing\<rparr>) m)"
    by (rule dirs_keep [OF assms(1)])
      (use map_of_SomeD [OF assms(3)] assms(4) in \<open>auto simp: launch_dirs_upd home_def\<close>, auto simp: launch_dirs_def)
  then show ?thesis using False by (simp add: call_factory_def)
qed (simp add: call_factory_def dirs_launchFailed assms)

lemma dirs_same:
  assumes "dirs_inv m" "launch_dirs m' \<subseteq> launch_dirs m" "m_ownedDirs m' = m_ownedDirs m" "m_recs m' = m_recs m"
    "m_removed m' = m_removed m" "m_minted m' = m_minted m" "set (m_late m') \<subseteq> set (m_late m)"
    "set (m_alive m') \<subseteq> set (m_alive m)" "m_profile m' = m_profile m"
  shows "dirs_inv m'"
  by (rule dirs_keep [OF assms(1)]) (use assms(2-) in \<open>auto simp: home_def\<close>)

lemma dirs_acquire:
  assumes "dirs_inv m" "acc_inv m" "l \<notin> fst ` set (m_launches m)"
  shows "dirs_inv (snd (acquire l c cd th m))"
proof -
  let ?la = "\<lparr>l_consumerId = truthy c, l_dir = None, l_phase = Minting\<rparr>"
  let ?m1 = "\<lambda>y. m\<lparr>m_reserved := m_reserved m + 1, m_reservedByConsumer := y, m_launches := m_launches m @ [(l, ?la)]\<rparr>"
  have d: "dirs_inv (?m1 y)" for y
    by (rule dirs_same [OF assms(1)]) (auto simp: launch_dirs_def)
  have a: "acc_inv (?m1 y)" for y
    by (rule acc_simple [OF assms(2)])
      (use launches_distinct [OF assms(2)] assms(3) in \<open>auto simp: selfs_def\<close>)
  have "map_of (m_launches m) l = None" using assms(3) by (simp add: map_of_eq_None_iff)
  then have "dirs_inv (call_factory l th ?la (?m1 y))" for y
    by (intro dirs_call_factory d a) (simp_all add: map_add_def)
  then show ?thesis
    using assms(1) d unfolding acquire_def Let_def
    by (simp only: snd_conv split: if_split) (simp only: simp_thms)
qed

lemma dirs_dirMinted:
  assumes "dirs_inv m" "acc_inv m" "map_of (m_launches m) l = Some la" "l_phase la = Minting"
    and "\<forall>x. d = Some x \<longrightarrow> x \<notin> set (m_minted m)"
  shows "dirs_inv (dirMinted l d th la m)"
proof -
  let ?la = "la\<lparr>l_dir := d\<rparr>"
  define m1 where "m1 = upd_launch l (\<lambda>_. ?la)
      (m\<lparr>m_minted := (case d of None \<Rightarrow> m_minted m | Some x \<Rightarrow> x # m_minted m)\<rparr>)"
  have sel: "m_recs m1 = m_recs m" "m_removed m1 = m_removed m" "m_ownedDirs m1 = m_ownedDirs m"
    "m_minted m1 = (case d of None \<Rightarrow> m_minted m | Some x \<Rightarrow> x # m_minted m)"
    "m_late m1 = m_late m" "m_alive m1 = m_alive m" "m_profile m1 = m_profile m"
    by (simp_all add: m1_def)
  have ld: "launch_dirs m1 \<subseteq> {(k, e). k \<noteq> l \<and> (k, e) \<in> launch_dirs m} \<union> {(k, e). k = l \<and> d = Some e}"
    by (auto simp: m1_def launch_dirs_upd) (auto simp: launch_dirs_def)
  obtain owner where o: "held owner m" using assms(1) by (auto simp: dirs_inv_def)
  have "\<exists>owner. held owner m1"
  proof (cases d)
    case None
    then have "held owner m1" using o ld unfolding held_def sel by (auto; blast)
    then show ?thesis by blast
  next
    case (Some x)
    then have fresh: "x \<notin> set (m_minted m)" using assms(5) by simp
    have "held (owner(x := HLaunch l)) m1"
    proof (rule dirs_move [OF o])
      show "e \<noteq> x \<and> (k, e) \<in> launch_dirs m \<or> e = x \<and> HLaunch l = HLaunch k" if "(k, e) \<in> launch_dirs m1" for k e
        using that ld o fresh Some unfolding held_def by blast
      show "e \<noteq> x \<and> map_of (m_ownedDirs m) i = Some e \<or> e = x \<and> HLaunch l = HSession i"
        if "map_of (m_ownedDirs m1) i = Some e" for i e
        using that o fresh unfolding held_def sel by blast
      show "e \<noteq> x \<and> o_dir (m_recs m k) = Some e \<or> e = x \<and> HLaunch l = HRec k"
        if "o_dir (m_recs m1 k) = Some e" for k e
        using that o fresh unfolding held_def sel by blast
      show "e \<noteq> x \<and> e \<in> set (m_removed m) \<or> e = x \<and> HLaunch l = HRemoved" if "e \<in> set (m_removed m1)" for e
        using that o fresh unfolding held_def sel by blast
      show "distinct (m_removed m1)" "insert x (set (m_minted m)) \<subseteq> set (m_minted m1)"
        using o Some by (simp_all add: held_def sel)
    qed
    then show ?thesis by blast
  qed
  moreover have "late_dirs m1" "homes m1"
    using assms(1) by (simp_all add: dirs_inv_def late_dirs_def homes_def home_def sel)
  ultimately have d1: "dirs_inv m1" by (simp add: dirs_inv_def)
  have a1: "acc_inv m1"
    unfolding m1_def
    by (intro acc_upd_launch, rule acc_simple [OF assms(2)])
      (use assms(4) launches_distinct [OF assms(2)] in \<open>simp_all add: selfs_def\<close>)
  have "map_of (m_launches m1) l = Some ?la"
    using map_of_upd_launch [of "m\<lparr>m_minted := (case d of None \<Rightarrow> m_minted m | Some x \<Rightarrow> x # m_minted m)\<rparr>" l la] assms(3)
    by (simp add: m1_def)
  then show ?thesis
    unfolding dirMinted_def Let_def m1_def [symmetric]
    by (intro dirs_call_factory d1 a1) (simp_all add: assms(4))
qed

section \<open>Ends\<close>

lemma dirs_removeOwnedDir:
  assumes "dirs_inv m" "i \<notin> set (m_alive m)"
  shows "dirs_inv (removeOwnedDir i m)"
proof (cases "map_of (m_ownedDirs m) i")
  case (Some d)
  define m' where "m' = removeOwnedDir i m"
  have sel: "m_recs m' = m_recs m" "m_removed m' = m_removed m @ [d]" "m_minted m' = m_minted m"
    "m_late m' = m_late m" "m_alive m' = m_alive m" "m_profile m' = m_profile m"
    "map_of (m_ownedDirs m') = (map_of (m_ownedDirs m))(i := None)" "m_launches m' = m_launches m"
    using Some by (simp_all add: m'_def removeOwnedDir_def)
  have ld: "launch_dirs m' = launch_dirs m" by (simp add: launch_dirs_def sel)
  obtain owner where o: "held owner m" using assms(1) by (auto simp: dirs_inv_def)
  note u = held_unique [OF o]
  have "held (owner(d := HRemoved)) m'"
  proof (rule dirs_move [OF o])
    show "e \<noteq> d \<and> (k, e) \<in> launch_dirs m \<or> e = d \<and> HRemoved = HLaunch k" if "(k, e) \<in> launch_dirs m'" for k e
      using that u(5) Some unfolding ld by blast
    show "e \<noteq> d \<and> map_of (m_ownedDirs m) j = Some e \<or> e = d \<and> HRemoved = HSession j"
      if "map_of (m_ownedDirs m') j = Some e" for j e
      using that u(1) [OF Some, of j] by (auto simp: sel split: if_splits)
    show "e \<noteq> d \<and> o_dir (m_recs m k) = Some e \<or> e = d \<and> HRemoved = HRec k"
      if "o_dir (m_recs m' k) = Some e" for k e
      using that u(4) Some unfolding sel by blast
    show "e \<noteq> d \<and> e \<in> set (m_removed m) \<or> e = d \<and> HRemoved = HRemoved" if "e \<in> set (m_removed m')" for e
      using that by (auto simp: sel)
    have "d \<notin> set (m_removed m)" using u(7) Some by metis
    then show "distinct (m_removed m')" "insert d (set (m_minted m)) \<subseteq> set (m_minted m')"
      using o Some by (simp_all add: held_def sel)
  qed
  moreover have "late_dirs m'" using assms(1) by (simp add: dirs_inv_def late_dirs_def sel)
  moreover have "homes m'"
    using assms unfolding dirs_inv_def homes_def home_def sel by (auto; metis fun_upd_other)
  ultimately show ?thesis unfolding m'_def [symmetric] by (auto simp: dirs_inv_def)
qed (simp add: removeOwnedDir_def assms(1))

lemma confirmed_dead_sel3 [simp]:
  "m_minted (confirmed_dead i s m) = m_minted m" "m_profile (confirmed_dead i s m) = m_profile m"
  by (simp_all add: confirmed_dead_def set_session_def)

lemma dirs_confirmed_dead: "dirs_inv m \<Longrightarrow> dirs_inv (confirmed_dead i s m)"
  by (erule dirs_same) (auto simp: launch_dirs_def)

lemma dirs_teardownDone:
  assumes "dirs_inv m"
  shows "dirs_inv (teardownDone i cl ok m)"
proof -
  have "dirs_inv (m\<lparr>m_sessions := x, m_closing := y\<rparr>)" "dirs_inv (m\<lparr>m_unconfirmed := x, m_closing := y\<rparr>)" for x y
    by (rule dirs_same [OF assms]; simp add: launch_dirs_def)+
  then show ?thesis
    by (auto simp: teardownDone_def split: option.splits intro!: dirs_removeOwnedDir dirs_confirmed_dead)
qed

lemma dirs_selfTeardownDone:
  assumes "dirs_inv m" "acc_inv m" "map_of (m_launches m) l = Some la" "l_phase la = SelfTeardown r i"
  shows "dirs_inv (selfTeardownDone l r i cl ok m)"
proof -
  have "(r, i) \<in> selfs m"
    using map_of_SomeD [OF assms(3)] assms(4) by (auto simp: selfs_def intro: rev_bexI)
  then have own: "owned_by m r i" "r \<notin> lates m"
    using assms(2) unfolding acc_inv_def self_ok_def by metis+
  have dead: "owner_dead (confirmed_dead i s m) r" for s
    using own(1) by (intro owner_dead_confirmed) (simp add: owned_by_def)
  have "dirs_inv (settleReapedOrphan r (confirmed_dead i s m))" for s
    using own(2) by (intro dirs_settle dirs_confirmed_dead assms(1) dead) simp
  moreover have "dirs_inv (m\<lparr>m_unconfirmed := x\<rparr>)" for x
    by (rule dirs_same [OF assms(1)]) (simp_all add: launch_dirs_def)
  ultimately show ?thesis
    by (auto simp: selfTeardownDone_def settle_launch_def split: option.splits intro!: dirs_settle_launch)
qed

lemma dirs_lateTeardownDone:
  assumes "dirs_inv m" "acc_inv m" "(r, i) \<in> set (m_reaping m)"
  shows "dirs_inv (lateTeardownDone r i cl ok m)"
proof -
  let ?m1 = "m\<lparr>m_reaping := remove1 (r, i) (m_reaping m)\<rparr>"
  have own: "owned_by m r i" using assms by (simp add: acc_inv_def reaping_ok_def)
  have "r \<in> reapings m" using assms(3) by (rule rev_image_eqI) simp
  then have nl: "r \<notin> lates m" using assms(2) unfolding acc_inv_def late_ok_def by (metis disjoint_iff)
  have dead: "owner_dead (confirmed_dead i s ?m1) r" for s
    using own by (intro owner_dead_confirmed) (simp add: owned_by_def)
  have d1: "dirs_inv ?m1" "dirs_inv (?m1\<lparr>m_unconfirmed := x\<rparr>)" for x
    by (rule dirs_same [OF assms(1)]; simp add: launch_dirs_def)+
  have "dirs_inv (settleReapedOrphan r (confirmed_dead i s ?m1))" for s
    using nl by (intro dirs_settle dirs_confirmed_dead d1(1) dead) simp
  then show ?thesis using d1 by (auto simp: lateTeardownDone_def Let_def split: option.splits)
qed

lemma dirs_lateResolved:
  assumes "dirs_inv m" "acc_inv m" "(r, d) \<in> set (m_late m)"
  shows "dirs_inv (lateResolved r d fk now m)"
proof -
  let ?m0 = "m\<lparr>m_late := remove1 (r, d) (m_late m), m_watch := removeAll r (m_watch m)\<rparr>"
  have "dirs_inv ?m0"
    by (rule dirs_same [OF assms(1)]) (auto simp: launch_dirs_def dest: subsetD [OF set_remove1_subset])
  then have "dirs_inv (adopt r True fk None now d ?m0)"
    using assms(1,3) late_facts(2) [OF assms(2,3)]
    by (intro dirs_adopt) (auto simp: dirs_inv_def late_dirs_def)
  then show ?thesis
    by (rule dirs_same) (simp_all add: launch_dirs_def lateResolved_def Let_def adopt_def new_core_def
        upd_rec_def add_orphan_def)
qed

lemma dirs_lateRejected:
  assumes "dirs_inv m"
  shows "dirs_inv (lateRejected r d m)"
proof -
  have "dirs_inv (m\<lparr>m_late := remove1 (r, d) (m_late m)\<rparr>)"
    by (rule dirs_same [OF assms]) (auto simp: launch_dirs_def dest: subsetD [OF set_remove1_subset])
  then have "dirs_inv (upd_rec r (\<lambda>q. q\<lparr>o_settled := True\<rparr>) (m\<lparr>m_late := remove1 (r, d) (m_late m)\<rparr>))"
    by (rule dirs_upd_rec) simp_all
  then show ?thesis by (auto simp: lateRejected_def Let_def intro: dirs_sweep dirs_add_orphan)
qed

lemma dirs_reconfirmDone:
  assumes "dirs_inv m" "acc_inv m"
  shows "dirs_inv (reconfirmDone i ok m)"
proof -
  let ?m1 = "m\<lparr>m_reconfirming := remove1 i (m_reconfirming m)\<rparr>"
  let ?m2 = "\<lambda>s. removeOwnedDir i (confirmed_dead i s
      (?m1\<lparr>m_sessions := removeAll i (m_sessions ?m1), m_unconfirmed := removeAll i (m_unconfirmed ?m1)\<rparr>))"
  have d1: "dirs_inv ?m1" "dirs_inv (?m1\<lparr>m_sessions := x, m_unconfirmed := y\<rparr>)" for x y
    by (rule dirs_same [OF assms(1)]; simp add: launch_dirs_def)+
  have d2: "dirs_inv (?m2 s)" for s
    by (intro dirs_removeOwnedDir dirs_confirmed_dead d1(2)) simp
  have "dirs_inv (settleReapedOrphan r (?m2 s))"
    if f: "find (\<lambda>r. o_session (m_recs (?m2 s) r) = Some i) (m_orphans (?m2 s)) = Some r" for r s
  proof (rule dirs_settle [OF d2])
    have sess: "o_session (m_recs m r) = Some i" using f by (auto simp: find_Some_iff)
    then show "owner_dead (?m2 s) r" by (simp add: owner_dead_def)
    show "r \<notin> lates (?m2 s)" using assms(2) sess by (auto simp: acc_inv_def late_ok_def)
  qed
  then show ?thesis
    using d1 d2 by (auto simp: reconfirmDone_def Let_def split: option.splits)
qed

lemma dirs_beginTeardown: "dirs_inv m \<Longrightarrow> dirs_inv (beginTeardown i m)"
  by (erule dirs_same) (simp_all add: beginTeardown_def launch_dirs_def)

lemma dirs_release: "dirs_inv m \<Longrightarrow> dirs_inv (release i m)"
  by (simp add: release_def dirs_beginTeardown)

lemma dirs_acquireFinally: "dirs_inv m \<Longrightarrow> dirs_inv (acquireFinally l la m)"
  by (erule dirs_same) (auto simp: acquireFinally_def Let_def launch_dirs_def)

lemma dirs_composed:
  assumes "dirs_inv m"
  shows "dirs_inv (snd (reapIdle ttl now mx m))" "dirs_inv (shutdownTeardowns m)" "dirs_inv (shutdownSweeps m)"
  using assms
  by (simp_all add: reapIdle_def Let_def shutdownTeardowns_def shutdownSweeps_def dirs_fold dirs_release
      dirs_beginTeardown dirs_sweep)

lemma dirs_trivial:
  assumes "dirs_inv m"
  shows "dirs_inv (drainUnconfirmed m)" "dirs_inv (shutdownBegin m)" "dirs_inv (set_session i s m)"
    "dirs_inv (settle_launch l res m)"
  by (rule dirs_same [OF assms]; simp add: drainUnconfirmed_def shutdownBegin_def set_session_def launch_dirs_def)+
    (simp add: settle_launch_def dirs_settle_launch assms)

lemma dirs_rejected:
  "dirs_inv m \<Longrightarrow> acc_inv m \<Longrightarrow> map_of (m_launches m) l = Some la \<Longrightarrow> l_phase la = Racing \<Longrightarrow>
     dirs_inv (launchFailed l la m)"
  by (rule dirs_launchFailed) simp_all

lemma dirs_step: "mstep m e m' \<Longrightarrow> acc_inv m \<Longrightarrow> dirs_inv m \<Longrightarrow> dirs_inv m'"
proof (induction rule: mstep.induct)
  case (minted m l la d th)
  then show ?case by (intro dirs_dirMinted)
qed (simp_all only: dirs_acquire dirs_launched dirs_rejected dirs_launchTimedOut
      dirs_selfTeardownDone dirs_acquireFinally dirs_lateResolved dirs_lateTeardownDone
      dirs_lateRejected dirs_release dirs_teardownDone dirs_trivial dirs_reconfirmDone dirs_composed dirs_sweepDone
      dirs_sweepFailed dirs_reapSweeps simp_thms)

lemma dirs_init: "fresh_manager m \<Longrightarrow> dirs_inv m"
  by (auto simp: fresh_manager_def new_SessionManager_def dirs_inv_def held_def launch_dirs_def late_dirs_def
      homes_def blank_orphan_def)

interpretation dirs: inductive_invariant fresh_manager mstep "\<lambda>m. acc_inv m \<and> dirs_inv m"
  by unfold_locales (auto intro: acc_init acc_step dirs_init dirs_step)

end
