(* ===== verification/Session_Safety.thy ===== *)
theory Session_Safety
  imports Session_Dirs
begin

text \<open>
  What the session manager promises its callers, read off the invariants: capacity that never
  understates the live browsers, caps that hold under concurrent acquires, reservations that cannot
  leak, profile directories that are never removed under a browser, a shutdown that admits nothing,
  and a watch list that stays bounded.
\<close>

lemma alive_bounded: "accounted m \<Longrightarrow> card (set (m_alive m)) \<le> activeCount m"
proof -
  assume a: "accounted m"
  have "set (m_alive m) \<subseteq> set (m_sessions m) \<union> (\<lambda>r. the (o_session (m_recs m r))) ` set (m_orphans m)"
    using a by (force simp: accounted_def)
  then have "card (set (m_alive m)) \<le> card (set (m_sessions m) \<union> (\<lambda>r. the (o_session (m_recs m r))) ` set (m_orphans m))"
    by (intro card_mono) simp_all
  also have "\<dots> \<le> card (set (m_sessions m)) + card ((\<lambda>r. the (o_session (m_recs m r))) ` set (m_orphans m))"
    by (rule card_Un_le)
  also have "\<dots> \<le> length (m_sessions m) + length (m_orphans m)"
    by (intro add_mono card_length order_trans [OF card_image_le card_length]) simp
  finally show ?thesis by (simp add: activeCount_def)
qed

text \<open>A run with a wedged launch that resolves after its deadline.\<close>

definition late_run :: "event list" where
  "late_run = [Acquire 0 (Some ''a'') False False, DirMinted 0 (Some 7) False, LaunchDeadline 0, AcquireFinally 0,
     SweepDone 0 SweepConfirmed, LateResolved 0 True 5]"

definition late_state :: manager where
  "late_state = the (run exec late_run (new_SessionManager 1 (Some 1)))"

lemma late_state_reachable: "reachable fresh_manager mstep late_state"
proof -
  have "run exec late_run (new_SessionManager 1 (Some 1)) \<noteq> None" by code_simp
  then show ?thesis unfolding late_state_def by (auto intro: run_exec_reachable)
qed



text \<open>An acquire is admitted only into room that exists: when \<open>acquire\<close> does not refuse, the browsers
  alive and the launches in flight are together below the ceiling, the consumer's sessions and launches
  are below its cap, and no shutdown has begun.\<close>

theorem admission_into_real_room:
  assumes "reachable fresh_manager mstep m" "fst (acquire l c cd th m) = None"
  shows "card (set (m_alive m)) + length (m_launches m) < m_maxSessions m \<and> \<not> m_shuttingDown m \<and>
    (c \<noteq> None \<and> c \<noteq> Some [] \<longrightarrow>
      sessions_of m (the c) + count (of_consumer (the c)) (m_launches m) < m_perConsumerMax m)"
proof -
  have inv: "acc_inv m" "caps_inv m" using caps.always [OF assms(1)] by simp_all
  have "m_reserved m = length (m_launches m)" "reserved_for m k = count (of_consumer k) (m_launches m)" for k
    using inv(2) by (simp_all add: caps_inv_def)
  moreover have "card (set (m_alive m)) \<le> activeCount m" using inv(1) by (simp add: acc_inv_def alive_bounded)
  ultimately show ?thesis
    using assms(2)
    by (auto simp: acquire_def Let_def js_truthy_def countForConsumer_def sessions_of_def reserved_for_def
        split: if_splits)
qed

theorem admission_into_real_room_witness:
  "card (set (m_alive (new_SessionManager 2 None))) + length (m_launches (new_SessionManager 2 None))
     < m_maxSessions (new_SessionManager 2 None)"
proof -
  have r: "reachable fresh_manager mstep (new_SessionManager 2 None)" by (rule reachable.start) simp
  have "fst (acquire 0 (Some ''a'') False False (new_SessionManager 2 None)) = None" by code_simp
  from admission_into_real_room [OF r this] show ?thesis by blast
qed

text \<open>The caps hold whatever acquires, launches and teardowns interleave: registered sessions plus the
  launches that may still register one never exceed the global ceiling, nor those of one consumer its cap.\<close>

theorem caps_hold:
  assumes "reachable fresh_manager mstep m"
  shows "length (m_sessions m) + count is_pending (m_launches m) \<le> m_maxSessions m \<and>
    (c \<noteq> [] \<longrightarrow> sessions_of m c + count (\<lambda>p. of_consumer c p \<and> is_pending p) (m_launches m) \<le> m_perConsumerMax m)"
  using caps.always [OF assms] by (simp add: caps_inv_def)

definition full_run :: "event list" where
  "full_run = [Acquire 0 (Some ''a'') True False, Launched 0 True 5, Acquire 1 (Some ''a'') True False, Acquire 2 None True False]"

definition full_state :: manager where
  "full_state = the (run exec full_run (new_SessionManager 2 None))"

theorem caps_hold_witness:
  "length (m_sessions full_state) + count is_pending (m_launches full_state) \<le> 2 \<and>
   m_sessions full_state = [0] \<and> sessions_of full_state ''a'' = 1"
proof -
  have "run exec full_run (new_SessionManager 2 None) \<noteq> None" by code_simp
  then have r: "reachable fresh_manager mstep full_state"
    unfolding full_state_def by (auto intro: run_exec_reachable)
  have "m_maxSessions full_state = 2" by code_simp
  moreover have "m_sessions full_state = [0]" "sessions_of full_state ''a'' = 1" by code_simp+
  ultimately show ?thesis using caps_hold [OF r] by simp
qed

text \<open>C10: a reserved slot never leaks and is never freed twice: the reserved counts, global and per
  consumer, are exactly the acquires in flight, so once every acquire has returned, a wedged, failed or
  timed-out launch included, nothing stays reserved.\<close>

theorem reservations_exact:
  assumes "reachable fresh_manager mstep m"
  shows "m_reserved m = length (m_launches m) \<and> reserved_for m c = count (of_consumer c) (m_launches m) \<and>
    (m_launches m = [] \<longrightarrow> m_reserved m = 0 \<and> reserved_for m c = 0)"
proof -
  have "caps_inv m" using caps.always [OF assms] by simp
  then have "m_reserved m = length (m_launches m)" "reserved_for m c = count (of_consumer c) (m_launches m)"
    by (simp_all add: caps_inv_def)
  then show ?thesis by simp
qed

theorem reservations_exact_witness:
  "m_reserved late_state = 0 \<and> reserved_for late_state ''a'' = 0"
proof -
  have "m_launches late_state = []" by code_simp
  then show ?thesis using reservations_exact [OF late_state_reachable, of "''a''"] by simp
qed



section \<open>Shutdown\<close>

lemma ledgers_then:
  "ledgers_only m x \<Longrightarrow> ledgers_only m (upd_rec r f x)" "ledgers_only m x \<Longrightarrow> ledgers_only m (add_orphan r x)"
  "ledgers_only m x \<Longrightarrow> ledgers_only m (x\<lparr>m_orphans := os\<rparr>)" "ledgers_only m x \<Longrightarrow> ledgers_only m (x\<lparr>m_watch := ws\<rparr>)"
  "ledgers_only m x \<Longrightarrow> ledgers_only m (x\<lparr>m_orphans := os, m_watch := ws\<rparr>)"
  by (erule ledgers_only_trans, rule ledgers_only_updates)+

lemma ledgers_then_removed:
  assumes "ledgers_only m x"
  shows "ledgers_only m (x\<lparr>m_orphans := os, m_watch := ws, m_removed := ds\<rparr>)"
proof -
  have "ledgers_only (x\<lparr>m_orphans := os, m_watch := ws\<rparr>) ((x\<lparr>m_orphans := os, m_watch := ws\<rparr>)\<lparr>m_removed := ds\<rparr>)"
    by (rule ledgers_only_updates)
  from ledgers_only_trans [OF ledgers_then(5) [OF assms] this] show ?thesis by simp
qed

lemma ledgers_ops:
  "ledgers_only m x \<Longrightarrow> ledgers_only m (sweepOrphan r x)" "ledgers_only m x \<Longrightarrow> ledgers_only m (finalizeOrphan r x)"
  "ledgers_only m x \<Longrightarrow> ledgers_only m (enforceWatchCap n x)" "ledgers_only m x \<Longrightarrow> ledgers_only m (watchLaunch r x)"
  "ledgers_only m x \<Longrightarrow> ledgers_only m (settleReapedOrphan r x)"
  by (auto simp: sweepOrphan_def finalizeOrphan_def enforceWatchCap_def watchLaunch_def settleReapedOrphan_def Let_def
      split: option.splits intro!: ledgers_then ledgers_then_removed)

lemma ledgers_fold: "ledgers_only m x \<Longrightarrow> ledgers_only m (fold sweepOrphan rs x)"
  by (induction rs arbitrary: x) (auto intro: ledgers_ops)

lemma ledgers_verdicts: "ledgers_only m (sweepDone r out m)" "ledgers_only m (sweepFailed r m)"
  by (auto simp: sweepDone_def sweepFailed_def Let_def split: sweep_outcome.splits intro!: ledgers_ops ledgers_then)

definition only_dead_leave :: "manager \<Rightarrow> manager \<Rightarrow> bool" where
  "only_dead_leave m m' \<longleftrightarrow>
     (\<forall>i \<in> set (m_sessions m). i \<in> set (m_sessions m') \<or> i \<notin> set (m_alive m')) \<and>
     (m_shuttingDown m \<longrightarrow> m_shuttingDown m' \<and> set (m_sessions m') \<subseteq> set (m_sessions m))"

lemma only_dead_ledgers: "only_dead_leave m m' \<Longrightarrow> ledgers_only m' m'' \<Longrightarrow> only_dead_leave m m''"
  by (simp add: only_dead_leave_def ledgers_onlyD)

lemma only_dead_same:
  "m_sessions m' = m_sessions m \<Longrightarrow> m_shuttingDown m' = m_shuttingDown m \<Longrightarrow> only_dead_leave m m'"
  by (simp add: only_dead_leave_def)

lemma only_dead_quiet: "ledgers_only m m' \<Longrightarrow> only_dead_leave m m'"
  by (simp add: only_dead_leave_def ledgers_onlyD)

lemma only_dead_upd_launch [simp]: "only_dead_leave m (upd_launch l f m') = only_dead_leave m m'"
  by (simp add: only_dead_leave_def)

lemma only_dead_settle_launch [simp]: "only_dead_leave m (settle_launch l res m') = only_dead_leave m m'"
  by (simp add: settle_launch_def)

lemma ledgers_enqueue: "ledgers_only m x \<Longrightarrow> ledgers_only m (enqueueOrphan r x)"
  unfolding enqueueOrphan_def by (intro ledgers_ops ledgers_then)

lemma shuttingDown_frame [simp]:
  "m_shuttingDown (confirmed_dead i s m) = m_shuttingDown m" "m_shuttingDown (removeOwnedDir i m) = m_shuttingDown m"
  "m_shuttingDown (beginTeardown i m) = m_shuttingDown m" "m_shuttingDown (new_rec q m) = m_shuttingDown m"
  by (simp_all add: confirmed_dead_def set_session_def removeOwnedDir_def beginTeardown_def new_rec_def
      split: option.splits)

lemma only_dead_op:
  "only_dead_leave m x \<Longrightarrow> only_dead_leave m (enqueueOrphan r x)"
  "only_dead_leave m x \<Longrightarrow> only_dead_leave m (settleReapedOrphan r x)"
  "only_dead_leave m x \<Longrightarrow> only_dead_leave m (sweepOrphan r x)"
  by (erule only_dead_ledgers, intro ledgers_enqueue ledgers_ops ledgers_only_refl)+

lemma only_dead_new_rec: "only_dead_leave m (new_rec q m)"
  by (rule only_dead_same) simp_all

lemma only_dead_launchFailed: "only_dead_leave m (launchFailed l la m)"
  by (simp add: launchFailed_def only_dead_op only_dead_new_rec only_dead_same)

lemma only_dead_call_factory: "only_dead_leave m (call_factory l th la m)"
  by (simp add: call_factory_def only_dead_launchFailed only_dead_same)

lemma only_dead_after: "m_sessions m' = m_sessions m \<Longrightarrow> m_shuttingDown m' = m_shuttingDown m \<Longrightarrow>
    only_dead_leave m' m'' \<Longrightarrow> only_dead_leave m m''"
  by (simp add: only_dead_leave_def)

lemma only_dead_acquire: "only_dead_leave m (snd (acquire l c cd th m))"
  unfolding acquire_def Let_def
  by (auto simp: only_dead_same intro!: only_dead_after [OF _ _ only_dead_call_factory])

lemma only_dead_timedOut: "only_dead_leave m (launchTimedOut l la m)"
proof -
  have "only_dead_leave m (enqueueOrphan r (new_rec q m))" for r q
    by (intro only_dead_op only_dead_new_rec)
  then show ?thesis by (simp add: launchTimedOut_def Let_def only_dead_leave_def settle_launch_def)
qed

lemma only_dead_launched:
  "only_dead_leave m (launched l fk now la m)"
  by (auto simp: launched_def Let_def only_dead_leave_def settle_launch_def)
    (auto simp: new_core_def add_orphan_def new_rec_def)

lemma only_dead_gone:
  "set (m_sessions m) - {i} \<subseteq> set (m_sessions m') \<Longrightarrow> set (m_sessions m') \<subseteq> set (m_sessions m) \<Longrightarrow> i \<notin> set (m_alive m') \<Longrightarrow>
     m_shuttingDown m' = m_shuttingDown m \<Longrightarrow> only_dead_leave m m'"
  by (auto simp: only_dead_leave_def)

lemma only_dead_ends:
  "only_dead_leave m (selfTeardownDone l r i cl ok m)" "only_dead_leave m (lateTeardownDone r i cl ok m)"
  "only_dead_leave m (teardownDone i cl ok m)" "only_dead_leave m (reconfirmDone i ok m)"
proof -
  have c: "only_dead_leave m (confirmed_dead i s m)" for s by (rule only_dead_same) simp_all
  show "only_dead_leave m (selfTeardownDone l r i cl ok m)"
    by (auto simp: selfTeardownDone_def only_dead_same only_dead_op(2) [OF c] split: option.splits)
  let ?m1 = "m\<lparr>m_reaping := remove1 (r, i) (m_reaping m)\<rparr>"
  have "only_dead_leave m (confirmed_dead i s ?m1)" for s by (rule only_dead_same) simp_all
  then show "only_dead_leave m (lateTeardownDone r i cl ok m)"
    by (auto simp: lateTeardownDone_def Let_def only_dead_same only_dead_op(2) split: option.splits)
  show "only_dead_leave m (teardownDone i cl ok m)"
    by (auto simp: teardownDone_def only_dead_same split: option.splits intro!: only_dead_gone [where i = i])
  let ?m2 = "\<lambda>s. removeOwnedDir i (confirmed_dead i s (m\<lparr>m_reconfirming := remove1 i (m_reconfirming m),
      m_sessions := removeAll i (m_sessions m), m_unconfirmed := removeAll i (m_unconfirmed m)\<rparr>))"
  have "only_dead_leave m (?m2 s)" for s by (rule only_dead_gone [where i = i]) auto
  then show "only_dead_leave m (reconfirmDone i ok m)"
    by (auto simp: reconfirmDone_def Let_def only_dead_same only_dead_op(2) split: option.splits)
qed

lemma fold_frame:
  assumes "\<And>x m. m_sessions (f x m) = m_sessions m" "\<And>x m. m_shuttingDown (f x m) = m_shuttingDown m"
  shows "only_dead_leave m (fold f xs m)"
  by (rule only_dead_same; induction xs arbitrary: m) (simp_all add: assms)

lemma only_dead_rest:
  "only_dead_leave m (lateResolved r d fk now m)" "only_dead_leave m (lateRejected r d m)"
  "only_dead_leave m (dirMinted l dd th la m)" "only_dead_leave m (acquireFinally l la m)"
  "only_dead_leave m (release i m)" "only_dead_leave m (drainUnconfirmed m)"
  "only_dead_leave m (snd (reapIdle ttl now mx m))" "only_dead_leave m (reapSweeps m)"
  "only_dead_leave m (shutdownTeardowns m)" "only_dead_leave m (shutdownSweeps m)"
  "only_dead_leave m (set_session i s m)" "only_dead_leave m (shutdownBegin m)"
proof -
  show "only_dead_leave m (lateResolved r d fk now m)"
    by (rule only_dead_same) (simp_all add: lateResolved_def Let_def new_core_def upd_rec_def add_orphan_def)
  have "only_dead_leave m (m\<lparr>m_late := xs\<rparr>)" for xs by (rule only_dead_same) simp_all
  then have late: "only_dead_leave m (m\<lparr>m_late := remove1 (r, d) (m_late m)\<rparr>)" .
  show "only_dead_leave m (lateRejected r d m)"
    unfolding lateRejected_def Let_def
    by (rule only_dead_ledgers [OF late]) (auto intro!: ledgers_ops ledgers_then)
  show "only_dead_leave m (dirMinted l dd th la m)"
    unfolding dirMinted_def Let_def
    by (rule only_dead_after [OF _ _ only_dead_call_factory]) simp_all
  show "only_dead_leave m (reapSweeps m)" "only_dead_leave m (shutdownSweeps m)"
    unfolding reapSweeps_def shutdownSweeps_def Let_def
    by (rule only_dead_quiet, intro ledgers_fold ledgers_ops ledgers_only_refl)+
  show "only_dead_leave m (snd (reapIdle ttl now mx m))" "only_dead_leave m (shutdownTeardowns m)"
    by (auto simp: reapIdle_def Let_def shutdownTeardowns_def release_def intro!: fold_frame split: if_splits)
qed (auto simp: acquireFinally_def Let_def release_def drainUnconfirmed_def set_session_def shutdownBegin_def
    only_dead_leave_def)

lemma only_dead_step: "mstep m e m' \<Longrightarrow> only_dead_leave m m'"
  by (induction rule: mstep.induct)
    (simp_all only: only_dead_acquire only_dead_launched only_dead_launchFailed only_dead_timedOut only_dead_ends
      only_dead_settle_launch only_dead_rest only_dead_quiet [OF ledgers_verdicts(1)]
      only_dead_quiet [OF ledgers_verdicts(2)] only_dead_same)

text \<open>A slot is freed only by a confirmed death, and a shutdown admits nothing: no step removes a
  session whose browser lives; and once a shutdown has begun it stays begun, no step registers a session, and
  every acquire is refused as shutting down.\<close>

theorem slots_and_shutdown:
  assumes "mstep m e m'"
  shows "(\<forall>i \<in> set (m_sessions m) - set (m_sessions m'). i \<notin> set (m_alive m')) \<and>
    (m_shuttingDown m \<longrightarrow> m_shuttingDown m' \<and> set (m_sessions m') \<subseteq> set (m_sessions m) \<and>
       acquire l c cd th m' = (Some (SESSION_LIMIT, ShuttingDown), m'))"
  using only_dead_step [OF assms] by (auto simp: only_dead_leave_def acquire_def)

theorem slots_and_shutdown_witness:
  "\<exists>m'. mstep full_state ShutdownBegin m' \<and>
     fst (acquire 9 None True False (shutdownTeardowns m')) = Some (SESSION_LIMIT, ShuttingDown)"
proof (intro exI conjI)
  show "mstep full_state ShutdownBegin (shutdownBegin full_state)" by (rule mstep.down)
  have "mstep (shutdownBegin full_state) ShutdownTeardowns (shutdownTeardowns (shutdownBegin full_state))"
    by (rule mstep.downTear) (simp add: shutdownBegin_def)
  from slots_and_shutdown [OF this, of 9 None True False]
  show "fst (acquire 9 None True False (shutdownTeardowns (shutdownBegin full_state))) = Some (SESSION_LIMIT, ShuttingDown)"
    by (simp add: shutdownBegin_def)
qed

section \<open>The watch list\<close>

lemma evict_keep: "length w + n \<le> MAX_WATCHED_LAUNCHES \<Longrightarrow> evict sw n w = w"
  by (subst evict.simps) simp

lemma evict_stuck: "find (\<lambda>r. \<not> sw r) w = None \<Longrightarrow> evict sw n w = w"
  by (subst evict.simps) simp

lemma evict_drop:
  "length w + n > MAX_WATCHED_LAUNCHES \<Longrightarrow> find (\<lambda>r. \<not> sw r) w = Some r \<Longrightarrow>
   evict sw n w = evict sw n (removeAll r w)"
  by (subst evict.simps) simp

definition evict_ok :: "(nat \<Rightarrow> bool) \<Rightarrow> nat \<Rightarrow> nat list \<Rightarrow> nat list \<Rightarrow> bool" where
  "evict_ok sw n w v \<longleftrightarrow> (length v + n \<le> MAX_WATCHED_LAUNCHES \<or> (\<forall>r \<in> set v. sw r)) \<and>
     set v \<subseteq> set w \<and> (\<forall>r \<in> set w. sw r \<longrightarrow> r \<in> set v)"

lemma evict_spec: "evict_ok sw n w (evict sw n w)"
proof (induction sw n w rule: evict.induct)
  case (1 sw n w)
  show ?case
  proof (cases "length w + n > MAX_WATCHED_LAUNCHES")
    case True
    show ?thesis
    proof (cases "find (\<lambda>r. \<not> sw r) w")
      case None
      then have "\<forall>r \<in> set w. sw r" by (simp add: find_None_iff)
      then show ?thesis by (simp add: evict_stuck [OF None] evict_ok_def)
    next
      case (Some r)
      then have "\<not> sw r" by (auto simp: find_Some_iff)
      then show ?thesis
        using "1.IH" [OF True Some] by (auto simp: evict_drop [OF True Some] evict_ok_def)
    qed
  qed (simp add: evict_keep evict_ok_def)
qed

lemma m_watch_watchLaunch:
  "m_watch (watchLaunch r m) = set_add r (evict (\<lambda>q. o_sweeping (m_recs m q)) 1 (m_watch m))"
  by (simp add: watchLaunch_def enforceWatchCap_def)

lemma set_add_length: "length (set_add r xs) \<le> length xs + 1"
  by (simp add: set_add_def)

lemma m_watch_enforceWatchCap:
  "m_watch (enforceWatchCap n m) = evict (\<lambda>q. o_sweeping (m_recs m q)) n (m_watch m)"
  by (simp add: enforceWatchCap_def)

text \<open>The watch list of still-pending wedged launches is bounded: after a launch is parked, or after
  the reaper's tick, it holds at most \<open>MAX_WATCHED_LAUNCHES\<close> records, unless all the others have a sweep in
  flight; an entry with a sweep in flight is never evicted.\<close>

theorem watch_list_bounded:
  "(length (m_watch (watchLaunch r m)) \<le> MAX_WATCHED_LAUNCHES \<or>
      (\<forall>q \<in> set (m_watch (watchLaunch r m)). q = r \<or> o_sweeping (m_recs m q))) \<and>
   (length (m_watch (enforceWatchCap 0 m)) \<le> MAX_WATCHED_LAUNCHES \<or>
      (\<forall>q \<in> set (m_watch (enforceWatchCap 0 m)). o_sweeping (m_recs m q))) \<and>
   (\<forall>q \<in> set (m_watch m). o_sweeping (m_recs m q) \<longrightarrow>
      q \<in> set (m_watch (watchLaunch r m)) \<and> q \<in> set (m_watch (enforceWatchCap 0 m)))"
proof (intro conjI)
  let ?sw = "\<lambda>q. o_sweeping (m_recs m q)"
  have e: "evict_ok ?sw n (m_watch m) (evict ?sw n (m_watch m))" for n by (rule evict_spec)
  show "length (m_watch (watchLaunch r m)) \<le> MAX_WATCHED_LAUNCHES \<or>
      (\<forall>q \<in> set (m_watch (watchLaunch r m)). q = r \<or> ?sw q)"
    using e [of 1] set_add_length [of r "evict ?sw 1 (m_watch m)"]
    unfolding m_watch_watchLaunch evict_ok_def set_set_add by fastforce
  show "length (m_watch (enforceWatchCap 0 m)) \<le> MAX_WATCHED_LAUNCHES \<or>
      (\<forall>q \<in> set (m_watch (enforceWatchCap 0 m)). ?sw q)"
    using e [of 0] unfolding m_watch_enforceWatchCap evict_ok_def by simp
  show "\<forall>q \<in> set (m_watch m). ?sw q \<longrightarrow>
      q \<in> set (m_watch (watchLaunch r m)) \<and> q \<in> set (m_watch (enforceWatchCap 0 m))"
    using e [of 1] e [of 0]
    unfolding m_watch_watchLaunch m_watch_enforceWatchCap evict_ok_def set_set_add by blast
qed

theorem watch_list_bounded_witness:
  "length (m_watch (watchLaunch 40 ((new_SessionManager 1 None)\<lparr>m_watch := [0..<32]\<rparr>))) = 32"
proof -
  let ?m = "(new_SessionManager 1 None)\<lparr>m_watch := [0..<32]\<rparr>"
  have "length (m_watch (watchLaunch 40 ?m)) \<le> MAX_WATCHED_LAUNCHES \<or>
      (\<forall>q \<in> set (m_watch (watchLaunch 40 ?m)). q = 40 \<or> o_sweeping (m_recs ?m q))"
    using watch_list_bounded [of 40 ?m] by blast
  moreover have "length (m_watch (watchLaunch 40 ?m)) = 32" by code_simp
  ultimately show ?thesis by simp
qed

end
