(* ===== verification/Search_Router.thy ===== *)
theory Search_Router
  imports Prelude Transition
begin

text \<open>
  The ordered search-provider router (\<open>src/search/router.ts\<close>, with the vocabulary of
  \<open>src/search/types.ts\<close>): one circuit breaker and one set of counters per provider, shared by
  concurrent searches. A search is cut at its awaits (a provider call, a \<open>Retry-After\<close> sleep) into
  segments that run to completion, \<open>search_begin\<close>, \<open>search_settled\<close> and \<open>search_wake\<close>; between two
  segments any other search may run. What the provider answered, and what each \<open>clock.now()\<close> of a
  segment read, are arguments of the segment. The per-attempt timer is part of the answer: \<open>TimerWon\<close>
  is the race settled by the router's own timer.
\<close>

section \<open>Vocabulary\<close>

datatype search_failure_class =
    RateLimited | QuotaExhausted | AuthenticationFailed | ProviderUnavailable | Timeout | NetworkError
  | MalformedResponse | EmptyResults | UnsupportedQuery | PolicyRestricted | Captcha
  | ChallengeInterstitial | TotalDeadlineExhausted

record search_result =
  sr_rank :: nat
  sr_title :: string
  sr_url :: string
  sr_displayUrl :: string
  sr_snippet :: string
  sr_publishedAt :: "string option"

record search_error =
  e_code :: search_failure_class
  e_message :: string
  e_httpStatus :: "int option"
  e_retryAfterMs :: "int option"

datatype attempt_verdict = OkVerdict | EmptyVerdict | FailedVerdict

record search_attempt =
  a_provider :: string
  a_outcome :: attempt_verdict
  a_failureClass :: "search_failure_class option"
  a_httpStatus :: "int option"
  a_durationMs :: int
  a_retryAfterMs :: "int option"
  a_skipped :: bool

record search_response =
  s_query :: string
  s_provider :: string
  s_results :: "search_result list"
  s_attempts :: "search_attempt list"
  s_retrievedAt :: int
  s_durationMs :: int

type_synonym search_end = "search_error \<times> search_attempt list + search_response"

section \<open>State\<close>

definition MIN_ATTEMPT_MS :: int where
  "MIN_ATTEMPT_MS = 500"

definition DEFAULT_SEARCH_BREAKER_THRESHOLD :: int where
  "DEFAULT_SEARCH_BREAKER_THRESHOLD = 2"

definition DEFAULT_SEARCH_BREAKER_COOLDOWN_MS :: int where
  "DEFAULT_SEARCH_BREAKER_COOLDOWN_MS = 300000"

record router_options =
  ro_providers :: "string list"
  ro_providerTimeoutMs :: int
  ro_totalTimeoutMs :: int
  ro_breakerThreshold :: "int option"
  ro_breakerCooldownMs :: "int option"
  ro_emptyResultsFallback :: "bool option"

datatype breaker = BClosed int | BOpen int | BHalfOpen bool

record provider_metrics =
  pm_attempts :: nat
  pm_ok :: nat
  pm_empty :: nat
  pm_failed :: "search_failure_class list"
  pm_skipped :: nat
  pm_retries :: nat
  pm_breakerOpened :: nat
  pm_durCount :: nat
  pm_durSum :: int
  pm_durMax :: int

record router =
  rt_providers :: "string list"
  rt_threshold :: int
  rt_cooldownMs :: int
  rt_emptyFallback :: bool
  rt_budgetMs :: int
  rt_totalMs :: int
  rt_breakers :: "string \<Rightarrow> breaker"
  rt_metrics :: "string \<Rightarrow> provider_metrics"
  rt_searches :: nat
  rt_fallbackFulfilled :: nat
  rt_deadlineExhausted :: nat

text \<open>\<open>failed\<close> counts per class; the model keeps the classes in the order they came (\<open>count_list\<close>
  of a class is the code's counter). Breakers and metrics exist for every configured name.\<close>

definition emptyProviderMetrics :: provider_metrics where
  "emptyProviderMetrics =
     \<lparr>pm_attempts = 0, pm_ok = 0, pm_empty = 0, pm_failed = [], pm_skipped = 0, pm_retries = 0,
      pm_breakerOpened = 0, pm_durCount = 0, pm_durSum = 0, pm_durMax = 0\<rparr>"

datatype router_error = NoProviders | ConfiguredTwice string

fun first_dup :: "string list \<Rightarrow> string list \<Rightarrow> string option" where
  "first_dup seen [] = None"
| "first_dup seen (n # ns) = (if n \<in> set seen then Some n else first_dup (n # seen) ns)"

definition createSearchRouter :: "router_options \<Rightarrow> router_error + router" where
  "createSearchRouter opts =
     (if ro_providers opts = [] then Inl NoProviders
      else case first_dup [] (ro_providers opts) of
        Some n \<Rightarrow> Inl (ConfiguredTwice n)
      | None \<Rightarrow> Inr
         \<lparr>rt_providers = ro_providers opts,
          rt_threshold = max 1 (case ro_breakerThreshold opts of None \<Rightarrow> DEFAULT_SEARCH_BREAKER_THRESHOLD | Some t \<Rightarrow> t),
          rt_cooldownMs = max 0 (case ro_breakerCooldownMs opts of None \<Rightarrow> DEFAULT_SEARCH_BREAKER_COOLDOWN_MS | Some c \<Rightarrow> c),
          rt_emptyFallback = (case ro_emptyResultsFallback opts of None \<Rightarrow> True | Some b \<Rightarrow> b),
          rt_budgetMs = min (ro_providerTimeoutMs opts) (ro_totalTimeoutMs opts),
          rt_totalMs = ro_totalTimeoutMs opts,
          rt_breakers = (\<lambda>_. BClosed 0), rt_metrics = (\<lambda>_. emptyProviderMetrics),
          rt_searches = 0, rt_fallbackFulfilled = 0, rt_deadlineExhausted = 0\<rparr>)"

section \<open>The circuit breaker\<close>

datatype class_policy = Trip | Count | NoSignal

definition classPolicy :: "search_failure_class \<Rightarrow> class_policy" where
  "classPolicy c =
     (if c = AuthenticationFailed \<or> c = QuotaExhausted then Trip
      else if c = UnsupportedQuery \<or> c = EmptyResults \<or> c = PolicyRestricted then NoSignal
      else Count)"

definition set_breaker :: "string \<Rightarrow> breaker \<Rightarrow> router \<Rightarrow> router" where
  "set_breaker p b r = r\<lparr>rt_breakers := (rt_breakers r)(p := b)\<rparr>"

definition upd_pm :: "string \<Rightarrow> (provider_metrics \<Rightarrow> provider_metrics) \<Rightarrow> router \<Rightarrow> router" where
  "upd_pm p f r = r\<lparr>rt_metrics := (rt_metrics r)(p := f (rt_metrics r p))\<rparr>"

definition admit :: "string \<Rightarrow> int \<Rightarrow> router \<Rightarrow> bool \<times> router" where
  "admit p now r =
     (case rt_breakers r p of
        BClosed _ \<Rightarrow> (True, r)
      | BOpen until \<Rightarrow> if now < until then (False, r) else (True, set_breaker p (BHalfOpen True) r)
      | BHalfOpen probing \<Rightarrow> if probing then (False, r) else (True, set_breaker p (BHalfOpen True) r))"

definition recordSuccess :: "string \<Rightarrow> router \<Rightarrow> router" where
  "recordSuccess p r = set_breaker p (BClosed 0) r"

definition open_breaker :: "string \<Rightarrow> int \<Rightarrow> router \<Rightarrow> router" where
  "open_breaker p now r =
     upd_pm p (\<lambda>m. m\<lparr>pm_breakerOpened := pm_breakerOpened m + 1\<rparr>) (set_breaker p (BOpen (now + rt_cooldownMs r)) r)"

definition is_half_open :: "breaker \<Rightarrow> bool" where
  "is_half_open b = (case b of BHalfOpen _ \<Rightarrow> True | _ \<Rightarrow> False)"

definition recordFailure :: "string \<Rightarrow> search_failure_class \<Rightarrow> int \<Rightarrow> router \<Rightarrow> router" where
  "recordFailure p cls now r =
     (let b = rt_breakers r p in
      if classPolicy cls = NoSignal then (if is_half_open b then recordSuccess p r else r)
      else if is_half_open b \<or> classPolicy cls = Trip then open_breaker p now r
      else (case b of
              BClosed failures \<Rightarrow>
                (let r1 = set_breaker p (BClosed (failures + 1)) r
                 in if failures + 1 \<ge> rt_threshold r then open_breaker p now r1 else r1)
            | _ \<Rightarrow> r))"

section \<open>One provider call\<close>

datatype provider_reply =
    Answered "search_result list"
  | Threw search_error
  | ThrewOther string
  | TimerWon

datatype attempt_outcome = AttemptOk "search_result list" | AttemptFailed search_error bool

definition timeout_error :: search_error where
  "timeout_error = \<lparr>e_code = Timeout, e_message = ''search provider exceeded its budget'',
     e_httpStatus = None, e_retryAfterMs = None\<rparr>"

definition runAttempt :: "provider_reply \<Rightarrow> attempt_outcome" where
  "runAttempt reply =
     (case reply of
        Answered rs \<Rightarrow> AttemptOk rs
      | TimerWon \<Rightarrow> AttemptFailed timeout_error True
      | Threw e \<Rightarrow> AttemptFailed e (e_code e = Timeout)
      | ThrewOther name \<Rightarrow> AttemptFailed
          \<lparr>e_code = NetworkError, e_message = ''search failed ('' @ name @ '')'',
           e_httpStatus = None, e_retryAfterMs = None\<rparr> False)"

section \<open>A search, segment by segment\<close>

text \<open>The locals of \<open>search\<close> that live across an await. \<open>k_rest\<close> is the providers after the loop's
  current one, so \<open>i < lastIndex\<close> reads \<open>k_rest \<noteq> []\<close>.\<close>

record search =
  k_query :: string
  k_started :: int
  k_attempts :: "search_attempt list"
  k_failures :: "search_error list"
  k_deadlineCut :: bool
  k_emptyFrom :: "string option"
  k_rest :: "string list"
  k_provider :: string
  k_providerDeadline :: int
  k_retried :: bool
  k_attemptStart :: int
  k_sleeping :: bool

text \<open>What the \<open>clock.now()\<close> calls of one segment return: at the provider's turn of the loop, before the
  call, after it, at the check that a wait fits, at the breaker's update, and at the end.\<close>

record readings =
  t_turn :: "string \<Rightarrow> int"
  t_start :: int
  t_end :: int
  t_fits :: int
  t_record :: int
  t_ended :: int

datatype search_next = Await search | Finished search_end

definition ok_attempt :: "string \<Rightarrow> int \<Rightarrow> search_attempt" where
  "ok_attempt p ms = \<lparr>a_provider = p, a_outcome = OkVerdict, a_failureClass = None, a_httpStatus = None,
     a_durationMs = ms, a_retryAfterMs = None, a_skipped = False\<rparr>"

definition empty_attempt :: "string \<Rightarrow> search_error \<Rightarrow> int \<Rightarrow> search_attempt" where
  "empty_attempt p e ms = (ok_attempt p ms)\<lparr>a_outcome := EmptyVerdict, a_httpStatus := e_httpStatus e\<rparr>"

definition failed_attempt :: "string \<Rightarrow> search_error \<Rightarrow> int \<Rightarrow> search_attempt" where
  "failed_attempt p e ms =
     (ok_attempt p ms)\<lparr>a_outcome := FailedVerdict, a_failureClass := Some (e_code e),
        a_httpStatus := e_httpStatus e, a_retryAfterMs := e_retryAfterMs e\<rparr>"

definition skipped_attempt :: "string \<Rightarrow> search_attempt" where
  "skipped_attempt p =
     (ok_attempt p 0)\<lparr>a_outcome := FailedVerdict, a_failureClass := Some ProviderUnavailable, a_skipped := True\<rparr>"

definition response :: "search \<Rightarrow> string \<Rightarrow> search_result list \<Rightarrow> search_attempt list \<Rightarrow> int \<Rightarrow> search_response" where
  "response k p results attempts ended =
     \<lparr>s_query = k_query k, s_provider = p, s_results = results, s_attempts = attempts,
      s_retrievedAt = ended, s_durationMs = ended - k_started k\<rparr>"

definition FINAL_CLASS_PRIORITY :: "search_failure_class list" where
  "FINAL_CLASS_PRIORITY = [AuthenticationFailed, QuotaExhausted, RateLimited]"

definition final_failure :: "search_error list \<Rightarrow> search_error" where
  "final_failure fs =
     (case List.find (\<lambda>f. f \<noteq> None) (map (\<lambda>c. List.find (\<lambda>f. e_code f = c) fs) FINAL_CLASS_PRIORITY) of
        Some (Some f) \<Rightarrow> f
      | _ \<Rightarrow> hd fs)"

definition deadline_error :: "router \<Rightarrow> search_error" where
  "deadline_error r = \<lparr>e_code = TotalDeadlineExhausted,
     e_message = ''the total search deadline of '' @ js_int (rt_totalMs r) @ '' ms ran out before any provider answered'',
     e_httpStatus = None, e_retryAfterMs = None\<rparr>"

definition all_skipped_error :: search_error where
  "all_skipped_error = \<lparr>e_code = ProviderUnavailable,
     e_message = ''every configured search provider is cooling down after recent failures'',
     e_httpStatus = None, e_retryAfterMs = None\<rparr>"

definition search_finish :: "readings \<Rightarrow> router \<Rightarrow> search \<Rightarrow> router \<times> search_next" where
  "search_finish rd r k =
     (case k_emptyFrom k of
        Some p \<Rightarrow> (r, Finished (Inr (response k p [] (k_attempts k) (t_ended rd))))
      | None \<Rightarrow>
          if k_deadlineCut k
            then (r\<lparr>rt_deadlineExhausted := rt_deadlineExhausted r + 1\<rparr>, Finished (Inl (deadline_error r, k_attempts k)))
          else if k_failures k = [] then (r, Finished (Inl (all_skipped_error, k_attempts k)))
          else (r, Finished (Inl (final_failure (k_failures k), k_attempts k))))"

definition attempted_any :: "search \<Rightarrow> bool" where
  "attempted_any k \<longleftrightarrow> (\<exists>a \<in> set (k_attempts k). \<not> a_skipped a)"

fun scan :: "readings \<Rightarrow> string list \<Rightarrow> router \<Rightarrow> search \<Rightarrow> router \<times> search_next" where
  "scan rd [] r k = search_finish rd r k"
| "scan rd (p # ps) r k =
     (let now = t_turn rd p; totalDeadline = k_started k + rt_totalMs r in
      if totalDeadline - now < MIN_ATTEMPT_MS then search_finish rd r (k\<lparr>k_deadlineCut := True\<rparr>)
      else case admit p now r of (admitted, r1) \<Rightarrow>
        if \<not> admitted \<and> (ps \<noteq> [] \<or> attempted_any k \<or> is_half_open (rt_breakers r1 p))
          then scan rd ps (upd_pm p (\<lambda>m. m\<lparr>pm_skipped := pm_skipped m + 1\<rparr>) r1)
                 (k\<lparr>k_attempts := k_attempts k @ [skipped_attempt p]\<rparr>)
        else (r1, Await (k\<lparr>k_rest := ps, k_provider := p,
                k_providerDeadline := min (now + rt_budgetMs r) totalDeadline,
                k_retried := False, k_attemptStart := t_start rd, k_sleeping := False\<rparr>)))"

definition new_search :: "string \<Rightarrow> int \<Rightarrow> search" where
  "new_search q started = \<lparr>k_query = q, k_started = started, k_attempts = [], k_failures = [],
     k_deadlineCut = False, k_emptyFrom = None, k_rest = [], k_provider = [], k_providerDeadline = 0,
     k_retried = False, k_attemptStart = started, k_sleeping = False\<rparr>"

definition search_begin :: "string \<Rightarrow> int \<Rightarrow> readings \<Rightarrow> router \<Rightarrow> router \<times> search_next" where
  "search_begin q started rd r =
     scan rd (rt_providers r) (r\<lparr>rt_searches := rt_searches r + 1\<rparr>) (new_search q started)"

definition next_provider :: "readings \<Rightarrow> router \<Rightarrow> search \<Rightarrow> router \<times> search_next" where
  "next_provider rd r k =
     (if k_emptyFrom k \<noteq> None \<and> \<not> rt_emptyFallback r then search_finish rd r k
      else scan rd (k_rest k) r k)"

definition count_attempt :: "int \<Rightarrow> provider_metrics \<Rightarrow> provider_metrics" where
  "count_attempt ms m = m\<lparr>pm_attempts := pm_attempts m + 1, pm_durCount := pm_durCount m + 1,
     pm_durSum := pm_durSum m + ms, pm_durMax := max (pm_durMax m) ms\<rparr>"

definition attempt_ok :: "readings \<Rightarrow> search_result list \<Rightarrow> router \<Rightarrow> search \<Rightarrow> router \<times> search_next" where
  "attempt_ok rd results r k =
     (let p = k_provider k;
          attempts = k_attempts k @ [ok_attempt p (t_end rd - k_attemptStart k)];
          r1 = recordSuccess p (upd_pm p (\<lambda>m. m\<lparr>pm_ok := pm_ok m + 1\<rparr>) r);
          firstAttempted = map_option a_provider (List.find (\<lambda>a. \<not> a_skipped a) attempts)
      in (if firstAttempted \<noteq> Some p then r1\<lparr>rt_fallbackFulfilled := rt_fallbackFulfilled r1 + 1\<rparr> else r1,
          Finished (Inr (response k p results attempts (t_ended rd)))))"

definition attempt_empty :: "readings \<Rightarrow> search_error \<Rightarrow> router \<Rightarrow> search \<Rightarrow> router \<times> search_next" where
  "attempt_empty rd err r k =
     (let p = k_provider k;
          r1 = recordFailure p (e_code err) (t_end rd) (upd_pm p (\<lambda>m. m\<lparr>pm_empty := pm_empty m + 1\<rparr>) r)
      in next_provider rd r1
           (k\<lparr>k_attempts := k_attempts k @ [empty_attempt p err (t_end rd - k_attemptStart k)],
              k_emptyFrom := (case k_emptyFrom k of None \<Rightarrow> Some p | Some q \<Rightarrow> Some q)\<rparr>))"

definition retry_fits :: "int \<Rightarrow> search_error \<Rightarrow> search \<Rightarrow> bool" where
  "retry_fits now err k \<longleftrightarrow> e_code err = RateLimited \<and> \<not> k_retried k \<and>
     (case e_retryAfterMs err of None \<Rightarrow> False | Some w \<Rightarrow> now + w + MIN_ATTEMPT_MS \<le> k_providerDeadline k)"

definition attempt_failed :: "readings \<Rightarrow> search_error \<Rightarrow> bool \<Rightarrow> router \<Rightarrow> search \<Rightarrow> router \<times> search_next" where
  "attempt_failed rd err timedOut r k =
     (let p = k_provider k;
          r1 = upd_pm p (\<lambda>m. m\<lparr>pm_failed := pm_failed m @ [e_code err]\<rparr>) r;
          k1 = k\<lparr>k_attempts := k_attempts k @ [failed_attempt p err (t_end rd - k_attemptStart k)],
                 k_failures := k_failures k @ [err],
                 k_deadlineCut := (k_deadlineCut k \<or> timedOut \<and> k_providerDeadline k = k_started k + rt_totalMs r)\<rparr>
      in if retry_fits (t_fits rd) err k
           then (upd_pm p (\<lambda>m. m\<lparr>pm_retries := pm_retries m + 1\<rparr>) r1, Await (k1\<lparr>k_retried := True, k_sleeping := True\<rparr>))
         else next_provider rd (recordFailure p (e_code err) (t_record rd) r1) k1)"

definition search_settled :: "readings \<Rightarrow> provider_reply \<Rightarrow> router \<Rightarrow> search \<Rightarrow> router \<times> search_next" where
  "search_settled rd reply r k =
     (let r1 = upd_pm (k_provider k) (count_attempt (t_end rd - k_attemptStart k)) r in
      case runAttempt reply of
        AttemptOk results \<Rightarrow> attempt_ok rd results r1 k
      | AttemptFailed err timedOut \<Rightarrow>
          if e_code err = EmptyResults then attempt_empty rd err r1 k else attempt_failed rd err timedOut r1 k)"

definition search_wake :: "int \<Rightarrow> search \<Rightarrow> search" where
  "search_wake start k = k\<lparr>k_sleeping := False, k_attemptStart := start\<rparr>"

section \<open>Concurrent searches\<close>

record search_pool =
  sp_router :: router
  sp_active :: "(nat \<times> search) list"
  sp_done :: "(nat \<times> search_end) list"

datatype search_event =
    Begin_Search nat string int readings
  | Provider_Settled nat provider_reply readings
  | Sleep_Over nat int

definition resume :: "nat \<Rightarrow> router \<times> search_next \<Rightarrow> search_pool \<Rightarrow> search_pool" where
  "resume s res m =
     (case snd res of
        Await k \<Rightarrow> m\<lparr>sp_router := fst res, sp_active := alist_put s k (sp_active m)\<rparr>
      | Finished e \<Rightarrow> m\<lparr>sp_router := fst res, sp_active := alist_del s (sp_active m), sp_done := (s, e) # sp_done m\<rparr>)"

fun search_step :: "search_event \<Rightarrow> search_pool \<Rightarrow> search_pool option" where
  "search_step (Begin_Search s q started rd) m =
     (if s \<in> fst ` set (sp_active m) then None
      else Some (resume s (search_begin q started rd (sp_router m)) m))"
| "search_step (Provider_Settled s reply rd) m =
     (case map_of (sp_active m) s of
        None \<Rightarrow> None
      | Some k \<Rightarrow> if k_sleeping k then None else Some (resume s (search_settled rd reply (sp_router m) k) m))"
| "search_step (Sleep_Over s start) m =
     (case map_of (sp_active m) s of
        None \<Rightarrow> None
      | Some k \<Rightarrow> if k_sleeping k then Some (m\<lparr>sp_active := alist_put s (search_wake start k) (sp_active m)\<rparr>) else None)"

definition sstep :: "search_pool \<Rightarrow> search_event \<Rightarrow> search_pool \<Rightarrow> bool" where
  "sstep m e m' \<longleftrightarrow> search_step e m = Some m'"

definition fresh_pool :: "router_options \<Rightarrow> search_pool \<Rightarrow> bool" where
  "fresh_pool opts m \<longleftrightarrow> (\<exists>r. createSearchRouter opts = Inr r \<and> m = \<lparr>sp_router = r, sp_active = [], sp_done = []\<rparr>)"

end
