(* ===== verification/Search_Safety.thy ===== *)
theory Search_Safety
  imports Search_Router
begin

text \<open>
  What the search router guarantees whatever searches interleave: a half-open breaker always has its
  probe in flight, so no provider is locked out; every provider is asked at most twice in a search and
  never past the total deadline; the end of a search follows from its attempt record; the counters add
  up. The invariants are proved per segment and interpreted on the step function of the pool.
\<close>

section \<open>What the operations leave alone\<close>

definition conf :: "router \<Rightarrow> string list \<times> int \<times> bool \<times> int" where
  "conf r = (rt_providers r, rt_threshold r, rt_emptyFallback r, rt_totalMs r)"

lemma conf_eqD:
  "conf r = conf r' \<Longrightarrow> rt_providers r = rt_providers r' \<and> rt_threshold r = rt_threshold r' \<and> rt_totalMs r = rt_totalMs r'"
  by (simp add: conf_def)

lemma upd_pm_sel [simp]:
  "conf (upd_pm p f r) = conf r" "rt_breakers (upd_pm p f r) = rt_breakers r"
  "rt_metrics (upd_pm p f r) = (rt_metrics r)(p := f (rt_metrics r p))" "rt_searches (upd_pm p f r) = rt_searches r"
  by (simp_all add: upd_pm_def conf_def)

lemma set_breaker_sel [simp]:
  "conf (set_breaker p b r) = conf r" "rt_breakers (set_breaker p b r) = (rt_breakers r)(p := b)"
  "rt_metrics (set_breaker p b r) = rt_metrics r" "rt_searches (set_breaker p b r) = rt_searches r"
  by (simp_all add: set_breaker_def conf_def)

lemma conf_more [simp]:
  "conf (r\<lparr>rt_searches := a\<rparr>) = conf r" "conf (r\<lparr>rt_fallbackFulfilled := b\<rparr>) = conf r"
  "conf (r\<lparr>rt_deadlineExhausted := c\<rparr>) = conf r"
  by (simp_all add: conf_def)

lemma recordSuccess_sel [simp]:
  "conf (recordSuccess p r) = conf r" "rt_metrics (recordSuccess p r) = rt_metrics r"
  "rt_searches (recordSuccess p r) = rt_searches r"
  by (simp_all add: recordSuccess_def)

lemma open_breaker_sel [simp]:
  "conf (open_breaker p now r) = conf r" "rt_searches (open_breaker p now r) = rt_searches r"
  "rt_breakers (open_breaker p now r) = (rt_breakers r)(p := BOpen (now + rt_cooldownMs r))"
  by (simp_all add: open_breaker_def)

lemma recordFailure_sel [simp]:
  "conf (recordFailure p c now r) = conf r" "rt_searches (recordFailure p c now r) = rt_searches r"
  by (simp_all add: recordFailure_def Let_def split: breaker.splits)

lemma admit_sel:
  "admit p now r = (b, r') \<Longrightarrow> conf r' = conf r \<and> rt_metrics r' = rt_metrics r \<and> rt_searches r' = rt_searches r"
  by (auto simp: admit_def split: breaker.splits if_splits)

lemma search_finish_sel:
  "search_finish rd r k = (r', n) \<Longrightarrow>
     conf r' = conf r \<and> rt_metrics r' = rt_metrics r \<and> rt_searches r' = rt_searches r \<and> rt_breakers r' = rt_breakers r"
  by (auto simp: search_finish_def split: option.splits if_splits)

lemma scan_conf: "scan rd ps r k = (r', n) \<Longrightarrow> conf r' = conf r \<and> rt_searches r' = rt_searches r"
  by (induction rd ps r k rule: scan.induct)
    (auto simp: Let_def dest!: search_finish_sel admit_sel split: prod.splits if_splits)

lemma next_provider_conf: "next_provider rd r k = (r', n) \<Longrightarrow> conf r' = conf r \<and> rt_searches r' = rt_searches r"
  by (auto simp: next_provider_def dest: search_finish_sel scan_conf split: if_splits)

lemma search_settled_conf: "search_settled rd reply r k = (r', n) \<Longrightarrow> conf r' = conf r \<and> rt_searches r' = rt_searches r"
  by (auto simp: search_settled_def attempt_ok_def attempt_empty_def attempt_failed_def Let_def
      dest!: next_provider_conf split: attempt_outcome.splits if_splits)

section \<open>Breakers\<close>

text \<open>\<open>A\<close> is the set of providers some search is calling, or will call again after its wait.\<close>

fun breaker_ok :: "int \<Rightarrow> bool \<Rightarrow> breaker \<Rightarrow> bool" where
  "breaker_ok t called (BClosed n) \<longleftrightarrow> 0 \<le> n \<and> n < t"
| "breaker_ok t called (BOpen until) \<longleftrightarrow> True"
| "breaker_ok t called (BHalfOpen probing) \<longleftrightarrow> probing \<and> called"

definition breakers_ok :: "router \<Rightarrow> string set \<Rightarrow> bool" where
  "breakers_ok r A \<longleftrightarrow> rt_threshold r \<ge> 1 \<and> (\<forall>p. breaker_ok (rt_threshold r) (p \<in> A) (rt_breakers r p))"

lemma breakers_okD: "breakers_ok r A \<Longrightarrow> breaker_ok (rt_threshold r) (p \<in> A) (rt_breakers r p)"
  by (simp add: breakers_ok_def)

fun called_by :: "search_next \<Rightarrow> string set" where
  "called_by (Await k) = {k_provider k}"
| "called_by (Finished e) = {}"

lemma breakers_ok_cong:
  "rt_breakers r' = rt_breakers r \<Longrightarrow> conf r' = conf r \<Longrightarrow> breakers_ok r' A = breakers_ok r A"
  by (simp add: breakers_ok_def conf_def)

lemma breakers_ok_more [simp]:
  "breakers_ok (upd_pm p f r) A = breakers_ok r A" "breakers_ok (r\<lparr>rt_fallbackFulfilled := b\<rparr>) A = breakers_ok r A"
  "breakers_ok (r\<lparr>rt_searches := a\<rparr>) A = breakers_ok r A"
  by (rule breakers_ok_cong; simp)+

lemma breaker_ok_mono: "breaker_ok t c b \<Longrightarrow> (c \<Longrightarrow> c') \<Longrightarrow> breaker_ok t c' b"
  by (cases b) auto

lemma breakers_ok_mono: "breakers_ok r A \<Longrightarrow> A \<subseteq> B \<Longrightarrow> breakers_ok r B"
  unfolding breakers_ok_def by (meson breaker_ok_mono subsetD)

lemma breakers_ok_set:
  assumes "breakers_ok r (insert p A)" "breaker_ok (rt_threshold r) (p \<in> A) b"
    and "rt_breakers r' = (rt_breakers r)(p := b)" "conf r' = conf r"
  shows "breakers_ok r' A"
proof -
  have t: "rt_threshold r' = rt_threshold r" using assms(4) by (simp add: conf_def)
  have "breaker_ok (rt_threshold r) (q \<in> A) (rt_breakers r' q)" for q
    using assms(2) breakers_okD [OF assms(1), of q] by (cases "q = p") (simp_all add: assms(3))
  then show ?thesis using assms(1) by (simp add: breakers_ok_def t)
qed

lemma breakers_admit:
  assumes "breakers_ok r A" "admit p now r = (b, r')"
  shows "breakers_ok r' (if b then insert p A else A)"
proof (cases "rt_breakers r' = rt_breakers r")
  case True
  have "conf r' = conf r" using admit_sel [OF assms(2)] by simp
  from breakers_ok_cong [OF True this, of A] assms(1) have "breakers_ok r' A" by simp
  then show ?thesis by (simp add: breakers_ok_mono subset_insertI)
next
  case False
  then have b: b and r': "r' = set_breaker p (BHalfOpen True) r"
    using assms(2) by (auto simp: admit_def split: breaker.splits if_splits)
  have "breakers_ok r (insert p (insert p A))" using assms(1) by (rule breakers_ok_mono) auto
  then have "breakers_ok r' (insert p A)" by (rule breakers_ok_set) (simp_all add: r')
  with b show ?thesis by simp
qed

lemma breakers_recordSuccess: "breakers_ok r (insert p A) \<Longrightarrow> breakers_ok (recordSuccess p r) A"
  by (rule breakers_ok_set [where b = "BClosed 0"]) (simp_all add: recordSuccess_def breakers_ok_def)

lemma breakers_open: "breakers_ok r (insert p A) \<Longrightarrow> breakers_ok (open_breaker p now r) A"
  by (rule breakers_ok_set [where b = "BOpen (now + rt_cooldownMs r)"]) simp_all

lemma breakers_same:
  assumes "breakers_ok r (insert p A)" "\<not> is_half_open (rt_breakers r p)"
  shows "breakers_ok r A"
proof (rule breakers_ok_set [OF assms(1)])
  show "breaker_ok (rt_threshold r) (p \<in> A) (rt_breakers r p)"
    using breakers_okD [OF assms(1), of p] assms(2) by (cases "rt_breakers r p") (auto simp: is_half_open_def)
qed simp_all

lemma breakers_count:
  assumes "breakers_ok r (insert p A)" "rt_breakers r p = BClosed n" "\<not> n + 1 \<ge> rt_threshold r"
  shows "breakers_ok (set_breaker p (BClosed (n + 1)) r) A"
  using breakers_okD [OF assms(1), of p] assms by (intro breakers_ok_set [OF assms(1)]) auto

lemma recordFailure_cases:
  "recordFailure p c now r =
     (case (classPolicy c, rt_breakers r p) of
        (NoSignal, BHalfOpen _) \<Rightarrow> recordSuccess p r
      | (NoSignal, _) \<Rightarrow> r
      | (Trip, _) \<Rightarrow> open_breaker p now r
      | (Count, BHalfOpen _) \<Rightarrow> open_breaker p now r
      | (Count, BOpen _) \<Rightarrow> r
      | (Count, BClosed n) \<Rightarrow>
          if n + 1 \<ge> rt_threshold r then open_breaker p now (set_breaker p (BClosed (n + 1)) r)
          else set_breaker p (BClosed (n + 1)) r)"
  by (cases "classPolicy c"; cases "rt_breakers r p") (simp_all add: recordFailure_def is_half_open_def Let_def)

lemma breakers_open_set: "breakers_ok r (insert p A) \<Longrightarrow> breakers_ok (open_breaker p now (set_breaker p b r)) A"
  by (rule breakers_ok_set [where b = "BOpen (now + rt_cooldownMs (set_breaker p b r))"]) simp_all

lemma breakers_recordFailure:
  assumes "breakers_ok r (insert p A)"
  shows "breakers_ok (recordFailure p c now r) A"
  using breakers_recordSuccess [OF assms] breakers_open [OF assms] breakers_open_set [OF assms]
    breakers_same [OF assms] breakers_count [OF assms]
  unfolding recordFailure_cases
  by (cases "classPolicy c"; cases "rt_breakers r p") (simp_all add: is_half_open_def)

lemma breakers_finish: "search_finish rd r k = (r', n) \<Longrightarrow> breakers_ok r A \<Longrightarrow> breakers_ok r' (A \<union> called_by n)"
  using search_finish_sel [of rd r k r' n] by (metis breakers_ok_cong breakers_ok_mono sup_ge1)

text \<open>The loop over the remaining providers, as a rule: a relation \<open>J\<close> kept by every skip gives \<open>Q\<close> of
  whatever the loop ends in.\<close>

lemma scan_rule:
  assumes "scan rd ps r k = (r', n)" "J ps r k"
    and nomore: "\<And>r k r' n. J [] r k \<Longrightarrow> search_finish rd r k = (r', n) \<Longrightarrow> Q r' n"
    and late: "\<And>p ps r k r' n. J (p # ps) r k \<Longrightarrow>
      search_finish rd r (k\<lparr>k_deadlineCut := True\<rparr>) = (r', n) \<Longrightarrow> Q r' n"
    and skip: "\<And>p ps r k r1. J (p # ps) r k \<Longrightarrow> admit p (t_turn rd p) r = (False, r1) \<Longrightarrow>
      J ps (upd_pm p (\<lambda>m. m\<lparr>pm_skipped := pm_skipped m + 1\<rparr>) r1) (k\<lparr>k_attempts := k_attempts k @ [skipped_attempt p]\<rparr>)"
    and call: "\<And>p ps r k b r1. J (p # ps) r k \<Longrightarrow> admit p (t_turn rd p) r = (b, r1) \<Longrightarrow>
      b \<or> \<not> attempted_any k \<and> \<not> is_half_open (rt_breakers r1 p) \<Longrightarrow>
      MIN_ATTEMPT_MS \<le> k_started k + rt_totalMs r - t_turn rd p \<Longrightarrow>
      Q r1 (Await (k\<lparr>k_rest := ps, k_provider := p,
        k_providerDeadline := min (t_turn rd p + rt_budgetMs r) (k_started k + rt_totalMs r),
        k_retried := False, k_attemptStart := t_start rd, k_sleeping := False\<rparr>))"
  shows "Q r' n"
  using assms(1,2)
proof (induction ps arbitrary: r k)
  case Nil
  then show ?case by (auto intro: nomore)
next
  case (Cons p ps)
  obtain b r1 where ad: "admit p (t_turn rd p) r = (b, r1)" by fastforce
  show ?case
  proof (cases "k_started k + rt_totalMs r - t_turn rd p < MIN_ATTEMPT_MS")
    case True
    then show ?thesis using Cons.prems by (auto simp: Let_def intro: late)
  next
    case time: False
    show ?thesis
    proof (cases "\<not> b \<and> (ps \<noteq> [] \<or> attempted_any k \<or> is_half_open (rt_breakers r1 p))")
      case True
      then have "J ps (upd_pm p (\<lambda>m. m\<lparr>pm_skipped := pm_skipped m + 1\<rparr>) r1)
          (k\<lparr>k_attempts := k_attempts k @ [skipped_attempt p]\<rparr>)"
        using skip [OF Cons.prems(2)] ad by simp
      from Cons.IH [OF _ this] show ?thesis using Cons.prems(1) time True by (simp add: ad Let_def)
    next
      case False
      then show ?thesis using Cons.prems(1) time call [OF Cons.prems(2) ad] by (auto simp: ad Let_def)
    qed
  qed
qed

lemma breakers_scan:
  assumes "scan rd ps r k = (r', n)" "breakers_ok r A"
  shows "breakers_ok r' (A \<union> called_by n)"
proof (rule scan_rule [OF assms(1), where J = "\<lambda>_ r _. breakers_ok r A"])
  fix p r r1 k b and ps :: "string list"
  assume ok: "breakers_ok r A" and ad: "admit p (t_turn rd p) r = (b, r1)"
  have "breakers_ok r1 (insert p A)"
    using breakers_admit [OF ok ad] by (auto intro: breakers_ok_mono split: if_splits)
  then show "breakers_ok r1 (A \<union> called_by (Await (k\<lparr>k_rest := ps, k_provider := p,
        k_providerDeadline := min (t_turn rd p + rt_budgetMs r) (k_started k + rt_totalMs r),
        k_retried := False, k_attemptStart := t_start rd, k_sleeping := False\<rparr>)))" by simp
qed (use assms(2) in \<open>auto intro: breakers_finish dest: breakers_admit\<close>)

lemma breakers_next_provider:
  "next_provider rd r k = (r', n) \<Longrightarrow> breakers_ok r A \<Longrightarrow> breakers_ok r' (A \<union> called_by n)"
  by (auto simp: next_provider_def intro: breakers_finish breakers_scan split: if_splits)

lemma breakers_attempt_ok:
  assumes "attempt_ok rd results r k = (r', n)" "breakers_ok r (insert (k_provider k) A)"
  shows "breakers_ok r' (A \<union> called_by n)"
proof -
  let ?r1 = "recordSuccess (k_provider k) (upd_pm (k_provider k) (\<lambda>m. m\<lparr>pm_ok := pm_ok m + 1\<rparr>) r)"
  have "breakers_ok (upd_pm (k_provider k) (\<lambda>m. m\<lparr>pm_ok := pm_ok m + 1\<rparr>) r) (insert (k_provider k) A)"
    using assms(2) by simp
  then have "breakers_ok ?r1 A" by (rule breakers_recordSuccess)
  moreover have "rt_breakers r' = rt_breakers ?r1" "conf r' = conf ?r1" "called_by n = {}"
    using assms(1) by (auto simp: attempt_ok_def Let_def split: if_splits)
  ultimately show ?thesis using breakers_ok_cong [of r' ?r1 A] by simp
qed

lemma breakers_attempt_empty:
  assumes "attempt_empty rd err r k = (r', n)" "breakers_ok r (insert (k_provider k) A)"
  shows "breakers_ok r' (A \<union> called_by n)"
  using assms(1) unfolding attempt_empty_def Let_def
  by (rule breakers_next_provider) (simp add: breakers_recordFailure assms(2))

lemma breakers_attempt_failed:
  assumes "attempt_failed rd err t r k = (r', n)" "breakers_ok r (insert (k_provider k) A)"
  shows "breakers_ok r' (A \<union> called_by n)"
proof (cases "retry_fits (t_fits rd) err k")
  case True
  then have "rt_breakers r' = rt_breakers r" "conf r' = conf r" "called_by n = {k_provider k}"
    using assms(1) by (auto simp: attempt_failed_def Let_def)
  then show ?thesis using assms(2) breakers_ok_cong [of r' r] by simp
next
  case False
  then show ?thesis
    using assms(1) unfolding attempt_failed_def Let_def
    by (simp, elim breakers_next_provider) (simp add: breakers_recordFailure assms(2))
qed

lemma breakers_settled:
  assumes "search_settled rd reply r k = (r', n)" "breakers_ok r (insert (k_provider k) A)"
  shows "breakers_ok r' (A \<union> called_by n)"
proof -
  have "breakers_ok (upd_pm (k_provider k) (count_attempt d) r) (insert (k_provider k) A)" for d
    using assms(2) by simp
  then show ?thesis
    using assms(1) unfolding search_settled_def Let_def
    by (auto split: attempt_outcome.splits if_splits
        intro: breakers_attempt_ok breakers_attempt_empty breakers_attempt_failed)
qed

section \<open>One search\<close>

definition requests :: "string \<Rightarrow> search_attempt list \<Rightarrow> nat" where
  \<comment> \<open>entries of the attempt record for a provider, skipped ones included\<close>
  "requests p atts = length (filter (\<lambda>a. a_provider a = p) atts)"

definition within :: "(string \<Rightarrow> nat) \<Rightarrow> search_attempt list \<Rightarrow> bool" where
  "within cap atts \<longleftrightarrow> (\<forall>p. requests p atts \<le> cap p)"

definition turn_cap :: "string list \<Rightarrow> string list \<Rightarrow> string \<Rightarrow> nat" where
  "turn_cap all ps p = (if p \<in> set all - set ps then 2 else 0)"

definition failed_classes :: "search_attempt list \<Rightarrow> search_failure_class list" where
  "failed_classes atts =
     map (\<lambda>a. the (a_failureClass a)) (filter (\<lambda>a. a_outcome a = FailedVerdict \<and> \<not> a_skipped a) atts)"

definition first_empty :: "search_attempt list \<Rightarrow> string option" where
  "first_empty atts = map_option a_provider (List.find (\<lambda>a. a_outcome a = EmptyVerdict) atts)"

definition final_class :: "search_failure_class list \<Rightarrow> search_failure_class" where
  "final_class cs =
     (if AuthenticationFailed \<in> set cs then AuthenticationFailed
      else if QuotaExhausted \<in> set cs then QuotaExhausted
      else if RateLimited \<in> set cs then RateLimited
      else case cs of [] \<Rightarrow> ProviderUnavailable | c # _ \<Rightarrow> c)"

text \<open>The end of a search, read off its attempt record alone.\<close>

fun end_ok :: "string list \<Rightarrow> search_end \<Rightarrow> bool" where
  "end_ok ps (Inr resp) \<longleftrightarrow>
     within (turn_cap ps []) (s_attempts resp) \<and>
     (if \<exists>a \<in> set (s_attempts resp). a_outcome a = OkVerdict
      then a_outcome (last (s_attempts resp)) = OkVerdict \<and> a_provider (last (s_attempts resp)) = s_provider resp
      else s_results resp = [] \<and> first_empty (s_attempts resp) = Some (s_provider resp))"
| "end_ok ps (Inl (err, atts)) \<longleftrightarrow>
     within (turn_cap ps []) atts \<and>
     (\<forall>a \<in> set atts. a_outcome a = FailedVerdict) \<and>
     (e_code err = TotalDeadlineExhausted \<or> e_code err = final_class (failed_classes atts))"

definition history_ok :: "search \<Rightarrow> bool" where
  "history_ok k \<longleftrightarrow> (\<forall>a \<in> set (k_attempts k). a_outcome a \<noteq> OkVerdict) \<and>
     k_emptyFrom k = first_empty (k_attempts k) \<and> map e_code (k_failures k) = failed_classes (k_attempts k)"

definition turn_ok :: "string list \<Rightarrow> string list \<Rightarrow> search \<Rightarrow> bool" where
  \<comment> \<open>at the turn of the remaining providers \<open>ps\<close> out of \<open>all\<close>\<close>
  "turn_ok all ps k \<longleftrightarrow> history_ok k \<and> distinct ps \<and> set ps \<subseteq> set all \<and>
     within (turn_cap all ps) (k_attempts k)"

definition search_ok :: "router \<Rightarrow> search \<Rightarrow> bool" where
  "search_ok r k \<longleftrightarrow> history_ok k \<and> distinct (k_provider k # k_rest k) \<and>
     set (k_provider k # k_rest k) \<subseteq> set (rt_providers r) \<and>
     within ((turn_cap (rt_providers r) (k_rest k))(k_provider k := of_bool (k_retried k))) (k_attempts k) \<and>
     (k_sleeping k \<longrightarrow> k_retried k) \<and>
     k_providerDeadline k \<le> k_started k + rt_totalMs r"

fun next_ok :: "router \<Rightarrow> search_next \<Rightarrow> bool" where
  "next_ok r (Await k) \<longleftrightarrow> search_ok r k"
| "next_ok r (Finished e) \<longleftrightarrow> end_ok (rt_providers r) e"

lemma requests_append [simp]: "requests p (as @ bs) = requests p as + requests p bs"
  by (simp add: requests_def)

lemma failed_classes_append [simp]: "failed_classes (as @ bs) = failed_classes as @ failed_classes bs"
  by (simp add: failed_classes_def)

lemma find_append: "List.find P (as @ bs) = (case List.find P as of None \<Rightarrow> List.find P bs | Some x \<Rightarrow> Some x)"
  by (induction as) auto

lemma first_empty_snoc:
  "first_empty (as @ [a]) = (case first_empty as of
     None \<Rightarrow> if a_outcome a = EmptyVerdict then Some (a_provider a) else None | Some p \<Rightarrow> Some p)"
  by (simp add: first_empty_def find_append split: option.splits)

lemma attempt_sel [simp]:
  "a_provider (ok_attempt p d) = p" "a_outcome (ok_attempt p d) = OkVerdict" "\<not> a_skipped (ok_attempt p d)"
  "a_provider (empty_attempt p e d) = p" "a_outcome (empty_attempt p e d) = EmptyVerdict"
  "\<not> a_skipped (empty_attempt p e d)"
  "a_provider (failed_attempt p e d) = p" "a_outcome (failed_attempt p e d) = FailedVerdict"
  "\<not> a_skipped (failed_attempt p e d)" "a_failureClass (failed_attempt p e d) = Some (e_code e)"
  "a_provider (skipped_attempt p) = p" "a_outcome (skipped_attempt p) = FailedVerdict" "a_skipped (skipped_attempt p)"
  by (simp_all add: ok_attempt_def empty_attempt_def failed_attempt_def skipped_attempt_def)

lemma single_sel [simp]:
  "requests p [a] = of_bool (a_provider a = p)"
  "failed_classes [a] = (if a_outcome a = FailedVerdict \<and> \<not> a_skipped a then [the (a_failureClass a)] else [])"
  by (simp_all add: requests_def failed_classes_def)

lemma within_mono: "within c as \<Longrightarrow> (\<And>p. c p \<le> d p) \<Longrightarrow> within d as"
  unfolding within_def by (meson order_trans)

lemma within_snoc:
  assumes "within c as" "\<And>p. c p + of_bool (p = a_provider a) \<le> d p"
  shows "within d (as @ [a])"
  unfolding within_def
proof
  fix p
  have "requests p as \<le> c p" using assms(1) by (simp add: within_def)
  then show "requests p (as @ [a]) \<le> d p" using assms(2) [of p] by (auto simp: eq_commute)
qed

lemma turn_cap_le: "turn_cap all ps p \<le> turn_cap all [] p"
  by (simp add: turn_cap_def)

lemma find_code: "map_option e_code (List.find (\<lambda>f. e_code f = c) fs) = (if c \<in> e_code ` set fs then Some c else None)"
  by (induction fs) auto

lemma final_failure_class:
  assumes "fs \<noteq> []"
  shows "e_code (final_failure fs) = final_class (map e_code fs)"
proof -
  have hit: "\<exists>f. List.find (\<lambda>f. e_code f = c) fs = Some f \<and> e_code f = c" if "c \<in> e_code ` set fs" for c
    using find_code [of c fs] that by (cases "List.find (\<lambda>f. e_code f = c) fs") auto
  have miss: "List.find (\<lambda>f. e_code f = c) fs = None" if "c \<notin> e_code ` set fs" for c
    using find_code [of c fs] that by (cases "List.find (\<lambda>f. e_code f = c) fs") auto
  obtain f fs' where fs: "fs = f # fs'" using assms by (cases fs) auto
  consider (a) "AuthenticationFailed \<in> e_code ` set fs"
    | (q) "AuthenticationFailed \<notin> e_code ` set fs" "QuotaExhausted \<in> e_code ` set fs"
    | (r) "AuthenticationFailed \<notin> e_code ` set fs" "QuotaExhausted \<notin> e_code ` set fs" "RateLimited \<in> e_code ` set fs"
    | (n) "AuthenticationFailed \<notin> e_code ` set fs" "QuotaExhausted \<notin> e_code ` set fs" "RateLimited \<notin> e_code ` set fs"
    by blast
  then show ?thesis
  proof cases
    case a
    then show ?thesis using hit [OF a] by (auto simp: final_failure_def FINAL_CLASS_PRIORITY_def final_class_def)
  next
    case q
    then show ?thesis using hit [OF q(2)] miss [OF q(1)]
      by (auto simp: final_failure_def FINAL_CLASS_PRIORITY_def final_class_def)
  next
    case r
    then show ?thesis using hit [OF r(3)] miss [OF r(1)] miss [OF r(2)]
      by (auto simp: final_failure_def FINAL_CLASS_PRIORITY_def final_class_def)
  next
    case n
    then show ?thesis using miss [OF n(1)] miss [OF n(2)] miss [OF n(3)]
      by (simp add: final_failure_def FINAL_CLASS_PRIORITY_def final_class_def fs)
  qed
qed

lemma find_None_set: "first_empty as = None \<longleftrightarrow> (\<forall>a \<in> set as. a_outcome a \<noteq> EmptyVerdict)"
  by (auto simp: first_empty_def find_None_iff)

lemma search_finish_ok:
  assumes "search_finish rd r k = (r', n)" "history_ok k"
    "within (turn_cap (rt_providers r) []) (k_attempts k)"
  shows "next_ok r' n"
proof -
  have ps: "rt_providers r' = rt_providers r" using search_finish_sel [OF assms(1)] by (simp add: conf_def)
  have v: "a_outcome a = FailedVerdict" if "first_empty (k_attempts k) = None" "a \<in> set (k_attempts k)" for a
    using assms(2) that by (cases "a_outcome a") (auto simp: history_ok_def find_None_set)
  have c: "e_code (final_failure (k_failures k)) = final_class (failed_classes (k_attempts k))" if "k_failures k \<noteq> []"
    using final_failure_class [OF that] assms(2) by (simp add: history_ok_def)
  have e: "failed_classes (k_attempts k) = []" if "k_failures k = []"
    using that assms(2) by (simp add: history_ok_def)
  have nok: "\<not> (\<exists>a\<in>set (k_attempts k). a_outcome a = OkVerdict)" using assms(2) by (auto simp: history_ok_def)
  have em: "k_emptyFrom k = first_empty (k_attempts k)" using assms(2) by (simp add: history_ok_def)
  show ?thesis
  proof (cases "k_emptyFrom k")
    case (Some p)
    have "n = Finished (Inr (response k p [] (k_attempts k) (t_ended rd)))"
      using assms(1) Some by (simp add: search_finish_def)
    then show ?thesis using assms(3) nok em Some by (simp add: response_def ps)
  next
    case None
    have v': "\<forall>a \<in> set (k_attempts k). a_outcome a = FailedVerdict" using v None em by simp
    consider "k_deadlineCut k" | "\<not> k_deadlineCut k" "k_failures k = []" | "\<not> k_deadlineCut k" "k_failures k \<noteq> []" by blast
    then show ?thesis
    proof cases
      case 1
      then have "n = Finished (Inl (deadline_error r, k_attempts k))"
        using assms(1) None by (simp add: search_finish_def)
      then show ?thesis using assms(3) v' by (simp add: deadline_error_def ps)
    next
      case 2
      then have "n = Finished (Inl (all_skipped_error, k_attempts k))"
        using assms(1) None by (simp add: search_finish_def)
      then show ?thesis using assms(3) v' e [OF 2(2)] by (simp add: all_skipped_error_def final_class_def ps)
    next
      case 3
      then have "n = Finished (Inl (final_failure (k_failures k), k_attempts k))"
        using assms(1) None by (simp add: search_finish_def)
      then show ?thesis using assms(3) v' c [OF 3(2)] by (simp add: ps)
    qed
  qed
qed

lemma scan_ok:
  assumes "scan rd ps r k = (r', n)" "turn_ok (rt_providers r) ps k"
  shows "next_ok r' n"
proof (rule scan_rule [OF assms(1), where J = "\<lambda>ps x k. turn_ok (rt_providers r) ps k \<and> conf x = conf r"])
  show "turn_ok (rt_providers r) ps k \<and> conf r = conf r" using assms(2) by simp
next
  fix x k r' n
  assume J: "turn_ok (rt_providers r) [] k \<and> conf x = conf r" and f: "search_finish rd x k = (r', n)"
  then show "next_ok r' n" by (intro search_finish_ok [OF f]) (auto simp: turn_ok_def conf_def)
next
  fix p ps x k r' n
  assume J: "turn_ok (rt_providers r) (p # ps) k \<and> conf x = conf r"
    and f: "search_finish rd x (k\<lparr>k_deadlineCut := True\<rparr>) = (r', n)"
  have "within (turn_cap (rt_providers r) []) (k_attempts k)"
    using J unfolding turn_ok_def by (blast intro: within_mono turn_cap_le)
  then show "next_ok r' n" using J by (intro search_finish_ok [OF f]) (auto simp: turn_ok_def conf_def history_ok_def)
next
  fix p ps x k x1
  assume J: "turn_ok (rt_providers r) (p # ps) k \<and> conf x = conf r"
    and ad: "admit p (t_turn rd p) x = (False, x1)"
  have "within (turn_cap (rt_providers r) ps) (k_attempts k @ [skipped_attempt p])"
    using J by (intro within_snoc [of "turn_cap (rt_providers r) (p # ps)"]) (auto simp: turn_ok_def turn_cap_def)
  moreover have "conf x1 = conf x" using admit_sel [OF ad] by simp
  ultimately show "turn_ok (rt_providers r) ps (k\<lparr>k_attempts := k_attempts k @ [skipped_attempt p]\<rparr>) \<and>
      conf (upd_pm p (\<lambda>m. m\<lparr>pm_skipped := pm_skipped m + 1\<rparr>) x1) = conf r"
    using J by (auto simp: turn_ok_def history_ok_def first_empty_snoc split: option.splits)
next
  fix p ps x k b x1
  assume J: "turn_ok (rt_providers r) (p # ps) k \<and> conf x = conf r" and ad: "admit p (t_turn rd p) x = (b, x1)"
  have "conf x1 = conf r" using admit_sel [OF ad] J by simp
  then have ps: "rt_providers x1 = rt_providers r" "rt_totalMs x1 = rt_totalMs x" using J by (auto simp: conf_def)
  have "(turn_cap (rt_providers r) ps)(p := 0) = turn_cap (rt_providers r) (p # ps)"
    by (rule ext) (auto simp: turn_cap_def)
  then show "next_ok x1 (Await (k\<lparr>k_rest := ps, k_provider := p,
        k_providerDeadline := min (t_turn rd p + rt_budgetMs x) (k_started k + rt_totalMs x),
        k_retried := False, k_attemptStart := t_start rd, k_sleeping := False\<rparr>))"
    using J by (auto simp: search_ok_def turn_ok_def history_ok_def ps)
qed

lemma next_provider_ok:
  assumes "next_provider rd r k = (r', n)" "turn_ok (rt_providers r) (k_rest k) k"
  shows "next_ok r' n"
proof -
  have "within (turn_cap (rt_providers r) []) (k_attempts k)"
    using assms(2) unfolding turn_ok_def by (blast intro: within_mono turn_cap_le)
  then show ?thesis
    using assms search_finish_ok [of rd r k r' n] scan_ok [of rd "k_rest k" r k r' n]
    by (simp add: next_provider_def turn_ok_def split: if_splits)
qed

lemma search_begin_ok:
  assumes "search_begin q t rd r = (r', n)" "distinct (rt_providers r)"
  shows "next_ok r' n"
proof -
  have "turn_ok (rt_providers r) (rt_providers r) (new_search q t)"
    using assms(2) by (simp add: turn_ok_def history_ok_def new_search_def first_empty_def failed_classes_def
        requests_def within_def)
  then show ?thesis using assms(1) by (auto simp: search_begin_def intro: scan_ok)
qed

text \<open>After an attempt that did not answer, the loop goes on from \<open>k_rest\<close>: the record holds at most one
  more entry for the current provider.\<close>

lemma turn_after:
  assumes "search_ok r k" "a_provider a = k_provider k" "history_ok k'"
    "k_attempts k' = k_attempts k @ [a]" "k_rest k' = k_rest k" "rt_providers r' = rt_providers r"
  shows "turn_ok (rt_providers r') (k_rest k') k'"
proof -
  have "within (turn_cap (rt_providers r) (k_rest k)) (k_attempts k @ [a])"
    by (rule within_snoc [of "(turn_cap (rt_providers r) (k_rest k))(k_provider k := of_bool (k_retried k))"])
      (use assms(1,2) in \<open>auto simp: search_ok_def turn_cap_def\<close>)
  then show ?thesis using assms by (simp add: turn_ok_def search_ok_def)
qed

lemma attempt_ok_ok:
  assumes "attempt_ok rd results r k = (r', n)" "search_ok r k"
  shows "next_ok r' n"
proof -
  have "n = Finished (Inr (response k (k_provider k) results
      (k_attempts k @ [ok_attempt (k_provider k) (t_end rd - k_attemptStart k)]) (t_ended rd)))"
    and ps: "rt_providers r' = rt_providers r"
    using assms(1) by (auto simp: attempt_ok_def Let_def recordSuccess_def set_breaker_def upd_pm_def split: if_splits)
  moreover have "within (turn_cap (rt_providers r) []) (k_attempts k @ [ok_attempt (k_provider k) d])" for d
    by (rule within_snoc [of "(turn_cap (rt_providers r) (k_rest k))(k_provider k := of_bool (k_retried k))"])
      (use assms(2) in \<open>auto simp: search_ok_def turn_cap_def\<close>)
  ultimately show ?thesis by (simp add: response_def)
qed

lemma attempt_empty_ok:
  assumes "attempt_empty rd err r k = (r', n)" "search_ok r k"
  shows "next_ok r' n"
  using assms(1) unfolding attempt_empty_def Let_def
proof (rule next_provider_ok)
  have ps: "rt_providers (recordFailure p c t (upd_pm p f r)) = rt_providers r" for p c t f
    using recordFailure_sel(1) [of p c t "upd_pm p f r"] upd_pm_sel(1) [of p f r] by (simp add: conf_def)
  show "turn_ok (rt_providers (recordFailure (k_provider k) (e_code err) (t_end rd)
        (upd_pm (k_provider k) (\<lambda>m. m\<lparr>pm_empty := pm_empty m + 1\<rparr>) r)))
      (k_rest (k\<lparr>k_attempts := k_attempts k @ [empty_attempt (k_provider k) err (t_end rd - k_attemptStart k)],
        k_emptyFrom := (case k_emptyFrom k of None \<Rightarrow> Some (k_provider k) | Some q \<Rightarrow> Some q)\<rparr>))
      (k\<lparr>k_attempts := k_attempts k @ [empty_attempt (k_provider k) err (t_end rd - k_attemptStart k)],
        k_emptyFrom := (case k_emptyFrom k of None \<Rightarrow> Some (k_provider k) | Some q \<Rightarrow> Some q)\<rparr>)"
    using assms(2)
    by (intro turn_after [OF assms(2)])
      (auto simp: ps search_ok_def history_ok_def first_empty_snoc split: option.splits)
qed

lemma attempt_failed_ok:
  assumes "attempt_failed rd err t r k = (r', n)" "search_ok r k"
  shows "next_ok r' n"
proof -
  let ?a = "failed_attempt (k_provider k) err (t_end rd - k_attemptStart k)"
  let ?k = "k\<lparr>k_attempts := k_attempts k @ [?a], k_failures := k_failures k @ [err],
    k_deadlineCut := (k_deadlineCut k \<or> t \<and> k_providerDeadline k = k_started k + rt_totalMs r)\<rparr>"
  have h: "history_ok ?k" using assms(2) by (auto simp: search_ok_def history_ok_def first_empty_snoc split: option.splits)
  show ?thesis
  proof (cases "retry_fits (t_fits rd) err k")
    case True
    then have n: "n = Await (?k\<lparr>k_retried := True, k_sleeping := True\<rparr>)" and c: "conf r' = conf r" and "\<not> k_retried k"
      using assms(1) by (auto simp: attempt_failed_def Let_def retry_fits_def)
    moreover have "within ((turn_cap (rt_providers r) (k_rest k))(k_provider k := 1)) (k_attempts k @ [?a])"
      by (rule within_snoc [of "(turn_cap (rt_providers r) (k_rest k))(k_provider k := of_bool (k_retried k))"])
        (use assms(2) \<open>\<not> k_retried k\<close> in \<open>auto simp: search_ok_def\<close>)
    ultimately show ?thesis using assms(2) h by (auto simp: search_ok_def history_ok_def conf_def)
  next
    case False
    have ps: "rt_providers (recordFailure p c t (upd_pm p f r)) = rt_providers r" for p c t f
      using recordFailure_sel(1) [of p c t "upd_pm p f r"] upd_pm_sel(1) [of p f r] by (simp add: conf_def)
    from False have "next_provider rd (recordFailure (k_provider k) (e_code err) (t_record rd)
        (upd_pm (k_provider k) (\<lambda>m. m\<lparr>pm_failed := pm_failed m @ [e_code err]\<rparr>) r)) ?k = (r', n)"
      using assms(1) by (simp add: attempt_failed_def Let_def)
    then show ?thesis by (rule next_provider_ok) (rule turn_after [OF assms(2) _ h]; simp add: ps)
  qed
qed

lemma search_settled_ok:
  assumes "search_settled rd reply r k = (r', n)" "search_ok r k"
  shows "next_ok r' n"
proof -
  have "search_ok (upd_pm p f r) k" for p f using assms(2) by (simp add: search_ok_def upd_pm_def)
  then show ?thesis
    using assms(1) unfolding search_settled_def Let_def
    by (auto split: attempt_outcome.splits if_splits intro: attempt_ok_ok attempt_empty_ok attempt_failed_ok)
qed

section \<open>Counters\<close>

text \<open>\<open>n\<close> attempts are counted whose verdict is not yet.\<close>

definition pm_balance :: "nat \<Rightarrow> provider_metrics \<Rightarrow> bool" where
  "pm_balance n m \<longleftrightarrow> pm_attempts m = pm_ok m + pm_empty m + length (pm_failed m) + n \<and>
     pm_durCount m = pm_attempts m \<and> pm_retries m \<le> count_list (pm_failed m) RateLimited"

definition metrics_ok :: "router \<Rightarrow> bool" where
  "metrics_ok r \<longleftrightarrow> (\<forall>p. pm_balance 0 (rt_metrics r p))"

lemma metrics_okD: "metrics_ok r \<Longrightarrow> pm_balance 0 (rt_metrics r p)"
  by (simp add: metrics_ok_def)

lemma metrics_upd: "metrics_ok r \<Longrightarrow> pm_balance 0 (f (rt_metrics r p)) \<Longrightarrow> metrics_ok (upd_pm p f r)"
  by (simp add: metrics_ok_def)

lemma metrics_same: "metrics_ok r \<Longrightarrow> rt_metrics r' = rt_metrics r \<Longrightarrow> metrics_ok r'"
  by (simp add: metrics_ok_def)

lemma metrics_open: "metrics_ok r \<Longrightarrow> metrics_ok (open_breaker p now r)"
  unfolding open_breaker_def by (rule metrics_upd) (auto simp: metrics_ok_def pm_balance_def)

lemma metrics_set_breaker [simp]: "metrics_ok (set_breaker p b r) = metrics_ok r"
  by (simp add: metrics_ok_def)

lemma metrics_recordFailure: "metrics_ok r \<Longrightarrow> metrics_ok (recordFailure p c now r)"
  unfolding recordFailure_cases
  by (cases "classPolicy c"; cases "rt_breakers r p") (simp_all add: metrics_open recordSuccess_def)

lemma metrics_scan: "scan rd ps r k = (r', n) \<Longrightarrow> metrics_ok r \<Longrightarrow> metrics_ok r'"
proof (rule scan_rule [where J = "\<lambda>_ r _. metrics_ok r" and Q = "\<lambda>r _. metrics_ok r"], assumption, assumption)
  fix p r r1
  assume m: "metrics_ok r" and "admit p (t_turn rd p) r = (False, r1)"
  then have "metrics_ok r1" using admit_sel [of p _ r False r1] metrics_same by blast
  then show "metrics_ok (upd_pm p (\<lambda>m. m\<lparr>pm_skipped := pm_skipped m + 1\<rparr>) r1)"
    by (rule metrics_upd) (use metrics_okD [OF \<open>metrics_ok r1\<close>, of p] in \<open>simp add: pm_balance_def\<close>)
qed (use search_finish_sel admit_sel metrics_same in blast)+

lemma metrics_next_provider: "next_provider rd r k = (r', n) \<Longrightarrow> metrics_ok r \<Longrightarrow> metrics_ok r'"
  using metrics_scan [of rd "k_rest k" r k r' n] search_finish_sel [of rd r k r' n] metrics_same
  by (auto simp: next_provider_def split: if_splits)

lemma metrics_settled:
  assumes "search_settled rd reply r k = (r', n)" "metrics_ok r"
  shows "metrics_ok r'"
proof -
  let ?p = "k_provider k" and ?c = "count_attempt (t_end rd - k_attemptStart k)"
  have due: "pm_balance 1 (?c (rt_metrics r ?p))"
    using metrics_okD [OF assms(2), of ?p] by (simp add: pm_balance_def count_attempt_def)
  have pay: "metrics_ok (upd_pm ?p f (upd_pm ?p ?c r))" if "pm_balance 0 (f (?c (rt_metrics r ?p)))" for f
    using that assms(2) by (simp add: metrics_ok_def)
  show ?thesis
  proof (cases "runAttempt reply")
    case (AttemptOk results)
    have "metrics_ok (upd_pm ?p (\<lambda>m. m\<lparr>pm_ok := pm_ok m + 1\<rparr>) (upd_pm ?p ?c r))"
      by (rule pay) (use due in \<open>simp add: pm_balance_def\<close>)
    then show ?thesis
      by (rule metrics_same) (use assms(1) AttemptOk in \<open>auto simp: search_settled_def attempt_ok_def Let_def split: if_splits\<close>)
  next
    case (AttemptFailed err t)
    show ?thesis
    proof (cases "e_code err = EmptyResults")
      case True
      have "metrics_ok (upd_pm ?p (\<lambda>m. m\<lparr>pm_empty := pm_empty m + 1\<rparr>) (upd_pm ?p ?c r))"
        by (rule pay) (use due in \<open>simp add: pm_balance_def\<close>)
      then show ?thesis
        using assms(1) AttemptFailed True
        by (auto simp: search_settled_def attempt_empty_def Let_def elim!: metrics_next_provider
            intro: metrics_recordFailure)
    next
      case False
      let ?f = "\<lambda>m. m\<lparr>pm_failed := pm_failed m @ [e_code err]\<rparr>"
      have m: "metrics_ok (upd_pm ?p ?f (upd_pm ?p ?c r))"
        by (rule pay) (use due in \<open>simp add: pm_balance_def\<close>)
      have "metrics_ok (upd_pm ?p (\<lambda>m. m\<lparr>pm_retries := pm_retries m + 1\<rparr>) (upd_pm ?p ?f (upd_pm ?p ?c r)))"
        if "e_code err = RateLimited"
        by (rule metrics_upd [OF m]) (use due that in \<open>simp add: pm_balance_def\<close>)
      then show ?thesis
        using assms(1) AttemptFailed False metrics_recordFailure [OF m]
        by (auto simp: search_settled_def attempt_failed_def Let_def retry_fits_def
            split: if_splits elim!: metrics_next_provider)
    qed
  qed
qed

section \<open>The pool\<close>

definition callers :: "(nat \<times> search) list \<Rightarrow> string set" where
  "callers act = k_provider ` ran (map_of act)"

definition pool_inv :: "string list \<Rightarrow> search_pool \<Rightarrow> bool" where
  "pool_inv ps m \<longleftrightarrow> rt_providers (sp_router m) = ps \<and> distinct ps \<and> distinct (map fst (sp_active m)) \<and>
     breakers_ok (sp_router m) (callers (sp_active m)) \<and>
     (\<forall>k \<in> ran (map_of (sp_active m)). search_ok (sp_router m) k) \<and>
     (\<forall>e \<in> snd ` set (sp_done m). end_ok ps e) \<and> metrics_ok (sp_router m) \<and>
     rt_searches (sp_router m) = length (sp_active m) + length (sp_done m)"

lemma search_ok_conf: "conf r' = conf r \<Longrightarrow> search_ok r' k = search_ok r k"
  by (simp add: search_ok_def conf_def)

lemma pool_resume:
  assumes inv: "pool_inv ps m" and c: "conf r' = conf (sp_router m)"
    and b: "breakers_ok r' (callers (alist_del s (sp_active m)) \<union> called_by n)"
    and n: "next_ok r' n" and me: "metrics_ok r'"
    and cnt: "rt_searches r' = length (alist_del s (sp_active m)) + length (sp_done m) + 1"
  shows "pool_inv ps (resume s (r', n) m)"
proof -
  have ps: "rt_providers r' = ps" using inv c by (simp add: pool_inv_def conf_def)
  have rest: "search_ok r' k" if "k \<in> ran ((map_of (sp_active m))(s := None))" for k
  proof -
    have "k \<in> ran (map_of (sp_active m))" using that by (auto simp: ran_def split: if_splits)
    then show ?thesis using inv search_ok_conf [OF c, of k] by (simp add: pool_inv_def)
  qed
  show ?thesis
  proof (cases n)
    case (Await k)
    have r: "ran ((map_of (sp_active m))(s \<mapsto> k)) = insert k (ran ((map_of (sp_active m))(s := None)))"
      by (auto simp: ran_def)
    have "callers (alist_put s k (sp_active m)) = callers (alist_del s (sp_active m)) \<union> {k_provider k}"
      by (simp add: callers_def r)
    then show ?thesis
      using inv b n me cnt rest Await
      by (auto simp: pool_inv_def resume_def ps r length_alist_put distinct_alist_put)
  next
    case (Finished e)
    then show ?thesis
      using inv b n me cnt rest by (auto simp: pool_inv_def resume_def ps distinct_alist_del)
  qed
qed

lemma pool_begin:
  assumes "pool_inv ps m" "s \<notin> fst ` set (sp_active m)"
  shows "pool_inv ps (resume s (search_begin q t rd (sp_router m)) m)"
proof -
  obtain r' n where sb: "search_begin q t rd (sp_router m) = (r', n)" by fastforce
  have d: "alist_del s (sp_active m) = sp_active m"
    using assms(2) by (auto simp: alist_del_def filter_id_conv)
  note sc = sb [unfolded search_begin_def]
  have "breakers_ok r' (callers (sp_active m) \<union> called_by n)"
    by (rule breakers_scan [OF sc]) (use assms(1) in \<open>simp add: pool_inv_def\<close>)
  moreover have "next_ok r' n" by (rule search_begin_ok [OF sb]) (use assms(1) in \<open>auto simp: pool_inv_def\<close>)
  moreover have "metrics_ok r'"
    by (rule metrics_scan [OF sc]) (use assms(1) in \<open>simp add: pool_inv_def metrics_ok_def\<close>)
  moreover have "conf r' = conf (sp_router m)" "rt_searches r' = rt_searches (sp_router m) + 1"
    using scan_conf [OF sc] by simp_all
  ultimately show ?thesis
    unfolding sb using assms(1) by (intro pool_resume) (auto simp: d pool_inv_def)
qed

lemma map_of_put_same: "map_of xs s = Some k \<Longrightarrow> ran (map_of xs) = insert k (ran ((map_of xs)(s := None)))"
  unfolding ran_def by (auto simp: fun_upd_def) (metis option.inject)

lemma pool_settled:
  assumes "pool_inv ps m" "map_of (sp_active m) s = Some k"
  shows "pool_inv ps (resume s (search_settled rd reply (sp_router m) k) m)"
proof -
  obtain r' n where sb: "search_settled rd reply (sp_router m) k = (r', n)" by fastforce
  have ran: "ran (map_of (sp_active m)) = insert k (ran (map_of (alist_del s (sp_active m))))"
    using map_of_put_same [OF assms(2)] by simp
  have "breakers_ok r' (callers (alist_del s (sp_active m)) \<union> called_by n)"
    by (rule breakers_settled [OF sb]) (use assms(1) in \<open>simp add: pool_inv_def callers_def ran\<close>)
  moreover have "next_ok r' n"
    by (rule search_settled_ok [OF sb]) (use assms(1) in \<open>simp add: pool_inv_def ran\<close>)
  moreover have "metrics_ok r'" by (rule metrics_settled [OF sb]) (use assms(1) in \<open>simp add: pool_inv_def\<close>)
  moreover have "conf r' = conf (sp_router m)" "rt_searches r' = rt_searches (sp_router m)"
    using search_settled_conf [OF sb] by simp_all
  moreover have "length (sp_active m) = length (alist_del s (sp_active m)) + 1"
    using length_alist_del [of "sp_active m" s] assms(1) map_of_SomeD [OF assms(2)]
    by (simp add: pool_inv_def image_iff) (metis fst_conv)
  ultimately show ?thesis
    unfolding sb using assms(1) by (intro pool_resume) (auto simp: pool_inv_def)
qed

lemma pool_wake:
  assumes "pool_inv ps m" "map_of (sp_active m) s = Some k"
  shows "pool_inv ps (m\<lparr>sp_active := alist_put s (search_wake t k) (sp_active m)\<rparr>)"
proof -
  have "search_ok (sp_router m) k" using assms by (auto simp: pool_inv_def ranI)
  then have w: "next_ok (sp_router m) (Await (search_wake t k))"
    by (simp add: search_ok_def search_wake_def history_ok_def)
  have ran: "ran (map_of (sp_active m)) = insert k (ran (map_of (alist_del s (sp_active m))))"
    using map_of_put_same [OF assms(2)] by simp
  have "breakers_ok (sp_router m) (callers (alist_del s (sp_active m)) \<union> called_by (Await (search_wake t k)))"
    using assms(1) by (simp add: pool_inv_def callers_def ran search_wake_def insert_commute)
  moreover have "length (sp_active m) = length (alist_del s (sp_active m)) + 1"
    using length_alist_del [of "sp_active m" s] assms(1) map_of_SomeD [OF assms(2)]
    by (simp add: pool_inv_def image_iff) (metis fst_conv)
  ultimately have "pool_inv ps (resume s (sp_router m, Await (search_wake t k)) m)"
    using assms(1) w by (intro pool_resume) (auto simp: pool_inv_def)
  then show ?thesis by (simp add: resume_def)
qed

lemma pool_step: "pool_inv ps m \<Longrightarrow> sstep m e m' \<Longrightarrow> pool_inv ps m'"
  by (cases e) (auto simp: sstep_def pool_begin pool_settled pool_wake split: if_splits option.splits)

lemma first_dup_None: "first_dup seen ns = None \<longleftrightarrow> distinct ns \<and> set ns \<inter> set seen = {}"
  by (induction ns arbitrary: seen) auto

lemma pool_init: "fresh_pool opts m \<Longrightarrow> pool_inv (ro_providers opts) m"
  by (auto simp: fresh_pool_def createSearchRouter_def pool_inv_def breakers_ok_def metrics_ok_def pm_balance_def
      emptyProviderMetrics_def first_dup_None split: if_splits option.splits)

interpretation search_pool: inductive_invariant "fresh_pool opts" sstep "pool_inv (ro_providers opts)"
  by unfold_locales (fact pool_init, fact pool_step)

section \<open>The guarantees\<close>

lemma run_pool_reachable:
  "run search_step es m = Some m' \<Longrightarrow> fresh_pool opts m \<Longrightarrow> reachable (fresh_pool opts) sstep m'"
  by (rule run_reachable [of search_step sstep]) (auto simp: sstep_def intro: reachable.start)

text \<open>Two providers with threshold one; two searches overlap while the second provider is probed.\<close>

definition two_providers :: router_options where
  "two_providers = \<lparr>ro_providers = [''a'', ''b''], ro_providerTimeoutMs = 8000, ro_totalTimeoutMs = 20000,
     ro_breakerThreshold = Some 1, ro_breakerCooldownMs = Some 1000, ro_emptyResultsFallback = None\<rparr>"

definition at_time :: "int \<Rightarrow> readings" where
  "at_time t = \<lparr>t_turn = (\<lambda>_. t), t_start = t, t_end = t, t_fits = t, t_record = t, t_ended = t\<rparr>"

definition start_pool :: search_pool where
  "start_pool = \<lparr>sp_router = projr (createSearchRouter two_providers), sp_active = [], sp_done = []\<rparr>"

definition rate_limited :: search_error where
  "rate_limited = \<lparr>e_code = RateLimited, e_message = [], e_httpStatus = Some 429, e_retryAfterMs = Some 100\<rparr>"

definition probe_events :: "search_event list" where
  "probe_events = [Begin_Search 0 ''q'' 0 (at_time 0), Provider_Settled 0 TimerWon (at_time 10),
     Provider_Settled 0 (Threw rate_limited) (at_time 20), Sleep_Over 0 120,
     Provider_Settled 0 (Answered []) (at_time 130), Begin_Search 1 ''r'' 2000 (at_time 2000)]"

definition probe_pool :: search_pool where
  "probe_pool = the (run search_step probe_events start_pool)"

lemma start_pool_fresh: "fresh_pool two_providers start_pool"
  by (simp add: fresh_pool_def start_pool_def two_providers_def createSearchRouter_def)

lemma probe_pool_reachable: "reachable (fresh_pool two_providers) sstep probe_pool"
proof -
  have "run search_step probe_events start_pool \<noteq> None" by code_simp
  then show ?thesis
    unfolding probe_pool_def using start_pool_fresh by (auto intro: run_pool_reachable)
qed



lemma scan_one_probe:
  assumes "scan rd ps r k = (r', n)" "rt_breakers r p = BHalfOpen True"
  shows "p \<notin> called_by n"
proof (rule scan_rule [OF assms(1), where J = "\<lambda>_ r _. rt_breakers r p = BHalfOpen True"])
  fix q r r1
  assume h: "rt_breakers r p = BHalfOpen True" and "admit q (t_turn rd q) r = (False, r1)"
  then show "rt_breakers (upd_pm q (\<lambda>m. m\<lparr>pm_skipped := pm_skipped m + 1\<rparr>) r1) p = BHalfOpen True"
    by (auto simp: admit_def split: breaker.splits if_splits)
next
  fix q ps r k b r1
  assume h: "rt_breakers r p = BHalfOpen True" and ad: "admit q (t_turn rd q) r = (b, r1)"
    and c: "b \<or> \<not> attempted_any k \<and> \<not> is_half_open (rt_breakers r1 q)"
  have "q \<noteq> p"
  proof
    assume "q = p"
    then have "\<not> b" "r1 = r" using h ad by (simp_all add: admit_def)
    with c h \<open>q = p\<close> show False by (simp add: is_half_open_def)
  qed
  then show "p \<notin> called_by (Await (k\<lparr>k_rest := ps, k_provider := q,
        k_providerDeadline := min (t_turn rd q + rt_budgetMs r) (k_started k + rt_totalMs r),
        k_retried := False, k_attemptStart := t_start rd, k_sleeping := False\<rparr>))" by simp
qed (use assms(2) in \<open>auto simp: search_finish_def split: option.splits if_splits\<close>)

lemma recordFailure_other: "q \<noteq> p \<Longrightarrow> rt_breakers (recordFailure q c now r) p = rt_breakers r p"
  unfolding recordFailure_cases
  by (cases "classPolicy c"; cases "rt_breakers r q") (simp_all add: recordSuccess_def)

lemma next_provider_one_probe:
  "next_provider rd r k = (r', n) \<Longrightarrow> rt_breakers r p = BHalfOpen True \<Longrightarrow> p \<notin> called_by n"
  using scan_one_probe [of rd "k_rest k" r k r' n p]
  by (auto simp: next_provider_def search_finish_def split: if_splits option.splits)

lemma settled_one_probe:
  assumes "search_settled rd reply r k = (r', n)" "rt_breakers r p = BHalfOpen True" "k_provider k \<noteq> p"
  shows "p \<notin> called_by n"
  using assms
  by (auto simp: search_settled_def attempt_ok_def attempt_empty_def attempt_failed_def Let_def
      split: attempt_outcome.splits if_splits dest!: next_provider_one_probe [where p = p]
      simp: recordFailure_other)

text \<open>While a provider is half-open it gets no second request: no search that starts, and no search
  that moves on from another provider, is sent to it, the last-resort rule included.\<close>

theorem one_probe_at_a_time:
  assumes "reachable (fresh_pool opts) sstep m" "is_half_open (rt_breakers (sp_router m) p)"
  shows "(snd (search_begin q t rd (sp_router m)) = Await k' \<longrightarrow> k_provider k' \<noteq> p) \<and>
    (k_provider k \<noteq> p \<longrightarrow> snd (search_settled rd reply (sp_router m) k) = Await k' \<longrightarrow> k_provider k' \<noteq> p)"
proof (intro conjI)
  have "breakers_ok (sp_router m) (callers (sp_active m))"
    using search_pool.always [OF assms(1)] by (simp add: pool_inv_def)
  from breakers_okD [OF this, of p] assms(2) have h: "rt_breakers (sp_router m) p = BHalfOpen True"
    by (cases "rt_breakers (sp_router m) p") (auto simp: is_half_open_def)
  show "snd (search_begin q t rd (sp_router m)) = Await k' \<longrightarrow> k_provider k' \<noteq> p"
    using scan_one_probe [of rd _ "(sp_router m)\<lparr>rt_searches := rt_searches (sp_router m) + 1\<rparr>"
        "new_search q t" _ "Await k'" p] h
    by (auto simp: search_begin_def prod_eq_iff)
  show "k_provider k \<noteq> p \<longrightarrow> snd (search_settled rd reply (sp_router m) k) = Await k' \<longrightarrow> k_provider k' \<noteq> p"
    using settled_one_probe [of rd reply "sp_router m" k _ "Await k'" p] h by (auto simp: prod_eq_iff)
qed

theorem one_probe_at_a_time_witness:
  "\<exists>k. snd (search_begin ''s'' 2010 (at_time 2010) (sp_router probe_pool)) = Await k \<and> k_provider k \<noteq> ''a''"
proof -
  have h: "is_half_open (rt_breakers (sp_router probe_pool) ''a'')" by code_simp
  have "called_by (snd (search_begin ''s'' 2010 (at_time 2010) (sp_router probe_pool))) = {''b''}" by code_simp
  then obtain k where "snd (search_begin ''s'' 2010 (at_time 2010) (sp_router probe_pool)) = Await k"
    by (cases "snd (search_begin ''s'' 2010 (at_time 2010) (sp_router probe_pool))") auto
  then show ?thesis using one_probe_at_a_time [OF probe_pool_reachable h] by blast
qed

text \<open>The deadline arithmetic of the next call: a search moves on only with \<open>MIN_ATTEMPT_MS\<close> of the total
  left, and the provider's budget starts at its turn.\<close>

definition call_ok :: "readings \<Rightarrow> router \<Rightarrow> search \<Rightarrow> bool" where
  "call_ok rd r k \<longleftrightarrow> (let turn = t_turn rd (k_provider k); total = k_started k + rt_totalMs r in
     turn + MIN_ATTEMPT_MS \<le> total \<and> k_providerDeadline k = min (turn + rt_budgetMs r) total)"

lemma budget_frame:
  "rt_budgetMs (upd_pm p f r) = rt_budgetMs r" "rt_budgetMs (set_breaker p b r) = rt_budgetMs r"
  "rt_budgetMs (recordFailure p c now r) = rt_budgetMs r"
  "rt_totalMs (upd_pm p f r) = rt_totalMs r" "rt_totalMs (set_breaker p b r) = rt_totalMs r"
  "rt_totalMs (recordFailure p c now r) = rt_totalMs r"
  by (simp_all add: upd_pm_def set_breaker_def recordFailure_def recordSuccess_def open_breaker_def Let_def
      split: breaker.splits)

lemma budget_admit: "admit p now r = (b, r') \<Longrightarrow> rt_budgetMs r' = rt_budgetMs r \<and> rt_totalMs r' = rt_totalMs r"
  by (auto simp: admit_def budget_frame split: breaker.splits if_splits)

lemma scan_call_ok:
  assumes "scan rd ps r k = (r', Await k')"
  shows "call_ok rd r k' \<and> k_started k' = k_started k \<and> \<not> k_sleeping k'"
proof -
  have "case Await k' of Await k' \<Rightarrow> call_ok rd r k' \<and> k_started k' = k_started k \<and> \<not> k_sleeping k' | Finished e \<Rightarrow> True"
    by (rule scan_rule [OF assms, where J = "\<lambda>_ x y. rt_budgetMs x = rt_budgetMs r \<and> rt_totalMs x = rt_totalMs r \<and> k_started y = k_started k"])
      (auto simp: budget_frame search_finish_def call_ok_def Let_def dest: budget_admit split: option.splits if_splits)
  then show ?thesis by simp
qed

lemma next_provider_call_ok:
  "next_provider rd r k = (r', Await k') \<Longrightarrow> call_ok rd r k' \<and> k_started k' = k_started k \<and> \<not> k_sleeping k'"
  using scan_call_ok [of rd "k_rest k" r k r' k']
  by (auto simp: next_provider_def search_finish_def split: if_splits option.splits)


definition asked_a :: search where
  "asked_a = (new_search ''q'' 0)\<lparr>k_rest := [''b''], k_provider := ''a'', k_providerDeadline := 8000\<rparr>"


section \<open>Every search ends\<close>

text \<open>A search alone: whatever each call and each wait brings, in the order it brings it. The fuel is the
  number of provider calls.\<close>

fun drive :: "nat \<Rightarrow> (nat \<Rightarrow> provider_reply \<times> readings) \<Rightarrow> router \<times> search_next \<Rightarrow> search_end option" where
  "drive n replies (r, Finished e) = Some e"
| "drive 0 replies (r, Await k) = None"
| "drive (Suc n) replies (r, Await k) =
     drive n replies (search_settled (snd (replies n)) (fst (replies n)) r (search_wake (t_start (snd (replies n))) k))"

definition calls_left :: "search_next \<Rightarrow> nat" where
  "calls_left n = (case n of Finished e \<Rightarrow> 0 | Await k \<Rightarrow> 2 * length (k_rest k) + (if k_retried k then 1 else 2))"

lemma scan_calls_left: "scan rd ps r k = (r', n) \<Longrightarrow> calls_left n \<le> 2 * length ps"
proof (induction ps arbitrary: r k)
  case (Cons p ps)
  obtain b r1 where ad: "admit p (t_turn rd p) r = (b, r1)" by fastforce
  show ?case
    using Cons.prems by (auto simp: ad Let_def calls_left_def search_finish_def dest!: Cons.IH
        split: if_splits option.splits)
qed (auto simp: search_finish_def calls_left_def split: option.splits if_splits)

lemma next_provider_calls_left: "next_provider rd r k = (r', n) \<Longrightarrow> calls_left n \<le> 2 * length (k_rest k)"
  using scan_calls_left [of rd "k_rest k" r k r' n]
  by (auto simp: next_provider_def search_finish_def calls_left_def split: if_splits option.splits)

lemma settled_calls_left:
  assumes "search_settled rd reply r k = (r', n)"
  shows "calls_left n < calls_left (Await k)"
  using assms
  by (auto simp: search_settled_def attempt_ok_def attempt_empty_def attempt_failed_def Let_def retry_fits_def
      split: attempt_outcome.splits if_splits dest!: next_provider_calls_left)
    (auto simp: calls_left_def)

lemma search_ok_wake: "search_ok r k \<Longrightarrow> search_ok r (search_wake t k)"
  by (simp add: search_ok_def search_wake_def history_ok_def)

lemma drive_ends:
  assumes "calls_left n \<le> fuel" "next_ok r n"
  shows "\<exists>e. drive fuel replies (r, n) = Some e \<and> end_ok (rt_providers r) e"
  using assms
proof (induction fuel arbitrary: r n)
  case 0
  then show ?case by (cases n) (auto simp: calls_left_def split: if_splits)
next
  case (Suc fuel)
  show ?case
  proof (cases n)
    case (Await k)
    let ?k = "search_wake (t_start (snd (replies fuel))) k"
    obtain r' n' where s: "search_settled (snd (replies fuel)) (fst (replies fuel)) r ?k = (r', n')" by fastforce
    have "next_ok r' n'" using search_settled_ok [OF s] Suc.prems(2) Await by (simp add: search_ok_wake)
    moreover have "calls_left n' \<le> fuel"
      using settled_calls_left [OF s] Suc.prems(1) Await by (simp add: calls_left_def search_wake_def)
    moreover have "rt_providers r' = rt_providers r" using search_settled_conf [OF s] by (simp add: conf_def)
    ultimately show ?thesis using Suc.IH [of n' r'] Await s by auto
  next
    case (Finished e)
    then show ?thesis using Suc.prems by simp
  qed
qed

lemma created_distinct: "createSearchRouter opts = Inr r \<Longrightarrow> distinct (rt_providers r)"
  by (auto simp: createSearchRouter_def first_dup_None split: if_splits option.splits)





text \<open>The counters add up in every reachable state: each provider's attempts are its successes, its
  empty answers and its failures, a retry is made only after a rate limit, and every search started is
  finished or in flight.\<close>

theorem search_metrics_balance:
  assumes "reachable (fresh_pool opts) sstep m"
  shows "pm_attempts (rt_metrics (sp_router m) p) = pm_ok (rt_metrics (sp_router m) p) +
      pm_empty (rt_metrics (sp_router m) p) + length (pm_failed (rt_metrics (sp_router m) p)) \<and>
    pm_retries (rt_metrics (sp_router m) p) \<le> count_list (pm_failed (rt_metrics (sp_router m) p)) RateLimited \<and>
    rt_searches (sp_router m) = length (sp_active m) + length (sp_done m)"
  using search_pool.always [OF assms] metrics_okD [of "sp_router m" p] by (simp add: pool_inv_def pm_balance_def)

theorem search_metrics_balance_witness:
  "rt_searches (sp_router probe_pool) = 2 \<and> pm_attempts (rt_metrics (sp_router probe_pool) ''b'') = 2"
proof -
  have "length (sp_active probe_pool) = 1" "length (sp_done probe_pool) = 1"
    "pm_ok (rt_metrics (sp_router probe_pool) ''b'') = 1" "pm_empty (rt_metrics (sp_router probe_pool) ''b'') = 0"
    "length (pm_failed (rt_metrics (sp_router probe_pool) ''b'')) = 1"
    by code_simp+
  then show ?thesis using search_metrics_balance [OF probe_pool_reachable, of "''b''"] by simp
qed

end
