(* ===== verification/Vault_Crypto.thy ===== *)
theory Vault_Crypto
  imports Prelude "HOL-Library.Word"
begin

text \<open>
  The envelope encryption of the credential vault (\<open>src/security/vault-crypto.ts\<close>): slot fields, the
  length-prefixed authenticated data, sealing and opening a record. Slot fields are JavaScript strings,
  lists of UTF-16 code units, and \<open>Buffer.from(s, "utf8")\<close> and \<open>toString("utf8")\<close> are written out, lone
  surrogates included.

  The cipher is not the repository's code: AES-256-GCM, HKDF and the base64 codec of Node are the
  parameter \<open>node_crypto\<close>, and \<open>node_crypto_ok\<close> states what the code relies on. Random bytes (the data key
  and the two nonces) are arguments of \<open>seal\<close>.
\<close>

type_synonym bytes = "8 word list"
type_synonym utf16 = "16 word list"

section \<open>UTF-8\<close>

definition byte :: "nat \<Rightarrow> 8 word" where
  "byte n = word_of_nat n"

definition unit16 :: "nat \<Rightarrow> 16 word" where
  "unit16 n = word_of_nat n"

definition high_surrogate :: "16 word \<Rightarrow> bool" where
  "high_surrogate u \<longleftrightarrow> 55296 \<le> unat u \<and> unat u < 56320"

definition low_surrogate :: "16 word \<Rightarrow> bool" where
  "low_surrogate u \<longleftrightarrow> 56320 \<le> unat u \<and> unat u < 57344"

fun encode_unit :: "nat \<Rightarrow> bytes" where
  "encode_unit n =
     (if n < 128 then [byte n]
      else if n < 2048 then [byte (192 + n div 64), byte (128 + n mod 64)]
      else [byte (224 + n div 4096), byte (128 + n div 64 mod 64), byte (128 + n mod 64)])"

definition encode_pair :: "nat \<Rightarrow> nat \<Rightarrow> bytes" where
  "encode_pair hi lo =
     (let cp = 65536 + (hi - 55296) * 1024 + (lo - 56320)
      in [byte (240 + cp div 262144), byte (128 + cp div 4096 mod 64), byte (128 + cp div 64 mod 64), byte (128 + cp mod 64)])"

definition REPLACEMENT :: "16 word" where
  "REPLACEMENT = 65533"

fun utf8_encode :: "utf16 \<Rightarrow> bytes" where
  "utf8_encode [] = []"
| "utf8_encode [u] = encode_unit (if high_surrogate u \<or> low_surrogate u then unat REPLACEMENT else unat u)"
| "utf8_encode (u # v # us) =
     (if high_surrogate u \<and> low_surrogate v then encode_pair (unat u) (unat v) @ utf8_encode us
      else encode_unit (if high_surrogate u \<or> low_surrogate u then unat REPLACEMENT else unat u) @ utf8_encode (v # us))"

definition cont :: "8 word \<Rightarrow> bool" where
  "cont b \<longleftrightarrow> 128 \<le> unat b \<and> unat b < 192"

text \<open>The decoder; a byte that starts no well-formed sequence becomes U+FFFD, which no output of
  \<open>utf8_encode\<close> makes happen.\<close>

fun utf8_decode :: "bytes \<Rightarrow> utf16" where
  "utf8_decode [] = []"
| "utf8_decode (b # bs) =
     (if unat b < 128 then unit16 (unat b) # utf8_decode bs
      else case bs of
        [] \<Rightarrow> [REPLACEMENT]
      | c # cs \<Rightarrow>
          if 194 \<le> unat b \<and> unat b < 224 \<and> cont c
            then unit16 ((unat b - 192) * 64 + (unat c - 128)) # utf8_decode cs
          else case cs of
            [] \<Rightarrow> REPLACEMENT # utf8_decode bs
          | d # ds \<Rightarrow>
              if 224 \<le> unat b \<and> unat b < 240 \<and> cont c \<and> cont d \<and>
                 (unat b = 224 \<longrightarrow> 160 \<le> unat c) \<and> (unat b = 237 \<longrightarrow> unat c < 160)
                then unit16 ((unat b - 224) * 4096 + (unat c - 128) * 64 + (unat d - 128)) # utf8_decode ds
              else case ds of
                [] \<Rightarrow> REPLACEMENT # utf8_decode bs
              | e # es \<Rightarrow>
                  if 240 \<le> unat b \<and> unat b < 245 \<and> cont c \<and> cont d \<and> cont e \<and>
                     (unat b = 240 \<longrightarrow> 144 \<le> unat c) \<and> (unat b = 244 \<longrightarrow> unat c < 144)
                    then (let n = (unat b - 240) * 262144 + (unat c - 128) * 4096 + (unat d - 128) * 64 + (unat e - 128) - 65536
                          in unit16 (55296 + n div 1024) # unit16 (56320 + n mod 1024) # utf8_decode es)
                  else REPLACEMENT # utf8_decode bs)"

section \<open>Slots and authenticated data\<close>

datatype vault_error =
    BadKeyLength nat
  | EmptyField string | ControlCharacters string | IllFormed string | LengthOutOfRange
  | NotAnObject | NoVersion | NoBoxes | UnsupportedVersion int
  | BadNonceLength nat | BadTagLength nat | AuthenticationFailure | BadDataKeyLength nat
  | BadJsonPayload

definition KEY_LEN :: nat where "KEY_LEN = 32"
definition NONCE_LEN :: nat where "NONCE_LEN = 12"
definition TAG_LEN :: nat where "TAG_LEN = 16"
definition VAULT_SCHEMA_VERSION :: int where "VAULT_SCHEMA_VERSION = 1"

definition assertKek :: "bytes \<Rightarrow> vault_error option" where
  "assertKek kek = (if length kek \<noteq> KEY_LEN then Some (BadKeyLength (length kek)) else None)"

definition control_unit :: "16 word \<Rightarrow> bool" where
  "control_unit u \<longleftrightarrow> unat u < 32 \<or> unat u = 127"

definition assertSlotField :: "string \<Rightarrow> utf16 \<Rightarrow> vault_error option" where
  "assertSlotField name value =
     (if value = [] then Some (EmptyField name)
      else if \<exists>u \<in> set value. control_unit u then Some (ControlCharacters name)
      else if utf8_decode (utf8_encode value) \<noteq> value then Some (IllFormed name)
      else None)"

definition uint32be :: "nat \<Rightarrow> bytes" where
  "uint32be n = [byte (n div 16777216), byte (n div 65536), byte (n div 256), byte n]"

definition aad :: "int \<Rightarrow> utf16 \<Rightarrow> utf16 \<Rightarrow> vault_error + bytes" where
  \<comment> \<open>\<open>v >>> 0\<close> is the residue modulo \<open>2 ^ 32\<close>; \<open>writeUInt32BE\<close> throws on a value that does not fit\<close>
  "aad v consumerId host =
     (case assertSlotField ''consumerId'' consumerId of
        Some e \<Rightarrow> Inl e
      | None \<Rightarrow>
        (case assertSlotField ''host'' host of
           Some e \<Rightarrow> Inl e
         | None \<Rightarrow>
           (let c = utf8_encode consumerId; h = utf8_encode host in
            if length c \<ge> 2 ^ 32 \<or> length h \<ge> 2 ^ 32 then Inl LengthOutOfRange
            else Inr (uint32be (nat (v mod 2 ^ 32)) @ uint32be (length c) @ uint32be (length h) @ c @ h))))"

section \<open>Sealing\<close>

record node_crypto =
  gcm_encrypt :: "bytes \<Rightarrow> bytes \<Rightarrow> bytes \<Rightarrow> bytes \<Rightarrow> bytes \<times> bytes"
  gcm_decrypt :: "bytes \<Rightarrow> bytes \<Rightarrow> bytes \<Rightarrow> bytes \<Rightarrow> bytes \<Rightarrow> bytes option"
  hkdf_wrap :: "bytes \<Rightarrow> bytes"
  to_base64 :: "bytes \<Rightarrow> string"
  from_base64 :: "string \<Rightarrow> bytes"

text \<open>\<open>gcm_encrypt key nonce aad plaintext\<close> is the ciphertext and the tag; \<open>gcm_decrypt key nonce aad
  ciphertext tag\<close> is \<open>None\<close> where \<open>final()\<close> throws. GCM accepts a pair exactly when it is the one
  encryption makes, a tag has 16 bytes, and base64 decodes what it encoded.\<close>

definition node_crypto_ok :: "node_crypto \<Rightarrow> bool" where
  "node_crypto_ok nc \<longleftrightarrow>
     (\<forall>k n ad ct tag pt. gcm_decrypt nc k n ad ct tag = Some pt \<longleftrightarrow> gcm_encrypt nc k n ad pt = (ct, tag)) \<and>
     (\<forall>k n ad pt. length (snd (gcm_encrypt nc k n ad pt)) = TAG_LEN) \<and>
     (\<forall>x. from_base64 nc (to_base64 nc x) = x)"

text \<open>Authentication, idealised: what was encrypted under some authenticated data is refused under any
  other.\<close>

definition binds_aad :: "node_crypto \<Rightarrow> bool" where
  "binds_aad nc \<longleftrightarrow> (\<forall>k n ad pt ad'. ad' \<noteq> ad \<longrightarrow>
     gcm_decrypt nc k n ad' (fst (gcm_encrypt nc k n ad pt)) (snd (gcm_encrypt nc k n ad pt)) = None)"

record vault_context =
  kek :: bytes
  consumerId :: utf16
  host :: utf16

definition gcmSeal :: "node_crypto \<Rightarrow> bytes \<Rightarrow> bytes \<Rightarrow> bytes \<Rightarrow> bytes \<Rightarrow> json" where
  "gcmSeal nc nonce key plaintext ad =
     (case gcm_encrypt nc key nonce ad plaintext of (ct, tag) \<Rightarrow>
        JObj [(''nonce'', JStr (to_base64 nc nonce)), (''ct'', JStr (to_base64 nc ct)), (''tag'', JStr (to_base64 nc tag))])"

fun str_of :: "json option \<Rightarrow> string" where
  "str_of (Some (JStr s)) = s"
| "str_of _ = []"

definition gcmOpen :: "node_crypto \<Rightarrow> bytes \<Rightarrow> json \<Rightarrow> bytes \<Rightarrow> vault_error + bytes" where
  "gcmOpen nc key box ad =
     (let nonce = from_base64 nc (str_of (jfield ''nonce'' box));
          tag = from_base64 nc (str_of (jfield ''tag'' box)) in
      if length nonce \<noteq> NONCE_LEN then Inl (BadNonceLength (length nonce))
      else if length tag \<noteq> TAG_LEN then Inl (BadTagLength (length tag))
      else (case gcm_decrypt nc key nonce ad (from_base64 nc (str_of (jfield ''ct'' box))) tag of
              None \<Rightarrow> Inl AuthenticationFailure
            | Some pt \<Rightarrow> Inr pt))"

record entropy =
  r_dek :: bytes
  r_wrapNonce :: bytes
  r_blobNonce :: bytes

definition seal :: "node_crypto \<Rightarrow> entropy \<Rightarrow> bytes \<Rightarrow> vault_context \<Rightarrow> vault_error + json" where
  "seal nc rnd plaintext ctx =
     (case assertKek (kek ctx) of
        Some e \<Rightarrow> Inl e
      | None \<Rightarrow>
        (case aad VAULT_SCHEMA_VERSION (consumerId ctx) (host ctx) of
           Inl e \<Rightarrow> Inl e
         | Inr ad \<Rightarrow> Inr (JObj
             [(''v'', JNum VAULT_SCHEMA_VERSION),
              (''dek'', gcmSeal nc (r_wrapNonce rnd) (hkdf_wrap nc (kek ctx)) (r_dek rnd) ad),
              (''blob'', gcmSeal nc (r_blobNonce rnd) (r_dek rnd) plaintext ad)])))"

definition str_field :: "string \<Rightarrow> json \<Rightarrow> bool" where
  "str_field k j \<longleftrightarrow> (case jfield k j of Some v \<Rightarrow> is_jstr v | None \<Rightarrow> False)"

fun okBox :: "json option \<Rightarrow> bool" where
  "okBox (Some (JObj ms)) \<longleftrightarrow> str_field ''nonce'' (JObj ms) \<and> str_field ''ct'' (JObj ms) \<and> str_field ''tag'' (JObj ms)"
| "okBox _ \<longleftrightarrow> False"

fun jnum :: "json option \<Rightarrow> int option" where
  "jnum (Some (JNum n)) = Some n"
| "jnum _ = None"

fun assertShape :: "json \<Rightarrow> vault_error option" where
  \<comment> \<open>an array is an object too: it has no \<open>v\<close>\<close>
  "assertShape (JObj ms) =
     (if jnum (jfield ''v'' (JObj ms)) = None then Some NoVersion
      else if \<not> okBox (jfield ''dek'' (JObj ms)) \<or> \<not> okBox (jfield ''blob'' (JObj ms)) then Some NoBoxes
      else None)"
| "assertShape (JArr js) = Some NoVersion"
| "assertShape _ = Some NotAnObject"

definition open_record :: "node_crypto \<Rightarrow> json \<Rightarrow> vault_context \<Rightarrow> vault_error + bytes" where
  "open_record nc rec ctx =
     (case assertKek (kek ctx) of
        Some e \<Rightarrow> Inl e
      | None \<Rightarrow>
        (case assertShape rec of
           Some e \<Rightarrow> Inl e
         | None \<Rightarrow>
           (let v = the (jnum (jfield ''v'' rec)) in
            if v \<noteq> VAULT_SCHEMA_VERSION then Inl (UnsupportedVersion v)
            else (case aad v (consumerId ctx) (host ctx) of
               Inl e \<Rightarrow> Inl e
             | Inr ad \<Rightarrow>
               (case gcmOpen nc (hkdf_wrap nc (kek ctx)) (the (jfield ''dek'' rec)) ad of
                  Inl e \<Rightarrow> Inl e
                | Inr dek \<Rightarrow>
                  if length dek \<noteq> KEY_LEN then Inl (BadDataKeyLength (length dek))
                  else gcmOpen nc dek (the (jfield ''blob'' rec)) ad)))))"

definition decodeMasterKey :: "node_crypto \<Rightarrow> string \<Rightarrow> vault_error + bytes" where
  "decodeMasterKey nc b64 =
     (let key = from_base64 nc (js_trim b64)
      in case assertKek key of Some e \<Rightarrow> Inl e | None \<Rightarrow> Inr key)"

definition secretEquals :: "bytes \<Rightarrow> bytes \<Rightarrow> bool" where
  "secretEquals a b \<longleftrightarrow> length a = length b \<and> a = b"

section \<open>The authenticated data is injective\<close>

lemma unat_byte [simp]: "unat (byte n) = n mod 256"
  by (simp add: byte_def unat_of_nat)

lemma base_sum4: "n = x * 256 + d \<Longrightarrow> x = y * 256 + c \<Longrightarrow> y = z * 256 + b \<Longrightarrow> (z * 256 + b) * 65536 + c * 256 + d = n"
  for n :: nat
  by simp

lemma uint32be_val:
  assumes "n < 2 ^ 32"
  shows "(n div 16777216 mod 256 * 256 + n div 65536 mod 256) * 65536 + n div 256 mod 256 * 256 + n mod 256 = (n :: nat)"
proof (rule base_sum4)
  show "n = n div 256 * 256 + n mod 256" by (simp add: div_mult_mod_eq)
  have "n div 65536 = n div 256 div 256" by (simp add: div_mult2_eq [symmetric])
  then show "n div 256 = n div 65536 * 256 + n div 256 mod 256" by (simp only: div_mult_mod_eq)
  have "n div 16777216 mod 256 = n div 16777216" using assms by simp
  moreover have "n div 16777216 = n div 65536 div 256" by (simp add: div_mult2_eq [symmetric])
  ultimately show "n div 65536 = n div 16777216 mod 256 * 256 + n div 65536 mod 256" by (simp only: div_mult_mod_eq)
qed

lemma uint32be_inject: "m < 2 ^ 32 \<Longrightarrow> n < 2 ^ 32 \<Longrightarrow> uint32be m = uint32be n \<longleftrightarrow> m = n"
proof
  assume b: "m < 2 ^ 32" "n < 2 ^ 32" and "uint32be m = uint32be n"
  then have "map unat (uint32be m) = map unat (uint32be n)" by simp
  then have "m div 16777216 mod 256 = n div 16777216 mod 256" "m div 65536 mod 256 = n div 65536 mod 256"
    "m div 256 mod 256 = n div 256 mod 256" "m mod 256 = n mod 256"
    by (simp_all add: uint32be_def)
  with uint32be_val [OF b(1)] uint32be_val [OF b(2)] show "m = n" by metis
qed simp

lemma length_uint32be [simp]: "length (uint32be n) = 4"
  by (simp add: uint32be_def)

lemma assertSlotField_inject:
  "assertSlotField a c = None \<Longrightarrow> assertSlotField b d = None \<Longrightarrow> utf8_encode c = utf8_encode d \<longleftrightarrow> c = d"
  by (metis assertSlotField_def option.distinct(1))

lemma aad_Inr:
  "aad v c h = Inr x \<longleftrightarrow>
     assertSlotField ''consumerId'' c = None \<and> assertSlotField ''host'' h = None \<and>
     length (utf8_encode c) < 2 ^ 32 \<and> length (utf8_encode h) < 2 ^ 32 \<and>
     x = uint32be (nat (v mod 2 ^ 32)) @ uint32be (length (utf8_encode c)) @ uint32be (length (utf8_encode h)) @
       utf8_encode c @ utf8_encode h"
  by (auto simp: aad_def Let_def split: option.splits)

lemma aad_slot:
  assumes "aad v c h = Inr x" "aad w d g = Inr x"
  shows "v mod 2 ^ 32 = w mod 2 ^ 32 \<and> c = d \<and> h = g"
proof -
  have c: "assertSlotField ''consumerId'' c = None" "assertSlotField ''consumerId'' d = None"
    and h: "assertSlotField ''host'' h = None" "assertSlotField ''host'' g = None"
    and lens: "length (utf8_encode c) < 2 ^ 32" "length (utf8_encode d) < 2 ^ 32"
    and eq: "uint32be (nat (v mod 2 ^ 32)) = uint32be (nat (w mod 2 ^ 32))"
      "uint32be (length (utf8_encode c)) = uint32be (length (utf8_encode d))"
      "utf8_encode c @ utf8_encode h = utf8_encode d @ utf8_encode g"
    using assms unfolding aad_Inr by auto
  have "nat (v mod 2 ^ 32) < 2 ^ 32" "nat (w mod 2 ^ 32) < 2 ^ 32" by simp_all
  then have "nat (v mod 2 ^ 32) = nat (w mod 2 ^ 32)" using eq(1) by (simp only: uint32be_inject)
  moreover have "length (utf8_encode c) = length (utf8_encode d)" using eq(2) lens by (simp only: uint32be_inject)
  with eq(3) have "utf8_encode c = utf8_encode d" "utf8_encode h = utf8_encode g" by simp_all
  ultimately show ?thesis using assertSlotField_inject c h by (metis eq_nat_nat_iff pos_mod_sign zero_less_numeral zero_less_power)
qed

section \<open>UTF-8 round trip\<close>

text \<open>What survives a round trip: every code unit but a lone surrogate, which becomes U+FFFD.\<close>

fun to_well_formed :: "utf16 \<Rightarrow> utf16" where
  "to_well_formed [] = []"
| "to_well_formed [u] = [if high_surrogate u \<or> low_surrogate u then REPLACEMENT else u]"
| "to_well_formed (u # v # us) =
     (if high_surrogate u \<and> low_surrogate v then u # v # to_well_formed us
      else (if high_surrogate u \<or> low_surrogate u then REPLACEMENT else u) # to_well_formed (v # us))"

lemma unit16_unat [simp]: "unit16 (unat u) = u"
  by (simp add: unit16_def)

lemma unat_lt_64k: "unat (u :: 16 word) < 65536"
  using unsigned_less [of u] by simp

lemma base64_sum3: "n = x * 64 + d \<Longrightarrow> x = y * 64 + c \<Longrightarrow> y * 4096 + c * 64 + d = n"
  for n :: nat
  by simp

lemma digits3: "n div 4096 * 4096 + n div 64 mod 64 * 64 + n mod 64 = (n :: nat)"
proof (rule base64_sum3)
  show "n = n div 64 * 64 + n mod 64" by (simp only: div_mult_mod_eq)
  have "n div 4096 = n div 64 div 64" by (simp add: div_mult2_eq [symmetric])
  then show "n div 64 = n div 4096 * 64 + n div 64 mod 64" by (simp only: div_mult_mod_eq)
qed

lemma six_bits: "(128 + n mod 64) mod 256 = 128 + n mod (64 :: nat)" "cont (byte (128 + n mod 64))"
proof -
  show e: "(128 + n mod 64) mod 256 = 128 + n mod (64 :: nat)"
    using mod_less_divisor [of 64 n] by (simp del: mod_less_divisor)
  show "cont (byte (128 + n mod 64))" by (simp add: cont_def e)
qed

lemma decode_two:
  assumes "128 \<le> n" "n < 2048"
  shows "utf8_decode (encode_unit n @ bs) = unit16 n # utf8_decode bs"
proof -
  have q: "n div 64 < 32" "2 \<le> n div 64" using assms by auto
  then have b: "unat (byte (192 + n div 64)) = 192 + n div 64" by simp
  have c: "unat (byte (128 + n mod 64)) = 128 + n mod 64" by (simp only: unat_byte six_bits)
  show ?thesis using assms q by (simp add: b c six_bits(2) del: unat_byte)
qed

lemma decode_three:
  assumes "2048 \<le> n" "n < 65536" "\<not> (55296 \<le> n \<and> n < 57344)"
  shows "utf8_decode (encode_unit n @ bs) = unit16 n # utf8_decode bs"
proof -
  define h m where "h = n div 4096" and "m = n div 64"
  have hm: "h = m div 64" by (simp add: h_def m_def div_mult2_eq [symmetric])
  have m: "32 \<le> m" "m < 1024" "\<not> (864 \<le> m \<and> m < 896)"
    using assms by (auto simp: m_def)
  obtain y r where yr: "m = y * 64 + r" "r < 64" by (metis div_mult_mod_eq mod_less_divisor zero_less_numeral)
  then have d: "m div 64 = y" "m mod 64 = r" by simp_all
  have "y < 16" "y = 0 \<longrightarrow> 32 \<le> r" "y = 13 \<longrightarrow> r < 32" using m yr by auto
  then have h: "h < 16" "h = 0 \<longrightarrow> 32 \<le> m mod 64" "h = 13 \<longrightarrow> m mod 64 < 32"
    unfolding hm d by blast+
  then have b: "unat (byte (224 + h)) = 224 + h" by simp
  have c: "unat (byte (128 + k mod 64)) = 128 + k mod 64" for k by (simp only: unat_byte six_bits)
  have "h * 4096 + m mod 64 * 64 + n mod 64 = n" unfolding h_def m_def by (rule digits3)
  moreover have "encode_unit n = [byte (224 + h), byte (128 + m mod 64), byte (128 + n mod 64)]"
    using assms(1) by (simp add: h_def m_def)
  ultimately show ?thesis
    using h by (simp add: b c six_bits(2) del: unat_byte encode_unit.simps)
qed

lemma decode_unit:
  assumes "n < 65536" "\<not> (55296 \<le> n \<and> n < 57344)"
  shows "utf8_decode (encode_unit n @ bs) = unit16 n # utf8_decode bs"
proof -
  consider "n < 128" | "128 \<le> n" "n < 2048" | "2048 \<le> n" by linarith
  then show ?thesis
  proof cases
    case 1
    then show ?thesis by simp
  qed (use assms decode_two decode_three in blast)+
qed

lemma base64_sum4: "n = x * 4096 + d \<Longrightarrow> x = y * 64 + c \<Longrightarrow> y * 262144 + c * 4096 + d = n"
  for n :: nat
  by simp

lemma decode_four:
  assumes "h < 5" "h = 0 \<longrightarrow> 16 \<le> x" "h = 4 \<longrightarrow> x < 16" "x < 64" "y < 64" "z < 64"
    "h * 262144 + x * 4096 + y * 64 + z - 65536 = n"
  shows "utf8_decode ([byte (240 + h), byte (128 + x), byte (128 + y), byte (128 + z)] @ bs) =
    unit16 (55296 + n div 1024) # unit16 (56320 + n mod 1024) # utf8_decode bs"
proof -
  have c: "unat (byte (128 + k)) = 128 + k" "cont (byte (128 + k))" if "k < 64" for k
    using that by (simp_all add: cont_def)
  have "unat (byte (240 + h)) = 240 + h" using assms(1) by simp
  then show ?thesis
    using assms by (simp add: c Let_def del: unat_byte)
qed

lemma decode_pair:
  assumes "55296 \<le> hi" "hi < 56320" "56320 \<le> lo" "lo < 57344"
  shows "utf8_decode (encode_pair hi lo @ bs) = unit16 hi # unit16 lo # utf8_decode bs"
proof -
  obtain a l where a: "hi = 55296 + a" "a < 1024" and l: "lo = 56320 + l" "l < 1024"
    using that [of "hi - 55296" "lo - 56320"] assms by simp
  define cp where "cp = 65536 + a * 1024 + l"
  define q where "q = cp div 4096"
  have "cp < 1114112" "65536 \<le> cp" using a l by (simp_all add: cp_def)
  then have q: "16 \<le> q" "q < 272" by (simp_all add: q_def div_less_iff_less_mult less_eq_div_iff_mult_less_eq)
  have hq: "cp div 262144 = q div 64" by (simp add: q_def div_mult2_eq [symmetric])
  have h: "q div 64 < 5" "q div 64 = 0 \<longrightarrow> 16 \<le> q mod 64" "q div 64 = 4 \<longrightarrow> q mod 64 < 16"
  proof -
    obtain y r where yr: "q = y * 64 + r" "r < 64" by (metis div_mult_mod_eq mod_less_divisor zero_less_numeral)
    then have d: "q div 64 = y" "q mod 64 = r" by simp_all
    have "y < 5" "y = 0 \<longrightarrow> 16 \<le> r" "y = 4 \<longrightarrow> r < 16" using q yr by auto
    then show "q div 64 < 5" "q div 64 = 0 \<longrightarrow> 16 \<le> q mod 64" "q div 64 = 4 \<longrightarrow> q mod 64 < 16"
      unfolding d by blast+
  qed
  have "cp = q * 4096 + (cp div 64 mod 64 * 64 + cp mod 64)"
    using digits3 [of cp] by (simp add: q_def)
  moreover have "q = q div 64 * 64 + q mod 64" by (simp only: div_mult_mod_eq)
  ultimately have e: "q div 64 * 262144 + q mod 64 * 4096 + (cp div 64 mod 64 * 64 + cp mod 64) = cp"
    by (rule base64_sum4)
  have enc: "encode_pair hi lo = [byte (240 + q div 64), byte (128 + q mod 64),
      byte (128 + cp div 64 mod 64), byte (128 + cp mod 64)]"
    by (simp add: encode_pair_def Let_def a l cp_def [symmetric] hq) (simp add: q_def)
  have v: "q div 64 * 262144 + q mod 64 * 4096 + cp div 64 mod 64 * 64 + cp mod 64 - 65536 = a * 1024 + l"
  proof -
    have "q div 64 * 262144 + q mod 64 * 4096 + cp div 64 mod 64 * 64 + cp mod 64 = cp"
      using e by (simp only: add.assoc)
    then show ?thesis by (simp only:) (simp add: cp_def)
  qed
  have d: "(a * 1024 + l) div 1024 = a" "(a * 1024 + l) mod 1024 = l" using l by simp_all
  have "k mod 64 < 64" for k :: nat by simp
  from decode_four [OF h this this this v, of bs] show ?thesis
    unfolding enc d by (simp only: a l)
qed

lemma decode_replacement: "utf8_decode (encode_unit 65533 @ bs) = REPLACEMENT # utf8_decode bs"
  using decode_unit [of 65533 bs] by (simp add: REPLACEMENT_def unit16_def del: encode_unit.simps)

lemma decode_single:
  "utf8_decode (encode_unit (if high_surrogate u \<or> low_surrogate u then unat REPLACEMENT else unat u) @ bs) =
     (if high_surrogate u \<or> low_surrogate u then REPLACEMENT else u) # utf8_decode bs"
proof (cases "high_surrogate u \<or> low_surrogate u")
  case True
  have "unat REPLACEMENT = 65533" by (simp add: REPLACEMENT_def)
  with True show ?thesis using decode_replacement [of bs] by (simp del: encode_unit.simps)
next
  case False
  then have "\<not> (55296 \<le> unat u \<and> unat u < 57344)" by (auto simp: high_surrogate_def low_surrogate_def)
  with False show ?thesis using decode_unit [OF unat_lt_64k, of u bs] by (simp del: encode_unit.simps)
qed

lemma utf8_round_trip: "utf8_decode (utf8_encode s) = to_well_formed s"
proof (induction s rule: utf8_encode.induct)
  case (2 u)
  show ?case using decode_single [of u "[]"] by (simp del: encode_unit.simps)
next
  case (3 u v us)
  show ?case
  proof (cases "high_surrogate u \<and> low_surrogate v")
    case True
    then show ?thesis
      using 3(1) decode_pair [of "unat u" "unat v" "utf8_encode us"]
      by (simp add: high_surrogate_def low_surrogate_def)
  next
    case False
    then have "utf8_encode (u # v # us) =
        encode_unit (if high_surrogate u \<or> low_surrogate u then unat REPLACEMENT else unat u) @ utf8_encode (v # us)"
      by (simp only: utf8_encode.simps if_False)
    then show ?thesis using 3(2) [OF False] False by (simp only: decode_single to_well_formed.simps if_False)
  qed
qed simp

lemma assertSlotField_None:
  "assertSlotField name value = None \<longleftrightarrow>
     value \<noteq> [] \<and> (\<forall>u \<in> set value. \<not> control_unit u) \<and> to_well_formed value = value"
  by (auto simp: assertSlotField_def utf8_round_trip)

definition slot_a :: utf16 where "slot_a = [97, 55357, 56832]"
definition slot_b :: utf16 where "slot_b = [98]"

lemma slots_accepted: "assertSlotField n slot_a = None" "assertSlotField n slot_b = None"
  by (simp_all add: assertSlotField_None slot_a_def slot_b_def control_unit_def high_surrogate_def low_surrogate_def)

lemma length_utf8_encode: "length (utf8_encode s) \<le> 3 * length s"
  by (induction s rule: utf8_encode.induct) (auto simp: encode_pair_def Let_def)

lemma slot_lengths: "length (utf8_encode slot_a) < 2 ^ 32" "length (utf8_encode slot_b) < 2 ^ 32"
  using length_utf8_encode [of slot_a] length_utf8_encode [of slot_b] by (simp_all add: slot_a_def slot_b_def)

text \<open>The authenticated data identifies the slot: two slots whose fields are accepted share it only
  when they are the same slot, whatever characters the fields contain. Accepted are exactly the
  non-empty strings without control characters and lone surrogates.\<close>

theorem aad_identifies_slot:
  assumes "aad v c h = Inr x" "aad v c' h' = Inr x"
  shows "c = c' \<and> h = h' \<and> c \<noteq> [] \<and> h \<noteq> [] \<and> to_well_formed c = c \<and> to_well_formed h = h \<and>
    (\<forall>u \<in> set (c @ h). \<not> control_unit u)"
proof -
  have "assertSlotField ''consumerId'' c = None" "assertSlotField ''host'' h = None"
    using assms(1) unfolding aad_Inr by blast+
  then show ?thesis using aad_slot [OF assms] unfolding assertSlotField_None set_append by blast
qed

theorem aad_identifies_slot_witness:
  "\<exists>x. aad 1 slot_a slot_b = Inr x \<and> to_well_formed slot_a = slot_a"
proof -
  obtain x where x: "aad 1 slot_a slot_b = Inr x" unfolding aad_Inr using slots_accepted slot_lengths by blast
  with aad_identifies_slot [OF x x] show ?thesis by blast
qed

section \<open>Records\<close>

definition json_of_box :: "node_crypto \<Rightarrow> bytes \<Rightarrow> bytes \<times> bytes \<Rightarrow> json" where
  "json_of_box nc nonce p = JObj [(''nonce'', JStr (to_base64 nc nonce)), (''ct'', JStr (to_base64 nc (fst p))),
     (''tag'', JStr (to_base64 nc (snd p)))]"

lemma gcmSeal_box: "gcmSeal nc nonce key pt ad = json_of_box nc nonce (gcm_encrypt nc key nonce ad pt)"
  by (simp add: gcmSeal_def json_of_box_def split: prod.splits)

lemma box_fields [simp]:
  "jfield ''nonce'' (json_of_box nc nonce p) = Some (JStr (to_base64 nc nonce))"
  "jfield ''ct'' (json_of_box nc nonce p) = Some (JStr (to_base64 nc (fst p)))"
  "jfield ''tag'' (json_of_box nc nonce p) = Some (JStr (to_base64 nc (snd p)))"
  "okBox (Some (json_of_box nc nonce p))"
  by (simp_all add: json_of_box_def str_field_def)

lemma gcmOpen_box:
  assumes "node_crypto_ok nc"
  shows "gcmOpen nc k (json_of_box nc nonce (gcm_encrypt nc k' nonce ad pt)) ad' =
    (if length nonce \<noteq> NONCE_LEN then Inl (BadNonceLength (length nonce))
     else case gcm_decrypt nc k nonce ad' (fst (gcm_encrypt nc k' nonce ad pt)) (snd (gcm_encrypt nc k' nonce ad pt)) of
            None \<Rightarrow> Inl AuthenticationFailure | Some p \<Rightarrow> Inr p)"
  using assms by (simp add: gcmOpen_def node_crypto_ok_def Let_def)

lemma gcm_round_trip:
  assumes "node_crypto_ok nc"
  shows "gcm_decrypt nc k n ad (fst (gcm_encrypt nc k n ad pt)) (snd (gcm_encrypt nc k n ad pt)) = Some pt"
  using assms by (simp add: node_crypto_ok_def)

lemma seal_Inr:
  "seal nc rnd pt ctx = Inr rec \<longleftrightarrow> length (kek ctx) = KEY_LEN \<and>
     (\<exists>ad. aad VAULT_SCHEMA_VERSION (consumerId ctx) (host ctx) = Inr ad \<and>
       rec = JObj [(''v'', JNum VAULT_SCHEMA_VERSION),
         (''dek'', json_of_box nc (r_wrapNonce rnd) (gcm_encrypt nc (hkdf_wrap nc (kek ctx)) (r_wrapNonce rnd) ad (r_dek rnd))),
         (''blob'', json_of_box nc (r_blobNonce rnd) (gcm_encrypt nc (r_dek rnd) (r_blobNonce rnd) ad pt))])"
  by (auto simp: seal_def assertKek_def gcmSeal_box split: sum.splits)

lemma assertShape_record:
  "assertShape (JObj [(''v'', JNum v), (''dek'', json_of_box nc n p), (''blob'', json_of_box nc n' p')]) = None"
  by simp

lemma open_sealed:
  assumes "node_crypto_ok nc" "seal nc rnd pt ctx = Inr rec" "aad VAULT_SCHEMA_VERSION (consumerId ctx) (host ctx) = Inr ad"
  shows "open_record nc rec ctx' =
    (case assertKek (kek ctx') of
       Some e \<Rightarrow> Inl e
     | None \<Rightarrow>
       (case aad VAULT_SCHEMA_VERSION (consumerId ctx') (host ctx') of
          Inl e \<Rightarrow> Inl e
        | Inr ad' \<Rightarrow>
          (case gcmOpen nc (hkdf_wrap nc (kek ctx')) (json_of_box nc (r_wrapNonce rnd)
                  (gcm_encrypt nc (hkdf_wrap nc (kek ctx)) (r_wrapNonce rnd) ad (r_dek rnd))) ad' of
             Inl e \<Rightarrow> Inl e
           | Inr dek \<Rightarrow>
             if length dek \<noteq> KEY_LEN then Inl (BadDataKeyLength (length dek))
             else gcmOpen nc dek (json_of_box nc (r_blobNonce rnd) (gcm_encrypt nc (r_dek rnd) (r_blobNonce rnd) ad pt)) ad')))"
  using assms(2,3) unfolding seal_Inr
  by (auto simp: open_record_def Let_def simp del: assertShape.simps simp: assertShape_record split: option.splits sum.splits)

definition fresh_entropy :: "entropy \<Rightarrow> bool" where
  "fresh_entropy rnd \<longleftrightarrow> length (r_dek rnd) = KEY_LEN \<and> length (r_wrapNonce rnd) = NONCE_LEN \<and> length (r_blobNonce rnd) = NONCE_LEN"

lemma open_seal:
  assumes "node_crypto_ok nc" "fresh_entropy rnd" "seal nc rnd pt ctx = Inr rec"
  shows "open_record nc rec ctx = Inr pt"
proof -
  obtain ad where ad: "aad VAULT_SCHEMA_VERSION (consumerId ctx) (host ctx) = Inr ad" and k: "assertKek (kek ctx) = None"
    using assms(3) by (auto simp: seal_Inr assertKek_def)
  show ?thesis
    unfolding open_sealed [OF assms(1,3) ad]
    using assms(2) by (simp add: ad k gcmOpen_box [OF assms(1)] gcm_round_trip [OF assms(1)] fresh_entropy_def)
qed

lemma open_transplant:
  assumes "node_crypto_ok nc" "binds_aad nc" "fresh_entropy rnd" "seal nc rnd pt ctx = Inr rec"
    "kek ctx' = kek ctx" "(consumerId ctx', host ctx') \<noteq> (consumerId ctx, host ctx)"
  shows "isl (open_record nc rec ctx')"
proof -
  obtain ad where ad: "aad VAULT_SCHEMA_VERSION (consumerId ctx) (host ctx) = Inr ad" and k: "assertKek (kek ctx) = None"
    using assms(4) by (auto simp: seal_Inr assertKek_def)
  show ?thesis
  proof (cases "aad VAULT_SCHEMA_VERSION (consumerId ctx') (host ctx')")
    case (Inl e)
    then show ?thesis unfolding open_sealed [OF assms(1,4) ad] by (simp add: k assms(5))
  next
    case (Inr ad')
    have "ad' \<noteq> ad"
    proof
      assume "ad' = ad"
      from aad_slot [OF Inr ad [folded this]] assms(6) show False by simp
    qed
    then show ?thesis
      unfolding open_sealed [OF assms(1,4) ad]
      using assms(2,3) by (simp add: k assms(5) Inr gcmOpen_box [OF assms(1)] binds_aad_def fresh_entropy_def)
  qed
qed

text \<open>A concrete cipher with the documented behaviour, for the witnesses: the ciphertext carries the
  authenticated data behind its length in unary, and the tag is all zeros.\<close>

definition toy_encrypt :: "bytes \<Rightarrow> bytes \<Rightarrow> bytes \<Rightarrow> bytes \<Rightarrow> bytes \<times> bytes" where
  "toy_encrypt k n ad pt = (replicate (length ad) 1 @ 0 # ad @ pt, replicate 16 0)"

definition toy_decrypt :: "bytes \<Rightarrow> bytes \<Rightarrow> bytes \<Rightarrow> bytes \<Rightarrow> bytes \<Rightarrow> bytes option" where
  "toy_decrypt k n ad ct tag =
     (let pre = replicate (length ad) 1 @ 0 # ad
      in if take (length pre) ct = pre \<and> tag = replicate 16 0 then Some (drop (length pre) ct) else None)"

definition toy_crypto :: node_crypto where
  "toy_crypto = \<lparr>gcm_encrypt = toy_encrypt, gcm_decrypt = toy_decrypt, hkdf_wrap = (\<lambda>k. k),
     to_base64 = map (\<lambda>b. char_of (unat b)), from_base64 = map (\<lambda>c. word_of_nat (of_char c))\<rparr>"

lemma unary_inject:
  "replicate m (1 :: 8 word) @ 0 # xs = replicate n 1 @ 0 # ys \<longleftrightarrow> m = n \<and> xs = ys"
proof (induction m arbitrary: n)
  case 0
  then show ?case by (cases n) auto
next
  case (Suc m)
  then show ?case by (cases n) auto
qed

lemma toy_crypto_ok: "node_crypto_ok toy_crypto"
proof -
  have "toy_decrypt k n ad ct tag = Some pt \<longleftrightarrow> toy_encrypt k n ad pt = (ct, tag)" for k n ad ct tag pt
  proof -
    let ?pre = "replicate (length ad) 1 @ 0 # ad"
    have "take (length ?pre) ct = ?pre \<and> drop (length ?pre) ct = pt \<longleftrightarrow> ct = ?pre @ pt"
      by (metis append_eq_conv_conj append_take_drop_id)
    then show ?thesis unfolding toy_decrypt_def toy_encrypt_def Let_def by auto
  qed
  moreover have "(word_of_nat (of_char (char_of (unat b))) :: 8 word) = b" for b
  proof -
    have "unat b < 2 ^ LENGTH(8)" by (rule unsigned_less)
    then show ?thesis by simp
  qed
  ultimately show ?thesis by (simp add: node_crypto_ok_def toy_crypto_def toy_encrypt_def TAG_LEN_def comp_def)
qed

lemma toy_binds_aad: "binds_aad toy_crypto"
proof -
  have "take (length ad' + 1 + length ad') (replicate (length ad) 1 @ 0 # ad @ pt) \<noteq> replicate (length ad') (1 :: 8 word) @ 0 # ad'"
    if "ad' \<noteq> ad" for ad ad' pt
  proof
    assume "take (length ad' + 1 + length ad') (replicate (length ad) 1 @ 0 # ad @ pt) = replicate (length ad') (1 :: 8 word) @ 0 # ad'"
    then obtain z where "replicate (length ad) (1 :: 8 word) @ 0 # ad @ pt = replicate (length ad') 1 @ 0 # ad' @ z"
      by (metis append_Cons append_assoc append_take_drop_id)
    then have "length ad = length ad'" "ad @ pt = ad' @ z" by (simp_all add: unary_inject)
    with that show False by simp
  qed
  then show ?thesis by (simp add: binds_aad_def toy_crypto_def toy_encrypt_def toy_decrypt_def Let_def)
qed

definition toy_context :: vault_context where
  "toy_context = \<lparr>kek = replicate 32 7, consumerId = slot_a, host = slot_b\<rparr>"

definition toy_entropy :: entropy where
  "toy_entropy = \<lparr>r_dek = replicate 32 1, r_wrapNonce = replicate 12 2, r_blobNonce = replicate 12 3\<rparr>"

lemma toy_fresh: "fresh_entropy toy_entropy"
  by (simp add: fresh_entropy_def toy_entropy_def KEY_LEN_def NONCE_LEN_def)

lemma toy_seal:
  obtains rec where "seal toy_crypto toy_entropy pt toy_context = Inr rec"
proof -
  obtain ad where "aad VAULT_SCHEMA_VERSION slot_a slot_b = Inr ad"
    unfolding aad_Inr using slots_accepted slot_lengths by blast
  then have "\<exists>rec. seal toy_crypto toy_entropy pt toy_context = Inr rec"
    unfolding seal_Inr by (simp add: toy_context_def KEY_LEN_def)
  with that show ?thesis by blast
qed

text \<open>C16: a sealed record opens to exactly the plaintext in the slot it was sealed for, and in no other:
  under the same master key every other (consumer, host) is refused.\<close>

theorem sealed_for_its_slot:
  assumes "node_crypto_ok nc" "binds_aad nc" "fresh_entropy rnd" "seal nc rnd pt ctx = Inr rec"
  shows "open_record nc rec ctx = Inr pt \<and>
    (\<forall>c h. (c, h) \<noteq> (consumerId ctx, host ctx) \<longrightarrow> isl (open_record nc rec (ctx\<lparr>consumerId := c, host := h\<rparr>)))"
  using open_seal [OF assms(1,3,4)] open_transplant [OF assms] by auto

theorem sealed_for_its_slot_witness:
  "\<exists>rec. seal toy_crypto toy_entropy [1, 2, 3] toy_context = Inr rec \<and>
     open_record toy_crypto rec toy_context = Inr [1, 2, 3] \<and>
     isl (open_record toy_crypto rec (toy_context\<lparr>consumerId := slot_b, host := slot_a\<rparr>))"
proof -
  obtain rec where r: "seal toy_crypto toy_entropy [1, 2, 3] toy_context = Inr rec" by (rule toy_seal)
  have "(slot_b, slot_a) \<noteq> (consumerId toy_context, host toy_context)"
    by (simp add: slot_a_def slot_b_def toy_context_def)
  then have "isl (open_record toy_crypto rec (toy_context\<lparr>consumerId := slot_b, host := slot_a\<rparr>))"
    and "open_record toy_crypto rec toy_context = Inr [1, 2, 3]"
    using sealed_for_its_slot [OF toy_crypto_ok toy_binds_aad toy_fresh r] by (metis, metis)
  with r show ?thesis by blast
qed

lemma gcmOpen_Inr:
  assumes "node_crypto_ok nc" "gcmOpen nc k box ad = Inr pt"
  shows "length (from_base64 nc (str_of (jfield ''nonce'' box))) = NONCE_LEN \<and>
    gcm_encrypt nc k (from_base64 nc (str_of (jfield ''nonce'' box))) ad pt =
      (from_base64 nc (str_of (jfield ''ct'' box)), from_base64 nc (str_of (jfield ''tag'' box)))"
  using assms by (auto simp: gcmOpen_def Let_def node_crypto_ok_def split: if_splits option.splits)

definition authentic_box :: "node_crypto \<Rightarrow> bytes \<Rightarrow> bytes \<Rightarrow> bytes \<Rightarrow> json \<Rightarrow> bool" where
  \<comment> \<open>\<open>box\<close> is what encrypting \<open>pt\<close> under \<open>k\<close> and \<open>ad\<close> with its own nonce makes\<close>
  "authentic_box nc k ad pt box \<longleftrightarrow>
     length (from_base64 nc (str_of (jfield ''nonce'' box))) = NONCE_LEN \<and>
     gcm_encrypt nc k (from_base64 nc (str_of (jfield ''nonce'' box))) ad pt =
       (from_base64 nc (str_of (jfield ''ct'' box)), from_base64 nc (str_of (jfield ''tag'' box)))"

text \<open>Nothing unauthenticated decrypts: a record that opens has the current version and both boxes, and
  its wrapped key and its payload are exactly what encryption under this master key and for this slot
  makes of a 32-byte data key and of the plaintext returned.\<close>

theorem opening_authenticates:
  assumes "node_crypto_ok nc" "open_record nc rec ctx = Inr pt"
  shows "\<exists>ad dek db bb. aad VAULT_SCHEMA_VERSION (consumerId ctx) (host ctx) = Inr ad \<and>
    length (kek ctx) = KEY_LEN \<and> length dek = KEY_LEN \<and> jnum (jfield ''v'' rec) = Some VAULT_SCHEMA_VERSION \<and>
    jfield ''dek'' rec = Some db \<and> jfield ''blob'' rec = Some bb \<and>
    authentic_box nc (hkdf_wrap nc (kek ctx)) ad dek db \<and> authentic_box nc dek ad pt bb"
proof -
  have k: "length (kek ctx) = KEY_LEN" and sh: "assertShape rec = None"
    using assms(2) by (auto simp: open_record_def assertKek_def split: if_splits option.splits)
  from sh obtain db bb v where b: "jfield ''dek'' rec = Some db" "jfield ''blob'' rec = Some bb"
    and v: "jnum (jfield ''v'' rec) = Some v"
    by (cases rec; cases "jfield ''dek'' rec"; cases "jfield ''blob'' rec"; cases "jnum (jfield ''v'' rec)")
      (simp_all split: if_splits)
  have vv: "v = VAULT_SCHEMA_VERSION"
    using assms(2) k sh v by (simp add: open_record_def assertKek_def Let_def split: if_splits)
  then obtain ad where ad: "aad VAULT_SCHEMA_VERSION (consumerId ctx) (host ctx) = Inr ad"
    using assms(2) k sh v by (cases "aad v (consumerId ctx) (host ctx)") (simp_all add: open_record_def assertKek_def Let_def)
  then obtain dek where o1: "gcmOpen nc (hkdf_wrap nc (kek ctx)) db ad = Inr dek"
    using assms(2) k sh v vv b by (cases "gcmOpen nc (hkdf_wrap nc (kek ctx)) db ad") (simp_all add: open_record_def assertKek_def Let_def)
  have o2: "length dek = KEY_LEN" "gcmOpen nc dek bb ad = Inr pt"
    using assms(2) k sh v vv b ad o1 by (simp_all add: open_record_def assertKek_def Let_def split: if_splits)
  have "authentic_box nc (hkdf_wrap nc (kek ctx)) ad dek db" "authentic_box nc dek ad pt bb"
    using gcmOpen_Inr [OF assms(1) o1] gcmOpen_Inr [OF assms(1) o2(2)] by (simp_all add: authentic_box_def)
  with k b v vv ad o2(1) show ?thesis by blast
qed

theorem opening_authenticates_witness:
  "\<exists>rec ad dek db. seal toy_crypto toy_entropy [1, 2, 3] toy_context = Inr rec \<and>
     jfield ''dek'' rec = Some db \<and> authentic_box toy_crypto (kek toy_context) ad dek db"
proof -
  obtain rec where r: "seal toy_crypto toy_entropy [1, 2, 3] toy_context = Inr rec" by (rule toy_seal)
  have h: "hkdf_wrap toy_crypto k = k" for k by (simp add: toy_crypto_def)
  from opening_authenticates [OF toy_crypto_ok open_seal [OF toy_crypto_ok toy_fresh r]] r
  show ?thesis unfolding h by blast
qed

end
