(* ===== verification/Vault_Store.thy ===== *)
theory Vault_Store
  imports Vault_Crypto "HOL-Library.Sublist"
begin

text \<open>
  The vault's files (\<open>src/security/vault-store.ts\<close>): which leaves of a payload are folded into the
  redaction set, the slot's file name, put, get, has and remove, the rotation of the master key, and the
  boot guard. A directory is an association list from file names to what the code can see of a file;
  JSON text, SHA-256 and the shared \<open>canonicalizeHost\<close> are the parameter \<open>vault_env\<close>. Writes are atomic:
  the temporary file and the rename are two states of the directory. The listing for \<open>vault status\<close>
  (modification times, locale order) is not modelled.
\<close>

record vault_env =
  ve_crypto :: node_crypto
  ve_stringify :: "json \<Rightarrow> bytes"
  ve_parse :: "bytes \<Rightarrow> json option"
  ve_sha256 :: "bytes \<Rightarrow> string"
  ve_canon :: "utf16 \<Rightarrow> utf16"

definition vault_env_ok :: "vault_env \<Rightarrow> bool" where
  \<comment> \<open>a value that \<open>JSON.parse\<close> returned survives \<open>JSON.stringify\<close>\<close>
  "vault_env_ok env \<longleftrightarrow> node_crypto_ok (ve_crypto env) \<and>
     (\<forall>b v. ve_parse env b = Some v \<longrightarrow> ve_parse env (ve_stringify env v) = Some v)"

section \<open>Leaves to redact\<close>

definition REDACT_MIN :: nat where "REDACT_MIN = 8"
definition REDACT_MAX :: nat where "REDACT_MAX = 4096"
definition REDACT_SENSITIVE_MIN :: nat where "REDACT_SENSITIVE_MIN = 3"
definition REDACT_SENSITIVE_MAX :: nat where "REDACT_SENSITIVE_MAX = 65536"

definition SENSITIVE_KEYS :: "string list" where
  "SENSITIVE_KEYS = [''pass'', ''secret'', ''token'', ''totp'', ''otp'', ''pin'', ''cvv'', ''cvc'', ''key'',
     ''credential'', ''cookie'', ''auth'', ''bearer'']"

definition sensitive_key :: "string \<Rightarrow> bool" where
  "sensitive_key k \<longleftrightarrow> (\<exists>w \<in> set SENSITIVE_KEYS. sublist w (js_lower k))"

record leaf_scan =
  redactable_leaves :: "string list"
  oversized :: nat

definition scan_string :: "bool \<Rightarrow> string \<Rightarrow> leaf_scan \<Rightarrow> leaf_scan" where
  "scan_string sensitive v acc =
     (if sensitive then
        (if js_length v < REDACT_SENSITIVE_MIN then acc
         else if js_length v > REDACT_SENSITIVE_MAX then acc\<lparr>oversized := oversized acc + 1\<rparr>
         else acc\<lparr>redactable_leaves := set_add v (redactable_leaves acc)\<rparr>)
      else if js_length v \<ge> REDACT_MIN \<and> js_length v \<le> REDACT_MAX
        then acc\<lparr>redactable_leaves := set_add v (redactable_leaves acc)\<rparr>
      else acc)"

text \<open>A member that a later one of the same name overrides is not there (\<open>Object.entries\<close>).\<close>

fun walk :: "bool \<Rightarrow> json \<Rightarrow> leaf_scan \<Rightarrow> leaf_scan"
  and walk_list :: "bool \<Rightarrow> json list \<Rightarrow> leaf_scan \<Rightarrow> leaf_scan"
  and walk_members :: "bool \<Rightarrow> (string \<times> json) list \<Rightarrow> leaf_scan \<Rightarrow> leaf_scan" where
  "walk sensitive (JStr s) acc = scan_string sensitive s acc"
| "walk sensitive (JArr js) acc = walk_list sensitive js acc"
| "walk sensitive (JObj ms) acc = walk_members (''name'' \<in> fst ` set ms \<and> ''value'' \<in> fst ` set ms) ms acc"
| "walk sensitive JNull acc = acc"
| "walk sensitive (JBool b) acc = acc"
| "walk sensitive (JNum n) acc = acc"
| "walk_list sensitive [] acc = acc"
| "walk_list sensitive (x # xs) acc = walk_list sensitive xs (walk sensitive x acc)"
| "walk_members pair [] acc = acc"
| "walk_members pair ((k, v) # ms) acc =
     walk_members pair ms
       (if k \<in> fst ` set ms then acc else walk (sensitive_key k \<or> pair \<and> k = ''value'') v acc)"

definition scanLeaves :: "json \<Rightarrow> leaf_scan" where
  "scanLeaves v = walk False v \<lparr>redactable_leaves = [], oversized = 0\<rparr>"

section \<open>Files\<close>

datatype file_content =
    NotJson
  | Parsed "utf16 option" "utf16 option" "json option"

record vault_file =
  vf_content :: file_content
  vf_plain :: bool

type_synonym vault_dir = "(string \<times> vault_file) list"

datatype store_error =
    Crypto vault_error
  | OversizedCredential
  | BadJson
  | SameKeys | OrphanTemp string | InvalidEntry string | NotPlainFile string | NonCanonicalHost string
  | WrongPath string

definition ENTRY_SUFFIX :: string where "ENTRY_SUFFIX = ''.vault.json''"

definition slotFileName :: "vault_env \<Rightarrow> utf16 \<Rightarrow> utf16 \<Rightarrow> vault_error + string" where
  "slotFileName env cid canonicalHost =
     (case assertSlotField ''consumerId'' cid of
        Some e \<Rightarrow> Inl e
      | None \<Rightarrow>
        (case assertSlotField ''host'' canonicalHost of
           Some e \<Rightarrow> Inl e
         | None \<Rightarrow>
           (let c = utf8_encode cid; h = utf8_encode canonicalHost in
            if length c \<ge> 2 ^ 32 \<or> length h \<ge> 2 ^ 32 then Inl LengthOutOfRange
            else Inr (ve_sha256 env (uint32be (length h) @ uint32be (length c) @ h @ c) @ ENTRY_SUFFIX))))"

definition sealJson :: "vault_env \<Rightarrow> entropy \<Rightarrow> json \<Rightarrow> vault_context \<Rightarrow> vault_error + json" where
  "sealJson env rnd v ctx = seal (ve_crypto env) rnd (ve_stringify env v) ctx"

definition openJson :: "vault_env \<Rightarrow> json option \<Rightarrow> vault_context \<Rightarrow> store_error + json" where
  "openJson env rec ctx =
     (case rec of
        None \<Rightarrow> (case assertKek (kek ctx) of Some e \<Rightarrow> Inl (Crypto e) | None \<Rightarrow> Inl (Crypto NotAnObject))
      | Some r \<Rightarrow>
        (case open_record (ve_crypto env) r ctx of
           Inl e \<Rightarrow> Inl (Crypto e)
         | Inr pt \<Rightarrow> (case ve_parse env pt of None \<Rightarrow> Inl BadJson | Some v \<Rightarrow> Inr v)))"

definition slot_ctx :: "bytes \<Rightarrow> utf16 \<Rightarrow> utf16 \<Rightarrow> vault_context" where
  "slot_ctx k c h = \<lparr>kek = k, consumerId = c, host = h\<rparr>"

text \<open>A put that gets as far as writing passes through the directory with the temporary file; \<open>tmp\<close> is its
  random hexadecimal part. The third component is what is folded for redaction.\<close>

definition put :: "vault_env \<Rightarrow> entropy \<Rightarrow> string \<Rightarrow> bool \<Rightarrow> bytes \<Rightarrow> utf16 \<Rightarrow> utf16 \<Rightarrow> json \<Rightarrow> vault_dir
    \<Rightarrow> store_error + (vault_dir \<times> vault_dir \<times> string list)" where
  "put env rnd tmp allowOversize k cid hst value dir =
     (let ch = ve_canon env hst; scan = scanLeaves value in
      if oversized scan > 0 \<and> \<not> allowOversize then Inl OversizedCredential
      else (case sealJson env rnd value (slot_ctx k cid ch) of
              Inl e \<Rightarrow> Inl (Crypto e)
            | Inr rec \<Rightarrow>
              (case slotFileName env cid ch of
                 Inl e \<Rightarrow> Inl (Crypto e)
               | Inr target \<Rightarrow>
                 (let file = \<lparr>vf_content = Parsed (Some cid) (Some ch) (Some rec), vf_plain = True\<rparr>
                  in Inr (alist_put (target @ ''.'' @ tmp @ ''.tmp'') file dir, alist_put target file dir,
                          redactable_leaves scan)))))"

definition get :: "vault_env \<Rightarrow> bytes \<Rightarrow> utf16 \<Rightarrow> utf16 \<Rightarrow> vault_dir \<Rightarrow> store_error + (json \<times> string list) option" where
  "get env k cid hst dir =
     (let ch = ve_canon env hst in
      case slotFileName env cid ch of
        Inl e \<Rightarrow> Inl (Crypto e)
      | Inr target \<Rightarrow>
        (case map_of dir target of
           None \<Rightarrow> Inr None
         | Some f \<Rightarrow>
           (case vf_content f of
              NotJson \<Rightarrow> Inl BadJson
            | Parsed _ _ rec \<Rightarrow>
              (case openJson env rec (slot_ctx k cid ch) of
                 Inl e \<Rightarrow> Inl e
               | Inr v \<Rightarrow> Inr (Some (v, redactable_leaves (scanLeaves v)))))))"

definition has_entry :: "vault_env \<Rightarrow> utf16 \<Rightarrow> utf16 \<Rightarrow> vault_dir \<Rightarrow> vault_error + bool" where
  "has_entry env cid hst dir =
     (case slotFileName env cid (ve_canon env hst) of
        Inl e \<Rightarrow> Inl e
      | Inr target \<Rightarrow> Inr (map_of dir target \<noteq> None))"

definition remove_entry :: "vault_env \<Rightarrow> utf16 \<Rightarrow> utf16 \<Rightarrow> vault_dir \<Rightarrow> vault_error + (bool \<times> vault_dir)" where
  "remove_entry env cid hst dir =
     (case slotFileName env cid (ve_canon env hst) of
        Inl e \<Rightarrow> Inl e
      | Inr target \<Rightarrow> if map_of dir target = None then Inr (False, dir) else Inr (True, alist_del target dir))"

section \<open>Rotation\<close>

definition is_hex :: "char \<Rightarrow> bool" where
  "is_hex c \<longleftrightarrow> is_digit c \<or> (97 \<le> code c \<and> code c \<le> 102)"

definition orphan_temp :: "string \<Rightarrow> bool" where
  \<comment> \<open>\<open>/\.vault\.json\.[0-9a-f]+\.tmp$/\<close>\<close>
  "orphan_temp n \<longleftrightarrow> ends_with n ''.tmp'' \<and>
     (let base = rev (take (length n - 4) n)
      in takeWhile is_hex base \<noteq> [] \<and> starts_with (dropWhile is_hex base) (rev (ENTRY_SUFFIX @ ''.'')))"

definition rotate_check :: "vault_env \<Rightarrow> bytes \<Rightarrow> bytes \<Rightarrow> string \<times> vault_file \<Rightarrow> store_error + (utf16 \<times> utf16 \<times> json)" where
  "rotate_check env oldKek newKek nf =
     (case nf of (name, f) \<Rightarrow>
        (case vf_content f of
           NotJson \<Rightarrow> Inl (InvalidEntry name)
         | Parsed (Some c) (Some h) (Some rec) \<Rightarrow>
             if rec = JNull then Inl (InvalidEntry name)
             else if \<not> vf_plain f then Inl (NotPlainFile name)
             else if ve_canon env h \<noteq> h then Inl (NonCanonicalHost name)
             else (case slotFileName env c h of
                Inl e \<Rightarrow> Inl (Crypto e)
              | Inr target \<Rightarrow>
                if target \<noteq> name then Inl (WrongPath name)
                else (case openJson env (Some rec) (slot_ctx newKek c h) of
                   Inr v \<Rightarrow> Inr (c, h, v)
                 | Inl _ \<Rightarrow>
                   (case openJson env (Some rec) (slot_ctx oldKek c h) of
                      Inr v \<Rightarrow> Inr (c, h, v)
                    | Inl e \<Rightarrow> Inl e)))
         | Parsed _ _ _ \<Rightarrow> Inl (InvalidEntry name)))"

fun map_result :: "('a \<Rightarrow> 'e + 'b) \<Rightarrow> 'a list \<Rightarrow> 'e + 'b list" where
  "map_result f [] = Inr []"
| "map_result f (x # xs) =
     (case f x of Inl e \<Rightarrow> Inl e | Inr y \<Rightarrow> (case map_result f xs of Inl e \<Rightarrow> Inl e | Inr ys \<Rightarrow> Inr (y # ys)))"

definition rotate_verify :: "vault_env \<Rightarrow> bytes \<Rightarrow> bytes \<Rightarrow> vault_dir \<Rightarrow> store_error + (utf16 \<times> utf16 \<times> json) list" where
  \<comment> \<open>phase 1: nothing is written\<close>
  "rotate_verify env oldKek newKek dir =
     (if oldKek = newKek then Inl SameKeys
      else (case List.find orphan_temp (map fst dir) of
        Some n \<Rightarrow> Inl (OrphanTemp n)
      | None \<Rightarrow> map_result (rotate_check env oldKek newKek) (filter (\<lambda>nf. ends_with (fst nf) ENTRY_SUFFIX) dir)))"

text \<open>Phase 2; every put takes the next random bytes. An error stops the loop with the directory as it is.\<close>

fun rotate_write :: "vault_env \<Rightarrow> (nat \<Rightarrow> entropy) \<Rightarrow> (nat \<Rightarrow> string) \<Rightarrow> bytes \<Rightarrow> (utf16 \<times> utf16 \<times> json) list \<Rightarrow> vault_dir
    \<Rightarrow> store_error option \<times> vault_dir" where
  "rotate_write env rnd tmp newKek [] dir = (None, dir)"
| "rotate_write env rnd tmp newKek ((c, h, v) # es) dir =
     (case put env (rnd (length es)) (tmp (length es)) True newKek c h v dir of
        Inl e \<Rightarrow> (Some e, dir)
      | Inr (_, dir', _) \<Rightarrow> rotate_write env rnd tmp newKek es dir')"

definition rotateVaultKey :: "vault_env \<Rightarrow> (nat \<Rightarrow> entropy) \<Rightarrow> (nat \<Rightarrow> string) \<Rightarrow> bytes \<Rightarrow> bytes \<Rightarrow> vault_dir
    \<Rightarrow> (store_error + nat) \<times> vault_dir" where
  "rotateVaultKey env rnd tmp oldKek newKek dir =
     (case rotate_verify env oldKek newKek dir of
        Inl e \<Rightarrow> (Inl e, dir)
      | Inr decrypted \<Rightarrow>
        (case rotate_write env rnd tmp newKek decrypted dir of
           (Some e, dir') \<Rightarrow> (Inl e, dir')
         | (None, dir') \<Rightarrow> (Inr (length decrypted), dir')))"

section \<open>Boot\<close>

definition count_entries :: "vault_dir \<Rightarrow> nat" where
  "count_entries dir = length (filter (\<lambda>nf. ends_with (fst nf) ENTRY_SUFFIX) dir)"

datatype path_state = Missing | NotDirectory | Directory vault_dir

definition countVaultEntries :: "path_state \<Rightarrow> nat option" where
  \<comment> \<open>\<open>None\<close> where it throws\<close>
  "countVaultEntries p = (case p of Missing \<Rightarrow> Some 0 | NotDirectory \<Rightarrow> None | Directory d \<Rightarrow> Some (count_entries d))"

datatype key_error = Unreadable | NotRegular | Accessible | BadKey vault_error

datatype key_file = NoFile | IrregularFile | RegularFile nat "string option"

definition loadVaultKey :: "node_crypto \<Rightarrow> (string \<Rightarrow> key_file) \<Rightarrow> (string \<Rightarrow> string option) \<Rightarrow> key_error + bytes option" where
  \<comment> \<open>\<open>RegularFile mode contents\<close>: \<open>None\<close> where reading it throws; \<open>0o077\<close> is 63\<close>
  "loadVaultKey nc fs env =
     (if js_truthy (env ''BGW_VAULT_KEY_FILE'') then
        (case fs (the (env ''BGW_VAULT_KEY_FILE'')) of
           NoFile \<Rightarrow> Inl Unreadable
         | IrregularFile \<Rightarrow> Inl NotRegular
         | RegularFile mode contents \<Rightarrow>
             if mode mod 64 \<noteq> 0 then Inl Accessible
             else (case contents of
                None \<Rightarrow> Inl Unreadable
              | Some b64 \<Rightarrow> (case decodeMasterKey nc b64 of Inl e \<Rightarrow> Inl (BadKey e) | Inr k \<Rightarrow> Inr (Some k))))
      else if js_truthy (env ''BGW_VAULT_KEY'') then
        (case decodeMasterKey nc (the (env ''BGW_VAULT_KEY'')) of Inl e \<Rightarrow> Inl (BadKey e) | Inr k \<Rightarrow> Inr (Some k))
      else Inr None)"

datatype boot_error = BadVaultDir | KeyFailed nat key_error | EntriesWithoutKey nat

definition vaultKeyBootError :: "nat \<Rightarrow> bool \<Rightarrow> key_error option \<Rightarrow> boot_error option" where
  "vaultKeyBootError entryCount hasKey keyError =
     (case keyError of
        Some e \<Rightarrow> Some (KeyFailed entryCount e)
      | None \<Rightarrow> if entryCount > 0 \<and> \<not> hasKey then Some (EntriesWithoutKey entryCount) else None)"

text \<open>\<open>Inr (Some k)\<close>: a store under the key \<open>k\<close>, whose base64 form is registered for redaction.\<close>

definition openVault :: "node_crypto \<Rightarrow> (string \<Rightarrow> path_state) \<Rightarrow> (string \<Rightarrow> key_file) \<Rightarrow> (string \<Rightarrow> string option)
    \<Rightarrow> boot_error + (bytes \<times> string list) option" where
  "openVault nc dirs fs env =
     (if \<not> js_truthy (env ''BGW_VAULT_DIR'') then Inr None
      else (case countVaultEntries (dirs (the (env ''BGW_VAULT_DIR''))) of
        None \<Rightarrow> Inl BadVaultDir
      | Some n \<Rightarrow>
        (let loaded = loadVaultKey nc fs env;
             key = (case loaded of Inr (Some k) \<Rightarrow> Some k | _ \<Rightarrow> None);
             keyError = (case loaded of Inl e \<Rightarrow> Some e | _ \<Rightarrow> None)
         in case vaultKeyBootError n (key \<noteq> None) keyError of
              Some e \<Rightarrow> Inl e
            | None \<Rightarrow> (case key of None \<Rightarrow> Inr None | Some k \<Rightarrow> Inr (Some (k, [to_base64 nc k]))))))"

end
