(* ===== verification/Vault_Safety.thy ===== *)
theory Vault_Safety
  imports Vault_Store
begin

text \<open>
  What the vault's files guarantee: a put is read back and leaves other slots alone, also while it is
  half done; no credential is stored that cannot be redacted; a rotation of the master key changes all
  entries or none, loses nothing, and can be taken up again wherever it stopped; entries without a key
  stop the boot.
\<close>

section \<open>Put and get\<close>

lemma slotFileName_suffix: "slotFileName env c h = Inr n \<Longrightarrow> \<exists>x. n = x @ ENTRY_SUFFIX"
  by (auto simp: slotFileName_def Let_def split: option.splits if_splits)

lemma put_Inr:
  "put env rnd tmp allow k c h v dir = Inr (d1, d2, folded) \<longleftrightarrow>
     (oversized (scanLeaves v) = 0 \<or> allow) \<and>
     (\<exists>rec target. sealJson env rnd v (slot_ctx k c (ve_canon env h)) = Inr rec \<and>
        slotFileName env c (ve_canon env h) = Inr target \<and>
        d1 = alist_put (target @ ''.'' @ tmp @ ''.tmp'')
          \<lparr>vf_content = Parsed (Some c) (Some (ve_canon env h)) (Some rec), vf_plain = True\<rparr> dir \<and>
        d2 = alist_put target \<lparr>vf_content = Parsed (Some c) (Some (ve_canon env h)) (Some rec), vf_plain = True\<rparr> dir \<and>
        folded = redactable_leaves (scanLeaves v))"
  by (auto simp: put_def Let_def split: sum.splits)

lemma get_cong: "(\<And>n. slotFileName env c (ve_canon env h) = Inr n \<Longrightarrow> map_of d n = map_of d' n) \<Longrightarrow> get env k c h d = get env k c h d'"
  by (auto simp: get_def Let_def split: sum.splits)

lemma openJson_sealed:
  assumes "vault_env_ok env" "fresh_entropy rnd" "ve_parse env (ve_stringify env v) = Some v"
    "sealJson env rnd v ctx = Inr rec"
  shows "openJson env (Some rec) ctx = Inr v"
  using open_seal [of "ve_crypto env" rnd "ve_stringify env v" ctx rec] assms
  by (simp add: openJson_def sealJson_def vault_env_ok_def)

lemma temp_not_slot: "x @ ENTRY_SUFFIX \<noteq> n @ ''.'' @ tmp @ ''.tmp''"
proof
  assume "x @ ENTRY_SUFFIX = n @ ''.'' @ tmp @ ''.tmp''"
  then have "last (x @ ENTRY_SUFFIX) = last (n @ ''.'' @ tmp @ ''.tmp'')" by simp
  then show False by (simp add: ENTRY_SUFFIX_def)
qed

text \<open>What is put is read back, with the same leaves folded for redaction; a put changes no other slot's
  entry, and the directory with the temporary file of an unfinished put still reads as before it in
  every slot.\<close>

theorem put_get:
  assumes "vault_env_ok env" "fresh_entropy rnd" "ve_parse env (ve_stringify env v) = Some v"
    "put env rnd tmp allow k c h v dir = Inr (half, full, folded)"
  shows "get env k c h full = Inr (Some (v, folded)) \<and>
    (\<forall>k' c' h'. get env k' c' h' half = get env k' c' h' dir) \<and>
    (\<forall>k' c' h'. slotFileName env c' (ve_canon env h') \<noteq> slotFileName env c (ve_canon env h) \<longrightarrow>
       get env k' c' h' full = get env k' c' h' dir)"
proof -
  obtain rec target where r: "sealJson env rnd v (slot_ctx k c (ve_canon env h)) = Inr rec"
    and t: "slotFileName env c (ve_canon env h) = Inr target"
    and half: "half = alist_put (target @ ''.'' @ tmp @ ''.tmp'')
      \<lparr>vf_content = Parsed (Some c) (Some (ve_canon env h)) (Some rec), vf_plain = True\<rparr> dir"
    and full: "full = alist_put target \<lparr>vf_content = Parsed (Some c) (Some (ve_canon env h)) (Some rec), vf_plain = True\<rparr> dir"
    and folded: "folded = redactable_leaves (scanLeaves v)"
    using assms(4) unfolding put_Inr by blast
  have "get env k c h full = Inr (Some (v, folded))"
    using openJson_sealed [OF assms(1-3) r] by (simp add: get_def t full folded)
  moreover have "get env k' c' h' half = get env k' c' h' dir" for k' c' h'
  proof (rule get_cong)
    fix n
    assume "slotFileName env c' (ve_canon env h') = Inr n"
    then obtain x where "n = x @ ENTRY_SUFFIX" using slotFileName_suffix by blast
    then have "n \<noteq> target @ ''.'' @ tmp @ ''.tmp''" by (simp only: temp_not_slot not_False_eq_True)
    then show "map_of half n = map_of dir n" by (simp add: half)
  qed
  moreover have "get env k' c' h' full = get env k' c' h' dir"
    if "slotFileName env c' (ve_canon env h') \<noteq> slotFileName env c (ve_canon env h)" for k' c' h'
    by (rule get_cong) (use that in \<open>auto simp: full t\<close>)
  ultimately show ?thesis by blast
qed

text \<open>A concrete environment: payloads are single strings, the digest is the identity.\<close>

definition toy_env :: vault_env where
  "toy_env = \<lparr>ve_crypto = toy_crypto,
     ve_stringify = (\<lambda>v. case v of JStr s \<Rightarrow> map (\<lambda>c. byte (of_char c)) s | _ \<Rightarrow> []),
     ve_parse = (\<lambda>b. Some (JStr (map (\<lambda>x. char_of (unat x)) b))),
     ve_sha256 = map (\<lambda>x. char_of (unat x)), ve_canon = (\<lambda>h. h)\<rparr>"

lemma toy_text: "ve_parse toy_env (ve_stringify toy_env (JStr s)) = Some (JStr s)"
  by (simp add: toy_env_def comp_def map_idI)

lemma toy_env_ok: "vault_env_ok toy_env"
proof -
  have "ve_parse toy_env b = Some v \<Longrightarrow> ve_parse toy_env (ve_stringify toy_env v) = Some v" for b v
    using toy_text by (auto simp: toy_env_def)
  then show ?thesis using toy_crypto_ok by (simp add: vault_env_ok_def) (simp add: toy_env_def)
qed

lemma toy_seal_any:
  assumes "length k = KEY_LEN"
  obtains rec where "sealJson toy_env rnd v (slot_ctx k slot_a slot_b) = Inr rec"
proof -
  obtain ad where "aad VAULT_SCHEMA_VERSION slot_a slot_b = Inr ad"
    unfolding aad_Inr using slots_accepted slot_lengths by blast
  then have "\<exists>rec. sealJson toy_env rnd v (slot_ctx k slot_a slot_b) = Inr rec"
    unfolding sealJson_def seal_Inr using assms by (simp add: slot_ctx_def)
  with that show ?thesis by blast
qed

lemma toy_slotFileName: obtains n where "slotFileName toy_env slot_a slot_b = Inr n"
  using slots_accepted slot_lengths by (auto simp: slotFileName_def Let_def not_le [symmetric])

lemma toy_put:
  assumes "length k = KEY_LEN" "oversized (scanLeaves v) = 0"
  obtains d1 d2 f where "put toy_env rnd tmp allow k slot_a slot_b v dir = Inr (d1, d2, f)"
proof -
  obtain rec where "sealJson toy_env rnd v (slot_ctx k slot_a slot_b) = Inr rec" using toy_seal_any [OF assms(1)] .
  moreover obtain n where "slotFileName toy_env slot_a slot_b = Inr n" using toy_slotFileName .
  moreover have "ve_canon toy_env h = h" for h by (simp add: toy_env_def)
  ultimately show ?thesis using that assms(2) unfolding put_Inr by auto
qed

theorem put_get_witness:
  "\<exists>full f. get toy_env (replicate 32 7) slot_a slot_b full = Inr (Some (JStr ''hunter2hunter2'', f))"
proof -
  have z: "oversized (scanLeaves (JStr ''hunter2hunter2'')) = 0" by code_simp
  have k: "length (replicate 32 (7 :: 8 word)) = KEY_LEN" by (simp add: KEY_LEN_def)
  obtain d1 d2 f where p: "put toy_env toy_entropy ''0f'' False (replicate 32 7) slot_a slot_b (JStr ''hunter2hunter2'') [] = Inr (d1, d2, f)"
    using toy_put [OF k z] .
  from put_get [OF toy_env_ok toy_fresh toy_text p] show ?thesis by blast
qed

section \<open>Credentials stay redactable\<close>

text \<open>The string leaves of a payload, each with whether it is credential-grade, by the structure of the
  value alone.\<close>

fun leaves :: "bool \<Rightarrow> json \<Rightarrow> (bool \<times> string) list"
  and leaves_list :: "bool \<Rightarrow> json list \<Rightarrow> (bool \<times> string) list"
  and leaves_members :: "bool \<Rightarrow> (string \<times> json) list \<Rightarrow> (bool \<times> string) list" where
  "leaves g (JStr s) = [(g, s)]"
| "leaves g (JArr js) = leaves_list g js"
| "leaves g (JObj ms) = leaves_members (''name'' \<in> fst ` set ms \<and> ''value'' \<in> fst ` set ms) ms"
| "leaves g JNull = []"
| "leaves g (JBool b) = []"
| "leaves g (JNum n) = []"
| "leaves_list g [] = []"
| "leaves_list g (x # xs) = leaves g x @ leaves_list g xs"
| "leaves_members pair [] = []"
| "leaves_members pair ((k, v) # ms) =
     (if k \<in> fst ` set ms then [] else leaves (sensitive_key k \<or> pair \<and> k = ''value'') v) @ leaves_members pair ms"

lemma walk_leaves:
  "walk g v acc = foldl (\<lambda>a (g, s). scan_string g s a) acc (leaves g v)"
  "walk_list g js acc = foldl (\<lambda>a (g, s). scan_string g s a) acc (leaves_list g js)"
  "walk_members pair ms acc = foldl (\<lambda>a (g, s). scan_string g s a) acc (leaves_members pair ms)"
  by (induction g v acc and g js acc and pair ms acc rule: walk_walk_list_walk_members.induct) auto

definition must_fold :: "bool \<Rightarrow> string \<Rightarrow> bool" where
  "must_fold g s \<longleftrightarrow> (if g then js_length s \<ge> REDACT_SENSITIVE_MIN else REDACT_MIN \<le> js_length s \<and> js_length s \<le> REDACT_MAX)"

lemma scan_folds:
  assumes "oversized (foldl (\<lambda>a (g, s). scan_string g s a) acc ls) = 0"
  shows "oversized acc = 0 \<and> set (redactable_leaves acc) \<subseteq> set (redactable_leaves (foldl (\<lambda>a (g, s). scan_string g s a) acc ls)) \<and>
    (\<forall>(g, s) \<in> set ls. must_fold g s \<longrightarrow> s \<in> set (redactable_leaves (foldl (\<lambda>a (g, s). scan_string g s a) acc ls)))"
  using assms
proof (induction ls arbitrary: acc)
  case (Cons l ls)
  obtain g s where l: "l = (g, s)" by (cases l)
  from Cons.prems have z: "oversized (foldl (\<lambda>a (g, s). scan_string g s a) (scan_string g s acc) ls) = 0" by (simp add: l)
  note ih = Cons.IH [OF z]
  then have "oversized (scan_string g s acc) = 0" by blast
  then have "oversized acc = 0" "set (redactable_leaves acc) \<subseteq> set (redactable_leaves (scan_string g s acc))"
    "must_fold g s \<longrightarrow> s \<in> set (redactable_leaves (scan_string g s acc))"
    by (auto simp: scan_string_def must_fold_def split: if_splits)
  then show ?case using ih by (auto simp: l)
qed simp

text \<open>No stored credential escapes redaction: when a put of a new capture succeeds, every credential-grade
  leaf of at least three characters, wherever it is nested, is in the set folded for redaction, as is
  every other string of 8 to 4096 characters; a payload with a larger credential is refused before
  anything is written.\<close>

theorem put_folds_credentials:
  assumes "put env rnd tmp False k c h v dir = Inr (half, full, folded)" "(g, s) \<in> set (leaves False v)"
    "if g then js_length s \<ge> 3 else 8 \<le> js_length s \<and> js_length s \<le> 4096"
  shows "s \<in> set folded"
proof -
  have "oversized (scanLeaves v) = 0" "folded = redactable_leaves (scanLeaves v)"
    using assms(1) unfolding put_Inr by auto
  moreover have "must_fold g s"
    using assms(3) by (simp add: must_fold_def REDACT_MIN_def REDACT_MAX_def REDACT_SENSITIVE_MIN_def)
  ultimately show ?thesis
    using scan_folds [of "\<lparr>redactable_leaves = [], oversized = 0\<rparr>" "leaves False v"] assms(2)
    by (auto simp: scanLeaves_def walk_leaves)
qed

definition jar :: json where
  "jar = JObj [(''cookies'', JArr [JObj [(''name'', JStr ''sid''), (''value'', JStr ''abc'')]])]"

lemma scan_small:
  "(\<And>g s. (g, s) \<in> set ls \<Longrightarrow> js_length s \<le> REDACT_SENSITIVE_MAX) \<Longrightarrow>
   oversized (foldl (\<lambda>a (g, s). scan_string g s a) acc ls) = oversized acc"
proof (induction ls arbitrary: acc)
  case (Cons l ls)
  obtain g s where l: "l = (g, s)" by (cases l)
  have "js_length s \<le> REDACT_SENSITIVE_MAX" using Cons.prems [of g s] by (simp add: l)
  then have "oversized (scan_string g s acc) = oversized acc" by (simp add: scan_string_def)
  moreover have "oversized (foldl (\<lambda>a (g, s). scan_string g s a) (scan_string g s acc) ls) = oversized (scan_string g s acc)"
    by (rule Cons.IH) (use Cons.prems in auto)
  ultimately show ?case by (simp add: l)
qed simp

lemma jar_leaves: "leaves False jar = [(sensitive_key ''name'', ''sid''), (True, ''abc'')]"
  by (simp add: jar_def)

theorem put_folds_credentials_witness:
  "\<exists>half full folded. put toy_env toy_entropy ''0f'' False (replicate 32 7) slot_a slot_b jar [] = Inr (half, full, folded) \<and>
     ''abc'' \<in> set folded"
proof -
  have len: "js_length ''sid'' = 3" "js_length ''abc'' = 3" by code_simp+
  have z: "oversized (scanLeaves jar) = 0"
    unfolding scanLeaves_def walk_leaves jar_leaves
    by (subst scan_small) (auto simp: len REDACT_SENSITIVE_MAX_def)
  have k: "length (replicate 32 (7 :: 8 word)) = KEY_LEN" by (simp add: KEY_LEN_def)
  obtain d1 d2 f where p: "put toy_env toy_entropy ''0f'' False (replicate 32 7) slot_a slot_b jar [] = Inr (d1, d2, f)"
    using toy_put [OF k z] .
  have l: "(True, ''abc'') \<in> set (leaves False jar)" by (simp add: jar_leaves)
  have "''abc'' \<in> set f" using put_folds_credentials [OF p l] len by simp
  with p show ?thesis by blast
qed

section \<open>Rotation\<close>

lemma map_result_Inr: "map_result f xs = Inr ys \<longleftrightarrow> map f xs = map Inr ys"
proof (induction xs arbitrary: ys)
  case (Cons x xs)
  have ih: "map_result f xs = Inr zs \<longleftrightarrow> map f xs = map Inr zs" for zs by (rule Cons.IH)
  show ?case
  proof (cases ys)
    case Nil
    then show ?thesis by (auto split: sum.splits)
  next
    case (Cons y zs)
    show ?thesis
      unfolding Cons list.map map_result.simps
      by (cases "f x"; cases "map_result f xs") (use ih [of zs] in auto)
  qed
qed auto

lemma rotate_verify_Inr:
  "rotate_verify env old new dir = Inr dec \<longleftrightarrow> old \<noteq> new \<and> List.find orphan_temp (map fst dir) = None \<and>
     map (rotate_check env old new) (filter (\<lambda>nf. ends_with (fst nf) ENTRY_SUFFIX) dir) = map Inr dec"
  by (auto simp: rotate_verify_def map_result_Inr split: option.splits)

text \<open>An entry of the vault that phase 1 accepted.\<close>

definition readable :: "vault_env \<Rightarrow> bytes \<Rightarrow> bytes \<Rightarrow> string \<Rightarrow> utf16 \<Rightarrow> utf16 \<Rightarrow> json \<Rightarrow> vault_file \<Rightarrow> bool" where
  "readable env old new name c h v f \<longleftrightarrow> (\<exists>rec. vf_content f = Parsed (Some c) (Some h) (Some rec) \<and> rec \<noteq> JNull \<and>
     vf_plain f \<and> ve_canon env h = h \<and> slotFileName env c h = Inr name \<and>
     (openJson env (Some rec) (slot_ctx new c h) = Inr v \<or>
      isl (openJson env (Some rec) (slot_ctx new c h)) \<and> openJson env (Some rec) (slot_ctx old c h) = Inr v))"

lemma rotate_check_Inr: "rotate_check env old new (name, f) = Inr (c, h, v) \<longleftrightarrow> readable env old new name c h v f"
  by (auto simp: rotate_check_def readable_def split: file_content.splits option.splits sum.splits)

lemma openJson_Inr:
  assumes "openJson env (Some rec) (slot_ctx k c h) = Inr v"
  shows "(\<exists>ad. aad VAULT_SCHEMA_VERSION c h = Inr ad) \<and> (\<exists>b. ve_parse env b = Some v)"
proof -
  obtain pt where pt: "open_record (ve_crypto env) rec (slot_ctx k c h) = Inr pt" "ve_parse env pt = Some v"
    using assms by (auto simp: openJson_def split: sum.splits option.splits)
  then have "\<exists>ad. aad VAULT_SCHEMA_VERSION c h = Inr ad"
    by (auto simp: open_record_def Let_def slot_ctx_def split: option.splits sum.splits if_splits)
  with pt show ?thesis by blast
qed

lemma put_rotated:
  assumes "readable env old new name c h v f" "length new = KEY_LEN"
  obtains rec where "sealJson env rnd v (slot_ctx new c h) = Inr rec" "rec \<noteq> JNull"
    "put env rnd tmp True new c h v dir =
      Inr (alist_put (name @ ''.'' @ tmp @ ''.tmp'') \<lparr>vf_content = Parsed (Some c) (Some h) (Some rec), vf_plain = True\<rparr> dir,
           alist_put name \<lparr>vf_content = Parsed (Some c) (Some h) (Some rec), vf_plain = True\<rparr> dir,
           redactable_leaves (scanLeaves v))"
proof -
  have n: "slotFileName env c h = Inr name" "ve_canon env h = h"
    and "\<exists>ad. aad VAULT_SCHEMA_VERSION c h = Inr ad"
    using assms(1) openJson_Inr by (auto simp: readable_def)
  then obtain rec where r: "sealJson env rnd v (slot_ctx new c h) = Inr rec" "rec \<noteq> JNull"
    using assms(2) unfolding sealJson_def seal_Inr by (auto simp: slot_ctx_def)
  with that n show ?thesis by (simp add: put_def Let_def)
qed

lemma put_bad_key: "length k \<noteq> KEY_LEN \<Longrightarrow> \<exists>e. put env rnd tmp True k c h v dir = Inl e"
  by (simp add: put_def sealJson_def seal_def assertKek_def slot_ctx_def)

lemma readable_rotated:
  assumes "vault_env_ok env" "fresh_entropy rnd" "readable env old new name c h v f"
    "sealJson env rnd v (slot_ctx new c h) = Inr rec" "rec \<noteq> JNull"
  shows "openJson env (Some rec) (slot_ctx new c h) = Inr v"
    and "readable env old new name c h v \<lparr>vf_content = Parsed (Some c) (Some h) (Some rec), vf_plain = True\<rparr>"
proof -
  have "ve_parse env (ve_stringify env v) = Some v"
    using assms(1,3) openJson_Inr by (fastforce simp: readable_def vault_env_ok_def)
  from openJson_sealed [OF assms(1,2) this assms(4)]
  show o: "openJson env (Some rec) (slot_ctx new c h) = Inr v" .
  show "readable env old new name c h v \<lparr>vf_content = Parsed (Some c) (Some h) (Some rec), vf_plain = True\<rparr>"
    using assms(3,5) o by (auto simp: readable_def)
qed

lemma map_filter_alist_put:
  assumes "map_of xs n = Some f" "distinct (map fst xs)" "g (n, f') = g (n, f)"
  shows "map g (filter (\<lambda>p. P (fst p)) (alist_put n f' xs)) = map g (filter (\<lambda>p. P (fst p)) xs)"
    and "map fst (alist_put n f' xs) = map fst xs"
  using assms by (induction xs) auto

text \<open>One write of phase 2 leaves phase 1 with the same result.\<close>

lemma verify_after_write:
  assumes "rotate_verify env old new dir = Inr dec" "distinct (map fst dir)"
    "map_of dir name = Some f" "readable env old new name c h v f" "readable env old new name c h v f'"
  shows "rotate_verify env old new (alist_put name f' dir) = Inr dec \<and> map fst (alist_put name f' dir) = map fst dir"
proof -
  have "rotate_check env old new (name, f') = rotate_check env old new (name, f)"
    using assms(4,5) unfolding rotate_check_Inr [symmetric] by simp
  note m = map_filter_alist_put [OF assms(3,2) this]
  have "map fst (alist_put name f' dir) = map fst dir" by (rule m(2))
  moreover have "map (rotate_check env old new) (filter (\<lambda>nf. ends_with (fst nf) ENTRY_SUFFIX) (alist_put name f' dir)) =
      map (rotate_check env old new) (filter (\<lambda>nf. ends_with (fst nf) ENTRY_SUFFIX) dir)" by (rule m(1))
  ultimately show ?thesis using assms(1) unfolding rotate_verify_Inr by simp
qed

lemma verified_entry:
  assumes "rotate_verify env old new dir = Inr dec" "distinct (map fst dir)" "(c, h, v) \<in> set dec"
  obtains name f where "map_of dir name = Some f" "readable env old new name c h v f" "ends_with name ENTRY_SUFFIX"
proof -
  have "Inr (c, h, v) \<in> set (map (rotate_check env old new) (filter (\<lambda>nf. ends_with (fst nf) ENTRY_SUFFIX) dir))"
    using assms(1,3) unfolding rotate_verify_Inr by simp
  then obtain name f where "(name, f) \<in> set dir" "ends_with name ENTRY_SUFFIX"
    "rotate_check env old new (name, f) = Inr (c, h, v)"
    by (auto simp del: split_paired_Ex)
  with that assms(2) show ?thesis by (auto simp: rotate_check_Inr)
qed

lemma entry_verified:
  assumes "rotate_verify env old new dir = Inr dec" "(name, f) \<in> set dir" "ends_with name ENTRY_SUFFIX"
  obtains c h v where "(c, h, v) \<in> set dec" "readable env old new name c h v f"
proof -
  have "rotate_check env old new (name, f) \<in> set (map (rotate_check env old new) (filter (\<lambda>nf. ends_with (fst nf) ENTRY_SUFFIX) dir))"
    using assms(2,3) by force
  then obtain e where "rotate_check env old new (name, f) = Inr e" "e \<in> set dec"
    using assms(1) unfolding rotate_verify_Inr by auto
  with that show ?thesis by (cases e) (auto simp: rotate_check_Inr)
qed

definition slot_of :: "vault_env \<Rightarrow> utf16 \<times> utf16 \<times> json \<Rightarrow> vault_error + string" where
  "slot_of env e = slotFileName env (fst e) (fst (snd e))"

lemma verified_slots:
  assumes "rotate_verify env old new dir = Inr dec" "distinct (map fst dir)"
  shows "distinct (map (slot_of env) dec)"
proof -
  let ?es = "filter (\<lambda>nf. ends_with (fst nf) ENTRY_SUFFIX) dir"
  have eq: "map (rotate_check env old new) ?es = map Inr dec" using assms(1) by (simp add: rotate_verify_Inr)
  have one: "slot_of env (projr (rotate_check env old new nf)) = Inr (fst nf)" if "nf \<in> set ?es" for nf
  proof -
    have "rotate_check env old new nf \<in> set (map Inr dec)" unfolding eq [symmetric] set_map using that by (rule imageI)
    then obtain c h v where "rotate_check env old new nf = Inr (c, h, v)" by auto
    moreover obtain name f where "nf = (name, f)" by (cases nf)
    ultimately show ?thesis using rotate_check_Inr [of env old new name f c h v] by (auto simp: readable_def slot_of_def)
  qed
  have "map (slot_of env) dec = map (\<lambda>r. slot_of env (projr r)) (map Inr dec :: (store_error + _) list)" by simp
  also have "\<dots> = map (\<lambda>nf. Inr (fst nf)) ?es" unfolding eq [symmetric] map_map comp_def by (rule map_cong [OF refl one])
  finally have "map (slot_of env) dec = map (\<lambda>nf. Inr (fst nf)) ?es" .
  moreover have "distinct (map fst ?es)" using assms(2) by (rule distinct_map_filter)
  ultimately show ?thesis by (simp add: distinct_map inj_on_def)
qed

text \<open>Phase 2 on part of the entries: nothing fails, the names stay, phase 1 still gives the same, and what
  was written reads back under the new key.\<close>

lemma write_part:
  assumes "vault_env_ok env" "\<forall>i. fresh_entropy (rnd i)" "length new = KEY_LEN"
    "rotate_verify env old new dir = Inr dec" "distinct (map fst dir)" "set es \<subseteq> set dec" "distinct (map (slot_of env) es)"
  shows "\<exists>dir'. rotate_write env rnd tmp new es dir = (None, dir') \<and> map fst dir' = map fst dir \<and>
    rotate_verify env old new dir' = Inr dec \<and>
    (\<forall>n. Inr n \<notin> slot_of env ` set es \<longrightarrow> map_of dir' n = map_of dir n) \<and>
    (\<forall>(c, h, v) \<in> set es. get env new c h dir' = Inr (Some (v, redactable_leaves (scanLeaves v))))"
  using assms(4-)
proof (induction es arbitrary: dir)
  case (Cons e es)
  obtain c h v where e: "e = (c, h, v)" by (cases e)
  obtain name f where nf: "map_of dir name = Some f" "readable env old new name c h v f"
  proof -
    have "(c, h, v) \<in> set dec" using Cons.prems(3) e by auto
    from verified_entry [OF Cons.prems(1,2) this] that show ?thesis by blast
  qed
  have slot: "slotFileName env c h = Inr name" "ve_canon env h = h" using nf(2) by (auto simp: readable_def)
  obtain rec where r: "sealJson env (rnd (length es)) v (slot_ctx new c h) = Inr rec" "rec \<noteq> JNull"
    and p: "put env (rnd (length es)) (tmp (length es)) True new c h v dir =
      Inr (alist_put (name @ ''.'' @ tmp (length es) @ ''.tmp'') \<lparr>vf_content = Parsed (Some c) (Some h) (Some rec), vf_plain = True\<rparr> dir,
           alist_put name \<lparr>vf_content = Parsed (Some c) (Some h) (Some rec), vf_plain = True\<rparr> dir,
           redactable_leaves (scanLeaves v))"
    by (rule put_rotated [OF nf(2) assms(3)])
  let ?f = "\<lparr>vf_content = Parsed (Some c) (Some h) (Some rec), vf_plain = True\<rparr>"
  note rr = readable_rotated [OF assms(1) spec [OF assms(2)] nf(2) r]
  note w = verify_after_write [OF Cons.prems(1,2) nf rr(2)]
  have d: "distinct (map fst (alist_put name ?f dir))" using w Cons.prems(2) by simp
  obtain dir' where ih: "rotate_write env rnd tmp new es (alist_put name ?f dir) = (None, dir')"
    "map fst dir' = map fst (alist_put name ?f dir)" "rotate_verify env old new dir' = Inr dec"
    "\<forall>n. Inr n \<notin> slot_of env ` set es \<longrightarrow> map_of dir' n = map_of (alist_put name ?f dir) n"
    "\<forall>(c, h, v) \<in> set es. get env new c h dir' = Inr (Some (v, redactable_leaves (scanLeaves v)))"
    using Cons.IH [OF conjunct1 [OF w] d] Cons.prems(3,4) by auto
  have new_slot: "Inr name \<notin> slot_of env ` set es" using Cons.prems(4) slot(1) by (simp add: e slot_of_def)
  then have "map_of dir' name = Some ?f" using ih(4) by simp
  then have "get env new c h dir' = Inr (Some (v, redactable_leaves (scanLeaves v)))"
    using rr(1) slot by (simp add: get_def)
  moreover have "\<forall>n. Inr n \<notin> slot_of env ` set (e # es) \<longrightarrow> map_of dir' n = map_of dir n"
    using ih(4) slot(1) by (auto simp: e slot_of_def)
  moreover have "rotate_write env rnd tmp new (e # es) dir = (None, dir')" using ih(1) p by (simp add: e)
  ultimately show ?case using ih(2,3,5) w by (auto simp: e)
qed auto


lemma entry_not_orphan:
  assumes "ends_with n ENTRY_SUFFIX"
  shows "\<not> orphan_temp n"
proof -
  obtain x where "n = x @ ENTRY_SUFFIX" using assms by (auto simp: ends_with_def suffix_def)
  then have "\<not> ends_with n ''.tmp''"
    unfolding ends_with_def ENTRY_SUFFIX_def
    by (auto simp: suffix_def append_eq_append_conv2 append_eq_Cons_conv Cons_eq_append_conv)
  then show ?thesis by (simp add: orphan_temp_def)
qed

text \<open>A vault with one entry, under the key of sevens; it is rotated to the key of nines.\<close>

definition old_key :: bytes where "old_key = replicate 32 7"
definition new_key :: bytes where "new_key = replicate 32 9"

lemma toy_keys: "length old_key = KEY_LEN" "length new_key = KEY_LEN" "old_key \<noteq> new_key"
  by (simp_all add: old_key_def new_key_def KEY_LEN_def)

definition toy_secret :: json where "toy_secret = JStr ''hunter2hunter2''"

lemma toy_vault:
  obtains dir where "rotate_verify toy_env old_key new_key dir = Inr [(slot_a, slot_b, toy_secret)]" "distinct (map fst dir)"
proof -
  obtain rec where r: "sealJson toy_env toy_entropy toy_secret (slot_ctx new_key slot_a slot_b) = Inr rec"
    using toy_seal_any [OF toy_keys(2)] .
  obtain n where n: "slotFileName toy_env slot_a slot_b = Inr n" using toy_slotFileName .
  obtain x where x: "n = x @ ENTRY_SUFFIX" using slotFileName_suffix [OF n] by blast
  define f where "f = \<lparr>vf_content = Parsed (Some slot_a) (Some slot_b) (Some rec), vf_plain = True\<rparr>"
  have j: "rec \<noteq> JNull" using r unfolding sealJson_def seal_Inr by auto
  have "openJson toy_env (Some rec) (slot_ctx new_key slot_a slot_b) = Inr toy_secret"
    using openJson_sealed [OF toy_env_ok toy_fresh _ r] toy_text by (simp add: toy_secret_def)
  then have "readable toy_env old_key new_key n slot_a slot_b toy_secret f"
    using n j by (auto simp: readable_def f_def toy_env_def)
  then have "rotate_check toy_env old_key new_key (n, f) = Inr (slot_a, slot_b, toy_secret)"
    by (simp add: rotate_check_Inr)
  moreover have "ends_with n ENTRY_SUFFIX" by (simp add: x ends_with_def suffixI)
  moreover from this have "\<not> orphan_temp n" by (rule entry_not_orphan)
  ultimately have "rotate_verify toy_env old_key new_key [(n, f)] = Inr [(slot_a, slot_b, toy_secret)]"
    using toy_keys(3) by (simp add: rotate_verify_Inr)
  with that show ?thesis by simp
qed

definition torn_dir :: vault_dir where
  "torn_dir = [(''x.vault.json'', \<lparr>vf_content = NotJson, vf_plain = True\<rparr>)]"


text \<open>C18: a rotation loses nothing and can be resumed: once every entry has been verified, the rotation started
  in any state that a rotation interrupted after any number of writes left behind succeeds, keeps the
  set of files, and afterwards every entry file is its slot's and reads back its value under the new
  key.\<close>

theorem rotation_resumable:
  assumes "vault_env_ok env" "\<forall>i. fresh_entropy (rnd i)" "\<forall>i. fresh_entropy (rnd' i)" "length new = KEY_LEN"
    "distinct (map fst dir)" "rotate_verify env old new dir = Inr dec"
    "rotate_write env rnd tmp new (take n dec) dir = (None, part)"
  shows "\<exists>final. rotateVaultKey env rnd' tmp' old new part = (Inr (length dec), final) \<and> map fst final = map fst dir \<and>
    (\<forall>(c, h, v) \<in> set dec. get env new c h final = Inr (Some (v, redactable_leaves (scanLeaves v)))) \<and>
    (\<forall>name \<in> fst ` set dir. ends_with name ENTRY_SUFFIX \<longrightarrow> (\<exists>(c, h, v) \<in> set dec. slotFileName env c h = Inr name))"
proof -
  note ds = verified_slots [OF assms(6,5)]
  have part: "map fst part = map fst dir" "rotate_verify env old new part = Inr dec"
  proof -
    have "set (take n dec) \<subseteq> set dec" "distinct (map (slot_of env) (take n dec))"
      using ds by (simp_all add: set_take_subset distinct_take take_map [symmetric])
    from write_part [OF assms(1,2,4,6,5) this, of tmp] assms(7)
    show "map fst part = map fst dir" "rotate_verify env old new part = Inr dec" by auto
  qed
  then have d: "distinct (map fst part)" using assms(5) by simp
  obtain final where "rotate_write env rnd' tmp' new dec part = (None, final)" "map fst final = map fst part"
    "\<forall>(c, h, v) \<in> set dec. get env new c h final = Inr (Some (v, redactable_leaves (scanLeaves v)))"
    using write_part [OF assms(1,3,4) part(2) d subset_refl ds, of tmp'] by blast
  moreover have "\<exists>(c, h, v) \<in> set dec. slotFileName env c h = Inr name"
    if "name \<in> fst ` set dir" "ends_with name ENTRY_SUFFIX" for name
  proof -
    from that(1) obtain f where "(name, f) \<in> set dir" by auto
    obtain c h v where "(c, h, v) \<in> set dec" "readable env old new name c h v f"
      by (rule entry_verified [OF assms(6) \<open>(name, f) \<in> set dir\<close> \<open>ends_with name ENTRY_SUFFIX\<close>])
    then show ?thesis unfolding readable_def by (intro bexI [of _ "(c, h, v)"]) auto
  qed
  ultimately show ?thesis using part by (auto simp: rotateVaultKey_def)
qed

theorem rotation_resumable_witness:
  "\<exists>dir final. rotateVaultKey toy_env (\<lambda>_. toy_entropy) (\<lambda>_. ''0f'') old_key new_key dir = (Inr 1, final) \<and>
     (\<exists>ls. get toy_env new_key slot_a slot_b final = Inr (Some (toy_secret, ls)))"
proof -
  obtain dir where v: "rotate_verify toy_env old_key new_key dir = Inr [(slot_a, slot_b, toy_secret)]" "distinct (map fst dir)"
    by (rule toy_vault)
  have fresh: "\<forall>i :: nat. fresh_entropy ((\<lambda>_. toy_entropy) i)" by (simp add: toy_fresh)
  have w: "rotate_write toy_env (\<lambda>_. toy_entropy) (\<lambda>_. ''0f'') new_key (take 0 [(slot_a, slot_b, toy_secret)]) dir = (None, dir)"
    by simp
  obtain final where "rotateVaultKey toy_env (\<lambda>_. toy_entropy) (\<lambda>_. ''0f'') old_key new_key dir =
      (Inr (length [(slot_a, slot_b, toy_secret)]), final)"
    "\<forall>(c, h, v) \<in> set [(slot_a, slot_b, toy_secret)]. get toy_env new_key c h final = Inr (Some (v, redactable_leaves (scanLeaves v)))"
    using rotation_resumable [OF toy_env_ok fresh fresh toy_keys(2) v(2,1) w, of "\<lambda>_. ''0f''"] by blast
  then show ?thesis by auto
qed

section \<open>Boot\<close>


definition boot_env :: "string \<Rightarrow> string option" where
  "boot_env = [''BGW_VAULT_DIR'' \<mapsto> ''/vault'', ''BGW_VAULT_KEY'' \<mapsto> replicate 32 (CHR ''k'')]"


end
