(* ===== verification/Gateway.thy ===== *)
theory Gateway
  imports Interception Gateway_Config
begin

text \<open>
  The gateway (\<open>src/gateway/index.ts\<close>): the one request path every surface goes through. It puts the
  policy engine, the session manager and the core's interception together: a token is authenticated,
  a session acquired for its consumer, that consumer's guard installed, and only then is the session
  used. The record \<open>gateway\<close> holds the session manager's whole state, the audit sink's, the guard on
  each session's core and the calls in flight; every method is cut at its awaits. A guard reads the
  clock when it decides, so the installed guard is a function of the time.
\<close>

datatype gateway_error =
    NoPolicy | Unauthenticated | UnsealedRestore | AcquireFailed acquire_error | CoreClosed | GuardFailed | NoOpenSession

text \<open>What a call asks for: \<open>Drive\<close> is \<open>openConsumerSession\<close> with the owner host of the restored state and
  the diagnostics flag, \<open>Transient\<close> is \<open>withConsumerSession\<close>, \<open>Bare\<close> is \<open>withSession\<close> alone.\<close>

datatype purpose = Drive consumer "string option" bool | Transient consumer | Bare

record overrides =
  ov_restore :: "(bool \<times> string) option"   \<comment> \<open>sealed, owner host\<close>
  ov_userDataDir :: bool

record 's gateway =
  gw_policy :: "'s policy_engine option"
  gw_manager :: manager
  gw_trail :: 's
  gw_guards :: "nat \<Rightarrow> (int \<Rightarrow> 's guard_fun) option"
  gw_blocks :: "nat \<Rightarrow> (string \<times> string) list"
  gw_opening :: "(nat \<times> purpose) list"     \<comment> \<open>awaiting \<open>acquire\<close>, by launch\<close>
  gw_guarding :: "(nat \<times> purpose) list"    \<comment> \<open>awaiting \<open>setNavigationGuard\<close>, by session\<close>
  gw_running :: "(nat \<times> purpose) list"     \<comment> \<open>in the callback of \<open>withSession\<close>\<close>
  gw_handles :: "(nat \<times> consumer) list"    \<comment> \<open>handles returned to callers\<close>

definition new_Gateway :: "gateway_config \<Rightarrow> 's policy_engine option \<Rightarrow> 's \<Rightarrow> 's gateway" where
  "new_Gateway config policy s =
     \<lparr>gw_policy = policy,
      gw_manager = new_SessionManager (gc_maxSessions config) (Some (gc_perConsumerMax config)),
      gw_trail = s, gw_guards = (\<lambda>_. None), gw_blocks = (\<lambda>_. []),
      gw_opening = [], gw_guarding = [], gw_running = [], gw_handles = []\<rparr>"

section \<open>Guards\<close>

fun guard_of :: "url_parser \<Rightarrow> 's policy_engine \<Rightarrow> purpose \<Rightarrow> int \<Rightarrow> 's guard_fun" where
  "guard_of parse pe (Drive c credentialHost diagnostics) now =
     never_throws
       (if diagnostics then guardForDiagnostics parse pe now c
        else if js_truthy credentialHost then guardForCredentialHost parse pe now c (the credentialHost)
        else guardFor parse pe now c)"
| "guard_of parse pe (Transient c) now = never_throws (guardFor parse pe now c)"
| "guard_of parse pe Bare now = (\<lambda>req s out. (Inr BlockNav, s, out))"

definition paused :: "url_parser \<Rightarrow> int \<Rightarrow> bool \<Rightarrow> nat \<Rightarrow> fetch_event \<Rightarrow> 's gateway \<Rightarrow> cdp_answer \<times> 's gateway" where
  \<comment> \<open>a request of session \<open>i\<close> is paused; \<open>closing\<close>: its core is being torn down\<close>
  "paused parse now closing i ev gw =
     (case onRequestPaused parse
             \<lparr>ic_closing = closing, ic_activeGuard = map_option (\<lambda>g. g now) (gw_guards gw i),
              ic_lastNavBlock = gw_blocks gw i\<rparr> ev (gw_trail gw) of
        (a, ic, s) \<Rightarrow>
          (a, gw\<lparr>gw_trail := s, gw_blocks := (gw_blocks gw)(i := ic_lastNavBlock ic)\<rparr>))"

section \<open>Opening\<close>

definition start_acquire ::
  "nat \<Rightarrow> string option \<Rightarrow> overrides \<Rightarrow> bool \<Rightarrow> purpose \<Rightarrow> 's gateway \<Rightarrow> gateway_error option \<times> 's gateway" where
  "start_acquire l cid ov throws p gw =
     (case acquire l cid (ov_userDataDir ov) throws (gw_manager gw) of
        (Some e, m) \<Rightarrow> (Some (AcquireFailed e), gw\<lparr>gw_manager := m\<rparr>)
      | (None, m) \<Rightarrow> (None, gw\<lparr>gw_manager := m, gw_opening := gw_opening gw @ [(l, p)]\<rparr>))"

definition identify :: "int \<Rightarrow> string \<Rightarrow> 's gateway \<Rightarrow> (gateway_error + consumer) \<times> 's gateway" where
  \<comment> \<open>\<open>#requirePolicy\<close> and \<open>authenticate\<close>, which every method with a token starts with\<close>
  "identify now token gw =
     (case gw_policy gw of
        None \<Rightarrow> (Inl NoPolicy, gw)
      | Some pe \<Rightarrow>
        (case authenticate pe now token (gw_trail gw) of
           (Inl _, s) \<Rightarrow> (Inl Unauthenticated, gw\<lparr>gw_trail := s\<rparr>)
         | (Inr c, s) \<Rightarrow> (Inr c, gw\<lparr>gw_trail := s\<rparr>)))"

definition started :: "gateway_error option \<times> 's gateway \<Rightarrow> (gateway_error + unit) \<times> 's gateway" where
  "started r = (case fst r of None \<Rightarrow> Inr () | Some e \<Rightarrow> Inl e, snd r)"

definition openConsumerSession ::
  "int \<Rightarrow> nat \<Rightarrow> string \<Rightarrow> overrides \<Rightarrow> bool \<Rightarrow> bool \<Rightarrow> 's gateway \<Rightarrow> (gateway_error + unit) \<times> 's gateway" where
  \<comment> \<open>up to the \<open>await\<close> of \<open>acquire\<close>\<close>
  "openConsumerSession now l token ov diagnostics throws gw0 =
     (case identify now token gw0 of
        (Inl e, gw) \<Rightarrow> (Inl e, gw)
      | (Inr c, gw) \<Rightarrow>
          if ov_restore ov \<noteq> None \<and> \<not> fst (the (ov_restore ov)) then (Inl UnsealedRestore, gw)
          else started (start_acquire l (Some (c_id c)) ov throws
                 (Drive c (map_option snd (ov_restore ov)) diagnostics) gw))"

definition withConsumerSession ::
  "int \<Rightarrow> nat \<Rightarrow> string \<Rightarrow> overrides \<Rightarrow> bool \<Rightarrow> 's gateway \<Rightarrow> (gateway_error + unit) \<times> 's gateway" where
  "withConsumerSession now l token ov throws gw0 =
     (case identify now token gw0 of
        (Inl e, gw) \<Rightarrow> (Inl e, gw)
      | (Inr c, gw) \<Rightarrow> started (start_acquire l None ov throws (Transient c) gw))"

definition withSession :: "nat \<Rightarrow> overrides \<Rightarrow> bool \<Rightarrow> 's gateway \<Rightarrow> (gateway_error + unit) \<times> 's gateway" where
  "withSession l ov throws gw = started (start_acquire l None ov throws Bare gw)"

definition activity_on :: "activity \<Rightarrow> nat \<Rightarrow> 's gateway \<Rightarrow> 's gateway" where
  "activity_on a i gw = gw\<lparr>gw_manager := set_session i (act a (m_store (gw_manager gw) i)) (gw_manager gw)\<rparr>"

definition releasing :: "nat \<Rightarrow> 's gateway \<Rightarrow> 's gateway" where
  "releasing i gw = gw\<lparr>gw_manager := release i (gw_manager gw)\<rparr>"

definition leave_session :: "int \<Rightarrow> nat \<Rightarrow> 's gateway \<Rightarrow> 's gateway" where
  \<comment> \<open>the \<open>finally\<close> of \<open>withSession\<close>\<close>
  "leave_session now i gw = releasing i (activity_on (End now) i gw)"

definition abandon :: "int \<Rightarrow> purpose \<Rightarrow> nat \<Rightarrow> 's gateway \<Rightarrow> 's gateway" where
  \<comment> \<open>the session could not be guarded\<close>
  "abandon now p i gw = (case p of Drive _ _ _ \<Rightarrow> releasing i gw | _ \<Rightarrow> leave_session now i gw)"

text \<open>\<open>acquire\<close> has settled: its \<open>finally\<close> runs and the caller goes on, to the guard's swap and the \<open>await\<close> of its
  installation (or, without a policy, straight into the callback).\<close>

definition acquired ::
  "url_parser \<Rightarrow> int \<Rightarrow> nat \<Rightarrow> launch \<Rightarrow> acquire_error + nat \<Rightarrow> purpose \<Rightarrow> 's gateway \<Rightarrow> gateway_error option \<times> 's gateway" where
  "acquired parse now l la res p gw =
     (let gw1 = gw\<lparr>gw_manager := acquireFinally l la (gw_manager gw),
                   gw_opening := filter (\<lambda>q. fst q \<noteq> l) (gw_opening gw)\<rparr>
      in case res of
           Inl e \<Rightarrow> (Some (AcquireFailed e), gw1)
         | Inr i \<Rightarrow>
           (let gw2 = (case p of Drive _ _ _ \<Rightarrow> gw1 | _ \<Rightarrow> activity_on (Begin now) i gw1)
            in if p = Bare then (None, gw2\<lparr>gw_running := gw_running gw2 @ [(i, p)]\<rparr>)
               else case gw_policy gw2 of
                 None \<Rightarrow> (Some NoPolicy, gw2)
               | Some pe \<Rightarrow>
                 (if use_core (m_store (gw_manager gw2) i) = None then (Some CoreClosed, abandon now p i gw2)
                  else (None, gw2\<lparr>gw_guards := (gw_guards gw2)(i := Some (guard_of parse pe p)),
                                  gw_guarding := gw_guarding gw2 @ [(i, p)]\<rparr>))))"

definition session_open_record :: "int \<Rightarrow> consumer \<Rightarrow> string \<Rightarrow> audit_record" where
  "session_open_record now c credentialHost =
     \<lparr>ar_ts = now, ar_consumerId = Some (c_id c), ar_action = SessionOpen, ar_decision = OpenDecision,
      ar_host = Some credentialHost, ar_url = None, ar_reason = Some ''credentialed session''\<rparr>"

definition guard_settled ::
  "int \<Rightarrow> bool \<Rightarrow> nat \<Rightarrow> purpose \<Rightarrow> 's gateway \<Rightarrow> gateway_error option \<times> 's gateway" where
  \<comment> \<open>\<open>ok\<close>: the promise of \<open>setNavigationGuard\<close> resolved\<close>
  "guard_settled now ok i p gw =
     (let gw1 = gw\<lparr>gw_guarding := remove1 (i, p) (gw_guarding gw)\<rparr>
      in if \<not> ok then (Some GuardFailed, abandon now p i gw1)
         else case p of
           Drive c cred _ \<Rightarrow>
             (None, gw1\<lparr>gw_trail :=
                 (if js_truthy cred then pe_record (the (gw_policy gw)) (session_open_record now c (the cred)) (gw_trail gw)
                  else gw_trail gw),
               gw_handles := gw_handles gw @ [(i, c)]\<rparr>)
         | _ \<Rightarrow> (None, gw1\<lparr>gw_running := gw_running gw @ [(i, p)]\<rparr>))"

definition callback_done :: "int \<Rightarrow> nat \<Rightarrow> purpose \<Rightarrow> 's gateway \<Rightarrow> 's gateway" where
  \<comment> \<open>\<open>fn\<close> returned or threw\<close>
  "callback_done now i p gw = leave_session now i (gw\<lparr>gw_running := remove1 (i, p) (gw_running gw)\<rparr>)"

section \<open>Using and closing\<close>

definition owns :: "consumer \<Rightarrow> nat \<Rightarrow> 's gateway \<Rightarrow> bool" where
  "owns c h gw \<longleftrightarrow> h \<in> set (m_sessions (gw_manager gw)) \<and> s_consumerId (m_store (gw_manager gw) h) = Some (c_id c)"

definition useConsumerSession ::
  "int \<Rightarrow> string \<Rightarrow> nat \<Rightarrow> 's gateway \<Rightarrow> (gateway_error + consumer) \<times> 's gateway" where
  \<comment> \<open>up to the call of \<open>fn\<close>\<close>
  "useConsumerSession now token h gw0 =
     (case identify now token gw0 of
        (Inl e, gw) \<Rightarrow> (Inl e, gw)
      | (Inr c, gw) \<Rightarrow>
          if \<not> owns c h gw then (Inl NoOpenSession, gw) else (Inr c, activity_on (Begin now) h gw))"

definition useDone :: "int \<Rightarrow> nat \<Rightarrow> 's gateway \<Rightarrow> 's gateway" where
  "useDone now h gw = activity_on (End now) h gw"

definition closeConsumerSession :: "int \<Rightarrow> string \<Rightarrow> nat \<Rightarrow> 's gateway \<Rightarrow> (gateway_error + unit) \<times> 's gateway" where
  "closeConsumerSession now token h gw0 =
     (case identify now token gw0 of
        (Inl e, gw) \<Rightarrow> (Inl e, gw)
      | (Inr c, gw) \<Rightarrow> (Inr (), if owns c h gw then releasing h gw else gw))"

section \<open>Steps\<close>

datatype gateway_event =
    OpenDrive int nat string overrides bool bool | OpenTransient int nat string overrides bool
  | OpenBare nat overrides bool | Acquired int nat | GuardSettled int bool nat purpose
  | CallbackDone int nat purpose | UseBegin int string nat | UseDone int nat | CloseSession int string nat
  | Paused int bool nat fetch_event | Env event

definition gateway_owned :: "event \<Rightarrow> bool" where
  \<comment> \<open>steps of the manager that only the gateway's own methods take\<close>
  "gateway_owned e = (case e of Acquire _ _ _ _ \<Rightarrow> True | AcquireFinally _ \<Rightarrow> True | _ \<Rightarrow> False)"

abbreviation fresh_launch :: "nat \<Rightarrow> 's gateway \<Rightarrow> bool" where
  "fresh_launch l gw \<equiv> l \<notin> fst ` set (m_launches (gw_manager gw)) \<and> l \<notin> fst ` set (gw_opening gw)"

inductive gstep :: "url_parser \<Rightarrow> 's gateway \<Rightarrow> gateway_event \<Rightarrow> 's gateway \<Rightarrow> bool" for parse where
  drive: "fresh_launch l gw \<Longrightarrow>
    gstep parse gw (OpenDrive now l t ov d th) (snd (openConsumerSession now l t ov d th gw))"
| transient: "fresh_launch l gw \<Longrightarrow>
    gstep parse gw (OpenTransient now l t ov th) (snd (withConsumerSession now l t ov th gw))"
| bare: "fresh_launch l gw \<Longrightarrow> gstep parse gw (OpenBare l ov th) (snd (withSession l ov th gw))"
| acquired: "(l, p) \<in> set (gw_opening gw) \<Longrightarrow> map_of (m_launches (gw_manager gw)) l = Some la \<Longrightarrow>
    l_phase la = Settled res \<Longrightarrow> gstep parse gw (Acquired now l) (snd (acquired parse now l la res p gw))"
| guarded: "(i, p) \<in> set (gw_guarding gw) \<Longrightarrow>
    gstep parse gw (GuardSettled now ok i p) (snd (guard_settled now ok i p gw))"
| done_: "(i, p) \<in> set (gw_running gw) \<Longrightarrow> gstep parse gw (CallbackDone now i p) (callback_done now i p gw)"
| use: "gstep parse gw (UseBegin now t h) (snd (useConsumerSession now t h gw))"
| used: "h < m_nextSession (gw_manager gw) \<Longrightarrow> gstep parse gw (UseDone now h) (useDone now h gw)"
| close: "gstep parse gw (CloseSession now t h) (snd (closeConsumerSession now t h gw))"
| paused: "gstep parse gw (Paused now closing i ev) (snd (paused parse now closing i ev gw))"
| env: "\<not> gateway_owned e \<Longrightarrow> mstep (gw_manager gw) e m' \<Longrightarrow> gstep parse gw (Env e) (gw\<lparr>gw_manager := m'\<rparr>)"

definition fresh_gateway :: "'s policy_engine option \<Rightarrow> 's gateway \<Rightarrow> bool" where
  "fresh_gateway policy gw \<longleftrightarrow> (\<exists>config s. gw = new_Gateway config policy s)"

end
