(* ===== verification/Gateway_Safety.thy ===== *)
theory Gateway_Safety
  imports Gateway
begin

text \<open>
  What the gateway promises: it refines the session manager (each of its steps is at most one step of the
  manager, so every theorem about the manager holds below it); no request leaves any of its sessions that
  an authenticated consumer's policy does not admit; a consumer can only drive sessions that are guarded by
  its own rules.
\<close>

section \<open>What a step of the manager keeps\<close>

text \<open>Sessions keep their consumer, launches theirs, and no launch settles with a session.\<close>

definition keeps :: "manager \<Rightarrow> manager \<Rightarrow> bool" where
  "keeps m m' \<longleftrightarrow> m_nextSession m \<le> m_nextSession m' \<and>
     (\<forall>i < m_nextSession m. s_consumerId (m_store m' i) = s_consumerId (m_store m i)) \<and>
     (\<forall>l la'. (l, la') \<in> set (m_launches m') \<longrightarrow>
        (\<exists>la. (l, la) \<in> set (m_launches m) \<and> l_consumerId la = l_consumerId la' \<and>
           (\<forall>i. l_phase la' = Settled (Inr i) \<longrightarrow> l_phase la = Settled (Inr i))))"

lemma keeps_refl [simp]: "keeps m m"
  by (auto simp: keeps_def)

lemma keeps_trans: "keeps a b \<Longrightarrow> keeps b c \<Longrightarrow> keeps a c"
  by (fastforce simp: keeps_def)

lemma keeps_same:
  assumes "m_nextSession m' = m_nextSession m" "m_store m' = m_store m" "m_launches m' = m_launches m"
  shows "keeps m m'"
  using assms by (auto simp: keeps_def)

lemma keeps_ledgers: "ledgers_only m m' \<Longrightarrow> keeps m m'"
  by (rule keeps_same) (simp_all add: ledgers_onlyD)

lemma keeps_then_ledgers: "keeps m x \<Longrightarrow> ledgers_only x m' \<Longrightarrow> keeps m m'"
  by (blast intro: keeps_trans keeps_ledgers)

lemma keeps_store:
  assumes "m_nextSession m' = m_nextSession m" "m_launches m' = m_launches m"
    "\<And>j. s_consumerId (m_store m' j) = s_consumerId (m_store m j)"
  shows "keeps m m'"
  using assms by (auto simp: keeps_def)

lemma keeps_upd_launch:
  assumes "\<And>la. l_consumerId (f la) = l_consumerId la" "\<And>la i. l_phase (f la) \<noteq> Settled (Inr i)"
  shows "keeps m (upd_launch l f m)"
  using assms by (fastforce simp: keeps_def upd_launch_def)

lemma keeps_settle_error: "keeps m (settle_launch l (Inl e) m)"
  unfolding settle_launch_def by (rule keeps_upd_launch) simp_all

lemma keeps_new_core: "keeps m (new_core fk c now d m)"
  by (auto simp: keeps_def new_core_def)

lemma keeps_new_rec: "keeps m (new_rec q m)"
  by (rule keeps_same) (simp_all add: new_rec_def)

lemma keeps_confirmed:
  assumes "s_consumerId s = s_consumerId (m_store m i)"
  shows "keeps m (confirmed_dead i s m)"
  by (rule keeps_store) (simp_all add: confirmed_dead_def set_session_def assms)

lemma keeps_fold: "(\<And>x m. keeps m (f x m)) \<Longrightarrow> keeps m (fold f xs m)"
  by (induction xs arbitrary: m) (auto intro: keeps_trans)

lemma ledgers_id: "ledgers_only m (sweepOrphan r m)" "ledgers_only m (settleReapedOrphan r m)"
  "ledgers_only m (add_orphan r m)" "ledgers_only m (upd_rec r f m)"
  by (simp_all add: ledgers_ops)

lemma keeps_enqueue: "keeps m (enqueueOrphan r m)"
  unfolding enqueueOrphan_def by (blast intro: keeps_trans keeps_ledgers ledgers_id)

lemma keeps_launchFailed: "keeps m (launchFailed l la m)"
  unfolding launchFailed_def
  by (auto intro: keeps_trans [OF _ keeps_settle_error] keeps_trans [OF keeps_new_rec keeps_enqueue] keeps_settle_error)

lemma keeps_timedOut: "keeps m (launchTimedOut l la m)"
proof -
  have "keeps m (enqueueOrphan (m_nextRec m) (new_rec (orphan_of_launch la False) m))" (is "keeps m ?m1")
    by (rule keeps_trans [OF keeps_new_rec keeps_enqueue])
  moreover have "keeps ?m1 (?m1\<lparr>m_late := m_late ?m1 @ [(m_nextRec m, l_dir la)]\<rparr>)" by (rule keeps_same) simp_all
  ultimately show ?thesis
    unfolding launchTimedOut_def Let_def by (blast intro: keeps_trans keeps_settle_error)
qed

lemma removeOwnedDir_frame [simp]:
  "m_nextSession (removeOwnedDir i m) = m_nextSession m" "m_store (removeOwnedDir i m) = m_store m"
  "m_launches (removeOwnedDir i m) = m_launches m"
  by (simp_all add: removeOwnedDir_def split: option.splits)

lemma keeps_removeOwnedDir: "keeps m (removeOwnedDir i m)"
  by (rule keeps_same) simp_all

lemma keeps_begin: "keeps m (beginTeardown i m)" "keeps m (release i m)"
  by (rule keeps_same; simp add: beginTeardown_def release_def)+

lemma keeps_use: "keeps m (set_session i (act a (m_store m i)) m)"
  by (rule keeps_store) (simp_all add: set_session_def act_consumer)


lemma keeps_selfDone: "keeps m (selfTeardownDone l r i cl ok m)"
proof (cases "snd (teardown cl ok (m_store m i))")
  case None
  have "keeps m (m\<lparr>m_unconfirmed := set_add i (m_unconfirmed m)\<rparr>)" by (rule keeps_same) simp_all
  then show ?thesis unfolding selfTeardownDone_def None by (simp add: keeps_trans [OF _ keeps_settle_error])
next
  case (Some s)
  have "keeps m (settleReapedOrphan r (confirmed_dead i s m))"
    using keeps_confirmed [OF teardown_consumer [OF Some]] ledgers_id(2) by (rule keeps_then_ledgers)
  then show ?thesis
    unfolding selfTeardownDone_def Some option.case by (rule keeps_trans) (rule keeps_upd_launch; simp)
qed

lemma keeps_lateDone: "keeps m (lateTeardownDone r i cl ok m)"
proof -
  let ?m1 = "m\<lparr>m_reaping := remove1 (r, i) (m_reaping m)\<rparr>"
  have m1: "keeps m ?m1" by (rule keeps_same) simp_all
  have u: "keeps ?m1 (?m1\<lparr>m_unconfirmed := set_add i (m_unconfirmed ?m1)\<rparr>)" by (rule keeps_same) simp_all
  have "keeps ?m1 (settleReapedOrphan r (confirmed_dead i s ?m1))" if "snd (teardown cl ok (m_store ?m1 i)) = Some s" for s
    using keeps_confirmed [OF teardown_consumer [OF that]] ledgers_id(2) by (rule keeps_then_ledgers)
  then show ?thesis
    unfolding lateTeardownDone_def Let_def
    by (cases "snd (teardown cl ok (m_store ?m1 i))") (use m1 u in \<open>auto intro: keeps_trans\<close>)
qed

lemma keeps_lateResolved: "keeps m (lateResolved r d fk now m)"
proof -
  let ?i = "m_nextSession m"
  let ?m1 = "new_core fk None now d (m\<lparr>m_late := remove1 (r, d) (m_late m)\<rparr>)"
  let ?m2 = "upd_rec r (\<lambda>q. q\<lparr>o_settled := True, o_session := Some ?i\<rparr>) ?m1"
  let ?m3 = "add_orphan r (?m2\<lparr>m_watch := removeAll r (m_watch ?m2)\<rparr>)"
  have "keeps m (m\<lparr>m_late := remove1 (r, d) (m_late m)\<rparr>)" by (rule keeps_same) simp_all
  then have "keeps m ?m1" by (rule keeps_trans [OF _ keeps_new_core])
  moreover have "ledgers_only ?m1 ?m3" by (intro ledgers_then) simp
  ultimately have "keeps m ?m3" by (rule keeps_then_ledgers)
  moreover have "keeps ?m3 (?m3\<lparr>m_reaping := m_reaping ?m3 @ [(r, ?i)]\<rparr>)" by (rule keeps_same) simp_all
  ultimately show ?thesis unfolding lateResolved_def Let_def by (rule keeps_trans)
qed

lemma keeps_lateRejected: "keeps m (lateRejected r d m)"
proof -
  let ?m0 = "m\<lparr>m_late := remove1 (r, d) (m_late m)\<rparr>"
  have "keeps m ?m0" by (rule keeps_same) simp_all
  moreover have "ledgers_only ?m0 (lateRejected r d m)"
    by (auto simp: lateRejected_def Let_def intro!: ledgers_ops ledgers_then)
  ultimately show ?thesis by (rule keeps_then_ledgers)
qed

lemma keeps_teardownDone: "keeps m (teardownDone i cl ok m)"
proof (cases "snd (teardown cl ok (m_store m i))")
  case None
  show ?thesis by (rule keeps_same) (simp_all add: teardownDone_def None)
next
  case (Some s)
  show ?thesis
    by (rule keeps_store)
      (simp_all add: teardownDone_def Some confirmed_dead_def set_session_def teardown_consumer [OF Some])
qed

lemma keeps_reconfirmDone: "keeps m (reconfirmDone i ok m)"
proof (cases "snd (reconfirm ok (m_store m i))")
  case None
  show ?thesis by (rule keeps_same) (simp_all add: reconfirmDone_def None)
next
  case (Some s)
  let ?m2 = "removeOwnedDir i (confirmed_dead i s (m\<lparr>m_reconfirming := remove1 i (m_reconfirming m),
    m_sessions := removeAll i (m_sessions m), m_unconfirmed := removeAll i (m_unconfirmed m)\<rparr>))"
  have k: "keeps m ?m2"
    by (rule keeps_store) (simp_all add: confirmed_dead_def set_session_def reconfirm_consumer [OF Some])
  have "reconfirmDone i ok m = (case find (\<lambda>r. o_session (m_recs ?m2 r) = Some i) (m_orphans ?m2) of
      None \<Rightarrow> ?m2 | Some r \<Rightarrow> settleReapedOrphan r ?m2)"
    by (simp add: reconfirmDone_def Some Let_def)
  then show ?thesis using k keeps_then_ledgers [OF k ledgers_id(2)] by (simp split: option.splits)
qed

lemma keeps_call_factory:
  assumes "(l, la0) \<in> set (m_launches m)" "l_consumerId la0 = l_consumerId la" "distinct (map fst (m_launches m))"
  shows "keeps m (call_factory l th la m)"
proof (cases th)
  case False
  have "l_consumerId la' = l_consumerId la" if "(l, la') \<in> set (m_launches m)" for la'
    using that assms by (metis eq_key_imp_eq_value)
  then show ?thesis using False by (fastforce simp: call_factory_def keeps_def upd_launch_def)
qed (simp add: call_factory_def keeps_launchFailed)

lemma keeps_dirMinted:
  assumes "map_of (m_launches m) l = Some la" "distinct (map fst (m_launches m))" "l_phase la = Minting"
  shows "keeps m (dirMinted l d th la m)"
proof -
  let ?la = "la\<lparr>l_dir := d\<rparr>"
  let ?m0 = "m\<lparr>m_minted := (case d of None \<Rightarrow> m_minted m | Some x \<Rightarrow> x # m_minted m)\<rparr>"
  let ?m1 = "upd_launch l (\<lambda>_. ?la) ?m0"
  have in_m: "(l, la) \<in> set (m_launches m)" using assms(1) by (rule map_of_SomeD)
  have "keeps m ?m0" by (rule keeps_same) simp_all
  moreover have "keeps ?m0 ?m1"
    using assms(2,3) in_m by (fastforce simp: keeps_def upd_launch_def dest: eq_key_imp_eq_value)
  moreover have "keeps ?m1 (call_factory l th ?la ?m1)"
  proof (rule keeps_call_factory [where la0 = ?la])
    show "(l, ?la) \<in> set (m_launches ?m1)" using in_m by (force simp: upd_launch_def)
    show "distinct (map fst (m_launches ?m1))" using assms(2) by (simp add: upd_launch_def case_prod_unfold comp_def)
  qed simp
  ultimately show ?thesis unfolding dirMinted_def Let_def by (blast intro: keeps_trans)
qed

lemma keeps_composed:
  "keeps m (snd (reapIdle ttl now mx m))" "keeps m (reapSweeps m)" "keeps m (shutdownTeardowns m)"
  "keeps m (shutdownSweeps m)" "keeps m (drainUnconfirmed m)" "keeps m (shutdownBegin m)"
  "keeps m (sweepDone r out m)" "keeps m (sweepFailed r m)"
proof -
  have s: "keeps m (sweepOrphan r m)" for r m by (rule keeps_ledgers) (rule ledgers_id)
  show "keeps m (snd (reapIdle ttl now mx m))" "keeps m (shutdownTeardowns m)"
    by (simp_all add: reapIdle_def shutdownTeardowns_def Let_def keeps_fold keeps_begin)
  show "keeps m (shutdownSweeps m)" unfolding shutdownSweeps_def by (rule keeps_fold [OF s])
  have "keeps m (enforceWatchCap 0 m)" by (rule keeps_ledgers) (simp add: ledgers_ops)
  then show "keeps m (reapSweeps m)"
    unfolding reapSweeps_def Let_def by (rule keeps_trans) (rule keeps_fold [OF s])
  show "keeps m (drainUnconfirmed m)" "keeps m (shutdownBegin m)"
    by (rule keeps_same; simp add: drainUnconfirmed_def shutdownBegin_def)+
  show "keeps m (sweepDone r out m)" "keeps m (sweepFailed r m)" by (rule keeps_ledgers, rule ledgers_verdicts)+
qed


text \<open>A launch that settled with a session tagged it with its own consumer.\<close>

definition tagged :: "manager \<Rightarrow> bool" where
  "tagged m \<longleftrightarrow> (\<forall>l la i. (l, la) \<in> set (m_launches m) \<longrightarrow> l_phase la = Settled (Inr i) \<longrightarrow>
     i < m_nextSession m \<and> s_consumerId (m_store m i) = l_consumerId la)"

lemma tagged_keeps:
  assumes "tagged m" "keeps m m'"
  shows "tagged m'"
  unfolding tagged_def
proof (intro allI impI)
  fix l la' i
  assume l: "(l, la') \<in> set (m_launches m')" "l_phase la' = Settled (Inr i)"
  then obtain la where la: "(l, la) \<in> set (m_launches m)" "l_consumerId la = l_consumerId la'" "l_phase la = Settled (Inr i)"
    using assms(2) unfolding keeps_def by blast
  then have "i < m_nextSession m \<and> s_consumerId (m_store m i) = l_consumerId la" using assms(1) unfolding tagged_def by blast
  then show "i < m_nextSession m' \<and> s_consumerId (m_store m' i) = l_consumerId la'"
    using assms(2) la(2) unfolding keeps_def by (metis less_le_trans)
qed

text \<open>An acquire adds one launch, for the consumer it was called with.\<close>

definition keeps_but :: "nat \<Rightarrow> string option \<Rightarrow> manager \<Rightarrow> manager \<Rightarrow> bool" where
  "keeps_but l c m m' \<longleftrightarrow> (\<exists>m1. m_nextSession m1 = m_nextSession m \<and> m_store m1 = m_store m \<and>
     m_launches m1 = m_launches m @ [(l, \<lparr>l_consumerId = truthy c, l_dir = None, l_phase = Minting\<rparr>)] \<and> keeps m1 m')"

lemma acquire_keeps:
  assumes "l \<notin> fst ` set (m_launches m)" "distinct (map fst (m_launches m))"
  shows "snd (acquire l c cd th m) = m \<and> fst (acquire l c cd th m) \<noteq> None \<or>
    fst (acquire l c cd th m) = None \<and> keeps_but l c m (snd (acquire l c cd th m))"
proof (cases "fst (acquire l c cd th m)")
  case None
  let ?la = "\<lparr>l_consumerId = truthy c, l_dir = None, l_phase = Minting\<rparr>"
  define m1 where "m1 = m\<lparr>m_reserved := m_reserved m + 1,
    m_reservedByConsumer :=
      (if js_truthy c
       then alist_put (the c) ((case map_of (m_reservedByConsumer m) (the c) of None \<Rightarrow> 0 | Some n \<Rightarrow> n) + 1)
              (m_reservedByConsumer m)
       else m_reservedByConsumer m),
    m_launches := m_launches m @ [(l, ?la)]\<rparr>"
  have m1: "m_nextSession m1 = m_nextSession m" "m_store m1 = m_store m" "m_launches m1 = m_launches m @ [(l, ?la)]"
    "snd (acquire l c cd th m) = (if cd then call_factory l th ?la m1 else m1)"
    using None by (auto simp: m1_def acquire_def Let_def split: if_splits)
  have "keeps m1 (call_factory l th ?la m1)"
    by (rule keeps_call_factory [of l ?la]) (use m1(3) assms in \<open>auto simp: image_iff\<close>)
  then have "keeps m1 (snd (acquire l c cd th m))" using m1(4) by (cases cd) simp_all
  then show ?thesis unfolding keeps_but_def using m1 None by blast
qed (auto simp: acquire_def Let_def split: if_splits)

lemma tagged_acquire:
  assumes "tagged m" "l \<notin> fst ` set (m_launches m)" "distinct (map fst (m_launches m))"
  shows "tagged (snd (acquire l c cd th m))"
proof -
  have "tagged m1" if "m_nextSession m1 = m_nextSession m" "m_store m1 = m_store m"
    "m_launches m1 = m_launches m @ [(l, \<lparr>l_consumerId = truthy c, l_dir = None, l_phase = Minting\<rparr>)]" for m1
    using assms(1) that by (auto simp: tagged_def)
  then show ?thesis using acquire_keeps [OF assms(2,3), of c cd th] assms(1) tagged_keeps unfolding keeps_but_def by metis
qed

text \<open>What the gateway needs of the manager's own steps, and of those that settle a launch.\<close>

definition carries :: "manager \<Rightarrow> manager \<Rightarrow> bool" where
  "carries m m' \<longleftrightarrow> m_nextSession m \<le> m_nextSession m' \<and>
     (\<forall>i < m_nextSession m. s_consumerId (m_store m' i) = s_consumerId (m_store m i)) \<and>
     (\<forall>l la'. (l, la') \<in> set (m_launches m') \<longrightarrow>
        (\<exists>la. (l, la) \<in> set (m_launches m) \<and> l_consumerId la = l_consumerId la'))"

lemma carries_refl [simp]: "carries m m"
  by (auto simp: carries_def)

lemma keeps_carries: "keeps m m' \<Longrightarrow> carries m m'"
  unfolding keeps_def carries_def by blast

lemma launched_carries:
  assumes "tagged m" "(l, la) \<in> set (m_launches m)" "distinct (map fst (m_launches m))"
  shows "carries m (launched l fk now la m) \<and> tagged (launched l fk now la m)"
proof (cases "m_shuttingDown m")
  case True
  let ?m2 = "add_orphan (m_nextRec m)
    (new_rec (blank_orphan\<lparr>o_session := Some (m_nextSession m), o_dir := l_dir la\<rparr>) (new_core fk None now (l_dir la) m))"
  have "keeps m ?m2"
    by (rule keeps_trans [OF keeps_trans [OF keeps_new_core keeps_new_rec] keeps_ledgers [OF ledgers_id(3)]])
  then have "keeps m (upd_launch l (\<lambda>x. x\<lparr>l_phase := SelfTeardown (m_nextRec m) (m_nextSession m)\<rparr>) ?m2)"
    by (rule keeps_trans) (rule keeps_upd_launch; simp)
  then have "keeps m (launched l fk now la m)" using True by (simp add: launched_def Let_def)
  then show ?thesis using assms(1) by (simp add: keeps_carries tagged_keeps)
next
  case False
  let ?i = "m_nextSession m" and ?m' = "launched l fk now la m"
  have f: "m_nextSession ?m' = Suc ?i" "m_store ?m' = (m_store m)(?i := new_Session fk (l_consumerId la) now)"
    "m_launches ?m' = map (\<lambda>(k, x). (k, if k = l then x\<lparr>l_phase := Settled (Inr ?i)\<rparr> else x)) (m_launches m)"
    using False by (simp_all add: launched_def Let_def settle_launch_def upd_launch_def new_core_def)
  have u: "x = la" if "(l, x) \<in> set (m_launches m)" for x
    using that assms(2,3) by (metis eq_key_imp_eq_value)
  have "carries m ?m'" unfolding carries_def f by fastforce
  moreover have "tagged ?m'"
    using assms(1) u unfolding tagged_def f by (fastforce simp: new_Session_def split: if_splits)
  ultimately show ?thesis by blast
qed

lemma mstep_carries:
  assumes "mstep m e m'" "\<not> gateway_owned e" "tagged m" "distinct (map fst (m_launches m))"
  shows "carries m m' \<and> tagged m'"
proof -
  have k: "carries m m' \<and> tagged m'" if "keeps m m'" for m' using that assms(3) by (simp add: keeps_carries tagged_keeps)
  show ?thesis
    using assms(1)
  proof cases
    case launched
    then show ?thesis using launched_carries [OF assms(3) map_of_SomeD assms(4)] by blast
  next
    case minted
    then show ?thesis using k keeps_dirMinted assms(4) by blast
  next
    case (release i)
    then show ?thesis using k keeps_begin by blast
  next
    case (use i a)
    then show ?thesis using k keeps_use by blast
  qed (use assms(2) k keeps_launchFailed keeps_timedOut keeps_selfDone keeps_settle_error keeps_lateResolved keeps_lateDone
      keeps_lateRejected keeps_composed keeps_teardownDone keeps_reconfirmDone in \<open>auto simp: gateway_owned_def\<close>)
qed


section \<open>The gateway's invariant\<close>

fun purpose_consumer :: "purpose \<Rightarrow> consumer option" where
  "purpose_consumer (Drive c _ _) = Some c"
| "purpose_consumer (Transient c) = Some c"
| "purpose_consumer Bare = None"

fun purpose_tag :: "purpose \<Rightarrow> string option" where
  \<comment> \<open>the consumer its session is tagged with\<close>
  "purpose_tag (Drive c _ _) = truthy (Some (c_id c))"
| "purpose_tag _ = None"

definition authorised :: "'s policy_engine option \<Rightarrow> purpose \<Rightarrow> bool" where
  "authorised policy p \<longleftrightarrow>
     (\<forall>c. purpose_consumer p = Some c \<longrightarrow> (\<exists>pe t. policy = Some pe \<and> resolve (pe_registry pe) t = Some c))"

definition guarded_for :: "url_parser \<Rightarrow> 's gateway \<Rightarrow> nat \<Rightarrow> (int \<Rightarrow> 's guard_fun) \<Rightarrow> bool" where
  "guarded_for parse gw i g \<longleftrightarrow> (\<exists>pe p. gw_policy gw = Some pe \<and> p \<noteq> Bare \<and> authorised (Some pe) p \<and>
     g = guard_of parse pe p \<and> s_consumerId (m_store (gw_manager gw) i) = purpose_tag p)"

definition gw_inv :: "url_parser \<Rightarrow> 's policy_engine option \<Rightarrow> 's gateway \<Rightarrow> bool" where
  "gw_inv parse policy gw \<longleftrightarrow> gw_policy gw = policy \<and>
     reachable fresh_manager mstep (gw_manager gw) \<and> tagged (gw_manager gw) \<and>
     (\<forall>(l, p) \<in> set (gw_opening gw). authorised policy p \<and>
        (\<forall>la. (l, la) \<in> set (m_launches (gw_manager gw)) \<longrightarrow> l_consumerId la = purpose_tag p)) \<and>
     (\<forall>i g. gw_guards gw i = Some g \<longrightarrow> i < m_nextSession (gw_manager gw) \<and> guarded_for parse gw i g) \<and>
     (\<forall>(i, p) \<in> set (gw_guarding gw) \<union> set (gw_running gw). i < m_nextSession (gw_manager gw))"

lemma gw_invI:
  assumes "gw_policy gw = policy" "reachable fresh_manager mstep (gw_manager gw)" "tagged (gw_manager gw)"
    and "\<And>l p. (l, p) \<in> set (gw_opening gw) \<Longrightarrow> authorised policy p \<and>
      (\<forall>la. (l, la) \<in> set (m_launches (gw_manager gw)) \<longrightarrow> l_consumerId la = purpose_tag p)"
    and "\<And>i g. gw_guards gw i = Some g \<Longrightarrow> i < m_nextSession (gw_manager gw) \<and> guarded_for parse gw i g"
    and "\<And>i p. (i, p) \<in> set (gw_guarding gw) \<union> set (gw_running gw) \<Longrightarrow> i < m_nextSession (gw_manager gw)"
  shows "gw_inv parse policy gw"
  unfolding gw_inv_def using assms by blast

lemma gw_guardedD: "gw_inv parse policy gw \<Longrightarrow> gw_guards gw i = Some g \<Longrightarrow> guarded_for parse gw i g"
  by (simp add: gw_inv_def)

lemma reachable_distinct: "reachable fresh_manager mstep m \<Longrightarrow> distinct (map fst (m_launches m))"
  by (rule launches_distinct [OF accounting.always])

lemma reachable_sessions: "reachable fresh_manager mstep m \<Longrightarrow> i \<in> set (m_sessions m) \<Longrightarrow> i < m_nextSession m"
  using accounting.always [of m] by (auto simp: acc_inv_def allocated_def)

lemma guarded_for_carries:
  assumes "guarded_for parse gw i g" "i < m_nextSession (gw_manager gw)" "carries (gw_manager gw) (gw_manager gw')"
    "gw_policy gw' = gw_policy gw"
  shows "guarded_for parse gw' i g"
  using assms unfolding guarded_for_def carries_def by auto

lemma gw_inv_carry:
  assumes "gw_inv parse policy gw" "carries (gw_manager gw) (gw_manager gw')" "tagged (gw_manager gw')"
    and "reachable fresh_manager mstep (gw_manager gw')" "gw_policy gw' = gw_policy gw" "gw_guards gw' = gw_guards gw"
    and "set (gw_opening gw') \<subseteq> set (gw_opening gw)"
    and "set (gw_guarding gw') \<union> set (gw_running gw') \<subseteq> set (gw_guarding gw) \<union> set (gw_running gw)"
  shows "gw_inv parse policy gw'"
proof -
  let ?m = "gw_manager gw" and ?m' = "gw_manager gw'"
  have n: "m_nextSession ?m \<le> m_nextSession ?m'" using assms(2) by (simp add: carries_def)
  have "authorised policy p \<and> (\<forall>la. (l, la) \<in> set (m_launches ?m') \<longrightarrow> l_consumerId la = purpose_tag p)"
    if "(l, p) \<in> set (gw_opening gw')" for l p
  proof -
    have "(l, p) \<in> set (gw_opening gw)" using that assms(7) by blast
    then have "authorised policy p" "\<forall>la. (l, la) \<in> set (m_launches ?m) \<longrightarrow> l_consumerId la = purpose_tag p"
      using assms(1) unfolding gw_inv_def by blast+
    then show ?thesis using assms(2) unfolding carries_def by metis
  qed
  moreover have "i < m_nextSession ?m' \<and> guarded_for parse gw' i g" if "gw_guards gw' i = Some g" for i g
  proof -
    have i: "i < m_nextSession ?m" "guarded_for parse gw i g" using assms(1,6) that by (simp_all add: gw_inv_def)
    then show ?thesis using n guarded_for_carries [OF i(2,1) assms(2,5)] by simp
  qed
  moreover have "i < m_nextSession ?m'" if "(i, p) \<in> set (gw_guarding gw') \<union> set (gw_running gw')" for i p
  proof -
    have "(i, p) \<in> set (gw_guarding gw) \<union> set (gw_running gw)" using that assms(8) by blast
    then have "i < m_nextSession ?m" using assms(1) unfolding gw_inv_def by blast
    with n show ?thesis by simp
  qed
  moreover have "gw_policy gw' = policy" using assms(1,5) by (simp add: gw_inv_def)
  ultimately show ?thesis using assms(3,4) by (intro gw_invI) blast+
qed

lemma gw_inv_same:
  assumes "gw_inv parse policy gw" "gw_manager gw' = gw_manager gw" "gw_policy gw' = gw_policy gw"
    "gw_guards gw' = gw_guards gw" "set (gw_opening gw') \<subseteq> set (gw_opening gw)"
    "set (gw_guarding gw') \<union> set (gw_running gw') \<subseteq> set (gw_guarding gw) \<union> set (gw_running gw)"
  shows "gw_inv parse policy gw'"
  by (rule gw_inv_carry [OF assms(1)]) (use assms in \<open>simp_all add: gw_inv_def\<close>)

lemma gw_inv_trail: "gw_inv parse policy gw \<Longrightarrow> gw_inv parse policy (gw\<lparr>gw_trail := s\<rparr>)"
  by (erule gw_inv_same) simp_all

lemma gw_inv_mstep:
  assumes "gw_inv parse policy gw" "mstep (gw_manager gw) e m'" "\<not> gateway_owned e"
  shows "gw_inv parse policy (gw\<lparr>gw_manager := m'\<rparr>)"
proof (rule gw_inv_carry [OF assms(1)])
  have r: "reachable fresh_manager mstep (gw_manager gw)" "tagged (gw_manager gw)" using assms(1) by (simp_all add: gw_inv_def)
  from mstep_carries [OF assms(2,3) r(2) reachable_distinct [OF r(1)]]
  show "carries (gw_manager gw) (gw_manager (gw\<lparr>gw_manager := m'\<rparr>))" "tagged (gw_manager (gw\<lparr>gw_manager := m'\<rparr>))" by simp_all
  show "reachable fresh_manager mstep (gw_manager (gw\<lparr>gw_manager := m'\<rparr>))"
    using reachable.more [OF r(1) assms(2)] by simp
qed simp_all

lemma gw_inv_releasing: "gw_inv parse policy gw \<Longrightarrow> gw_inv parse policy (releasing i gw)"
  unfolding releasing_def by (rule gw_inv_mstep [OF _ mstep.release]) (simp_all add: gateway_owned_def)

lemma gw_inv_activity:
  "gw_inv parse policy gw \<Longrightarrow> i < m_nextSession (gw_manager gw) \<Longrightarrow> gw_inv parse policy (activity_on a i gw)"
  unfolding activity_on_def by (rule gw_inv_mstep [OF _ mstep.use]) (simp_all add: gateway_owned_def)

lemma gateway_frame [simp]:
  "gw_policy (activity_on a i gw) = gw_policy gw" "gw_policy (releasing i gw) = gw_policy gw"
  "gw_guards (activity_on a i gw) = gw_guards gw" "gw_opening (activity_on a i gw) = gw_opening gw"
  "gw_guarding (activity_on a i gw) = gw_guarding gw" "gw_running (activity_on a i gw) = gw_running gw"
  "m_nextSession (gw_manager (activity_on a i gw)) = m_nextSession (gw_manager gw)"
  "m_launches (gw_manager (activity_on a i gw)) = m_launches (gw_manager gw)"
  "s_consumerId (m_store (gw_manager (activity_on a i gw)) j) = s_consumerId (m_store (gw_manager gw) j)"
  by (simp_all add: activity_on_def releasing_def set_session_def act_consumer)

lemma gw_inv_abandon:
  assumes "gw_inv parse policy gw" "i < m_nextSession (gw_manager gw)"
  shows "gw_inv parse policy (abandon now p i gw)" "gw_inv parse policy (leave_session now i gw)"
proof -
  show "gw_inv parse policy (leave_session now i gw)"
    unfolding leave_session_def by (intro gw_inv_releasing gw_inv_activity assms)
  then show "gw_inv parse policy (abandon now p i gw)"
    using gw_inv_releasing [OF assms(1), of i] by (cases p) (simp_all add: abandon_def)
qed

lemma gw_inv_start:
  assumes "gw_inv parse policy gw" "fresh_launch l gw" "authorised policy p" "truthy cid = purpose_tag p"
  shows "gw_inv parse policy (snd (start_acquire l cid ov th p gw))"
proof -
  let ?m = "gw_manager gw" and ?a = "acquire l cid (ov_userDataDir ov) th (gw_manager gw)"
  have r: "reachable fresh_manager mstep ?m" "tagged ?m" using assms(1) by (simp_all add: gw_inv_def)
  note d = reachable_distinct [OF r(1)]
  from acquire_keeps [OF conjunct1 [OF assms(2)] d, of cid "ov_userDataDir ov" th]
  show ?thesis
  proof (elim disjE conjE)
    assume "snd ?a = ?m" "fst ?a \<noteq> None"
    then obtain e where "?a = (Some e, ?m)" by (metis option.exhaust surjective_pairing)
    then show ?thesis using gw_inv_same [OF assms(1), of "gw\<lparr>gw_manager := ?m\<rparr>"] by (simp add: start_acquire_def)
  next
    assume admitted: "fst ?a = None" "keeps_but l cid ?m (snd ?a)"
    let ?m' = "snd ?a" and ?la = "\<lparr>l_consumerId = truthy cid, l_dir = None, l_phase = Minting\<rparr>"
    let ?g = "gw\<lparr>gw_manager := ?m'\<rparr>"
    obtain m1 where m1: "m_nextSession m1 = m_nextSession ?m" "m_store m1 = m_store ?m"
      "m_launches m1 = m_launches ?m @ [(l, ?la)]" "keeps m1 ?m'" using admitted(2) unfolding keeps_but_def by blast
    have t: "tagged ?m'" by (rule tagged_acquire [OF r(2) conjunct1 [OF assms(2)] d])
    have re: "reachable fresh_manager mstep ?m'" by (rule reachable.more [OF r(1) mstep.acquire]) (use assms(2) in blast)
    have launches: "\<exists>la. (k, la) \<in> set (m_launches ?m @ [(l, ?la)]) \<and> l_consumerId la = l_consumerId la'"
      if "(k, la') \<in> set (m_launches ?m')" for k la'
      using that m1(3,4) unfolding keeps_def by metis
    have c: "carries m1 ?m'" by (rule keeps_carries [OF m1(4)])
    have open_ok: "authorised policy q \<and> (\<forall>la. (k, la) \<in> set (m_launches ?m') \<longrightarrow> l_consumerId la = purpose_tag q)"
      if "(k, q) \<in> set (gw_opening gw @ [(l, p)])" for k q
    proof -
      have old: "authorised policy q \<and> (\<forall>la. (k, la) \<in> set (m_launches ?m) \<longrightarrow> l_consumerId la = purpose_tag q) \<and> k \<noteq> l"
        if "(k, q) \<in> set (gw_opening gw)"
        using that assms(1,2) unfolding gw_inv_def by (force simp: image_iff)
      have new: "(l, la) \<notin> set (m_launches ?m)" for la using assms(2) by (force simp: image_iff)
      show ?thesis using that old new assms(3,4) launches [of k] by fastforce
    qed
    have guards_ok: "i < m_nextSession ?m' \<and> guarded_for parse (?g\<lparr>gw_opening := os\<rparr>) i g"
      if "gw_guards gw i = Some g" for i g os
    proof -
      have "i < m_nextSession ?m" "guarded_for parse gw i g" using assms(1) that by (simp_all add: gw_inv_def)
      then show ?thesis using c m1(1,2) unfolding guarded_for_def carries_def by (auto simp: m1)
    qed
    have live_ok: "i < m_nextSession ?m'" if "(i, q) \<in> set (gw_guarding gw) \<union> set (gw_running gw)" for i q
    proof -
      have "i < m_nextSession ?m" using assms(1) that unfolding gw_inv_def by blast
      then show ?thesis using c m1(1) by (simp add: carries_def)
    qed
    have "snd (start_acquire l cid ov th p gw) = ?g\<lparr>gw_opening := gw_opening gw @ [(l, p)]\<rparr>"
      using admitted(1) by (cases ?a) (simp add: start_acquire_def)
    moreover have "gw_inv parse policy (?g\<lparr>gw_opening := gw_opening gw @ [(l, p)]\<rparr>)"
    proof (rule gw_invI)
      show "gw_policy (?g\<lparr>gw_opening := gw_opening gw @ [(l, p)]\<rparr>) = policy" using assms(1) by (simp add: gw_inv_def)
    qed (use t re open_ok guards_ok live_ok in \<open>simp_all del: set_append\<close>)
    ultimately show ?thesis by simp
  qed
qed


lemma identify_cases:
  assumes "gw_policy gw = policy"
  obtains s where "identify now t gw = (Inl (if policy = None then NoPolicy else Unauthenticated), gw\<lparr>gw_trail := s\<rparr>)"
      "\<forall>pe. policy = Some pe \<longrightarrow> resolve (pe_registry pe) t = None"
  | s pe c where "identify now t gw = (Inr c, gw\<lparr>gw_trail := s\<rparr>)" "policy = Some pe" "resolve (pe_registry pe) t = Some c"
proof (cases policy)
  case None
  then have "identify now t gw = (Inl (if policy = None then NoPolicy else Unauthenticated), gw\<lparr>gw_trail := gw_trail gw\<rparr>)"
    using assms by (simp add: identify_def)
  then show ?thesis using that(1) None by blast
next
  case (Some pe)
  show ?thesis
  proof (cases "resolve (pe_registry pe) t")
    case None
    then show ?thesis using that(1) Some assms by (simp add: identify_def authenticate_def)
  next
    case (Some c)
    then show ?thesis using that(2) \<open>policy = Some pe\<close> assms by (simp add: identify_def authenticate_def)
  qed
qed

lemma gw_inv_acquired:
  assumes "gw_inv parse policy gw" "(l, p) \<in> set (gw_opening gw)" "map_of (m_launches (gw_manager gw)) l = Some la"
    "l_phase la = Settled res"
  shows "gw_inv parse policy (snd (acquired parse now l la res p gw))"
proof -
  let ?m = "gw_manager gw" and ?m1 = "acquireFinally l la (gw_manager gw)"
  let ?gw1 = "gw\<lparr>gw_manager := ?m1, gw_opening := filter (\<lambda>q. fst q \<noteq> l) (gw_opening gw)\<rparr>"
  have r: "reachable fresh_manager mstep ?m" "tagged ?m" and pol: "gw_policy gw = policy"
    using assms(1) by (simp_all add: gw_inv_def)
  have k: "keeps ?m ?m1" by (auto simp: keeps_def acquireFinally_def Let_def)
  have g1: "gw_inv parse policy ?gw1"
  proof (rule gw_inv_carry [OF assms(1)])
    show "carries ?m (gw_manager ?gw1)" "tagged (gw_manager ?gw1)"
      using keeps_carries [OF k] tagged_keeps [OF r(2) k] by simp_all
    show "reachable fresh_manager mstep (gw_manager ?gw1)"
      using reachable.more [OF r(1) mstep.finally_ [OF assms(3,4)]] by simp
  qed auto
  show ?thesis
  proof (cases res)
    case (Inl e)
    then show ?thesis using g1 by (simp add: acquired_def Let_def)
  next
    case (Inr i)
    have la: "(l, la) \<in> set (m_launches ?m)" by (rule map_of_SomeD [OF assms(3)])
    have i: "i < m_nextSession ?m1" "s_consumerId (m_store ?m1 i) = purpose_tag p"
      using assms(1,2,4) r(2) la Inr unfolding gw_inv_def tagged_def by (auto simp: acquireFinally_def Let_def)
    have auth: "authorised policy p" using assms(1,2) unfolding gw_inv_def by blast
    define gw2 where "gw2 = (case p of Drive _ _ _ \<Rightarrow> ?gw1 | _ \<Rightarrow> activity_on (Begin now) i ?gw1)"
    have g2: "gw_inv parse policy gw2" "i < m_nextSession (gw_manager gw2)" "gw_policy gw2 = policy"
        "s_consumerId (m_store (gw_manager gw2) i) = purpose_tag p"
      using g1 gw_inv_activity [OF g1, of i "Begin now"] i pol by (cases p; simp add: gw2_def)+
    have run: "gw_inv parse policy (gw2\<lparr>gw_running := gw_running gw2 @ [(i, p)]\<rparr>)"
      using g2(1,2) unfolding gw_inv_def guarded_for_def by auto
    have guard: "gw_inv parse policy (gw2\<lparr>gw_guards := (gw_guards gw2)(i := Some (guard_of parse pe p)),
        gw_guarding := gw_guarding gw2 @ [(i, p)]\<rparr>)" (is "gw_inv parse policy ?gw3") if "policy = Some pe" "p \<noteq> Bare" for pe
    proof (rule gw_invI)
      show "j < m_nextSession (gw_manager ?gw3) \<and> guarded_for parse ?gw3 j g" if "gw_guards ?gw3 j = Some g" for j g
      proof (cases "j = i")
        case True
        then show ?thesis using that \<open>p \<noteq> Bare\<close> \<open>policy = Some pe\<close> g2 auth by (auto simp: guarded_for_def)
      next
        case False
        then show ?thesis using that g2(1) by (auto simp: gw_inv_def guarded_for_def)
      qed
    qed (use g2 in \<open>auto simp: gw_inv_def\<close>)
    have "snd (acquired parse now l la res p gw) =
        (if p = Bare then gw2\<lparr>gw_running := gw_running gw2 @ [(i, p)]\<rparr>
         else case policy of None \<Rightarrow> gw2
              | Some pe \<Rightarrow> if use_core (m_store (gw_manager gw2) i) = None then abandon now p i gw2
                 else gw2\<lparr>gw_guards := (gw_guards gw2)(i := Some (guard_of parse pe p)),
                          gw_guarding := gw_guarding gw2 @ [(i, p)]\<rparr>)"
      unfolding acquired_def Inr Let_def sum.case gw2_def [symmetric] using g2(3) by (simp split: option.split)
    then show ?thesis
      using run guard g2(1) gw_inv_abandon(1) [OF g2(1,2)] by (auto split: option.split)
  qed
qed

lemma gw_inv_guard_settled:
  assumes "gw_inv parse policy gw" "(i, p) \<in> set (gw_guarding gw)"
  shows "gw_inv parse policy (snd (guard_settled now ok i p gw))"
proof -
  let ?gw1 = "gw\<lparr>gw_guarding := remove1 (i, p) (gw_guarding gw)\<rparr>"
  have i: "i < m_nextSession (gw_manager gw)" using assms by (auto simp: gw_inv_def)
  have g1: "gw_inv parse policy ?gw1"
    by (rule gw_inv_same [OF assms(1)]) (auto dest: notin_set_remove1 [THEN contrapos_pp])
  have run: "gw_inv parse policy (?gw1\<lparr>gw_running := gw_running gw @ [(i, p)]\<rparr>)"
    by (rule gw_inv_same [OF assms(1)]) (use assms(2) in \<open>auto dest: notin_set_remove1 [THEN contrapos_pp]\<close>)
  have drive: "gw_inv parse policy (?gw1\<lparr>gw_trail := s, gw_handles := hs\<rparr>)" for s hs
    by (rule gw_inv_same [OF g1]) simp_all
  have ab: "gw_inv parse policy (abandon now p i ?gw1)" by (rule gw_inv_abandon [OF g1]) (use i in simp)
  show ?thesis
  proof (cases ok)
    case True
    then show ?thesis using run drive by (cases p) (simp_all add: guard_settled_def Let_def)
  next
    case False
    then show ?thesis using ab by (simp add: guard_settled_def Let_def)
  qed
qed

lemma gw_inv_step:
  assumes "gstep parse gw e gw'" "gw_inv parse policy gw"
  shows "gw_inv parse policy gw'"
proof -
  have pol: "gw_policy gw = policy" using assms(2) by (simp add: gw_inv_def)
  show ?thesis
  using assms(1)
proof cases
  case (drive l now t ov d th)
  show ?thesis
  proof (rule identify_cases [OF pol, of now t])
    fix s pe c
    assume i: "identify now t gw = (Inr c, gw\<lparr>gw_trail := s\<rparr>)" "policy = Some pe" "resolve (pe_registry pe) t = Some c"
    have "gw_inv parse policy (snd (start_acquire l (Some (c_id c)) ov th (Drive c (map_option snd (ov_restore ov)) d) (gw\<lparr>gw_trail := s\<rparr>)))"
      by (rule gw_inv_start [OF gw_inv_trail [OF assms(2)]]) (use drive(3) i in \<open>auto simp: authorised_def\<close>)
    then show ?thesis using i(1) gw_inv_trail [OF assms(2)] by (simp add: drive(2) openConsumerSession_def started_def)
  qed (simp add: drive(2) openConsumerSession_def gw_inv_trail [OF assms(2)])
next
  case (transient l now t ov th)
  show ?thesis
  proof (rule identify_cases [OF pol, of now t])
    fix s pe c
    assume i: "identify now t gw = (Inr c, gw\<lparr>gw_trail := s\<rparr>)" "policy = Some pe" "resolve (pe_registry pe) t = Some c"
    have "gw_inv parse policy (snd (start_acquire l None ov th (Transient c) (gw\<lparr>gw_trail := s\<rparr>)))"
      by (rule gw_inv_start [OF gw_inv_trail [OF assms(2)]]) (use transient(3) i in \<open>auto simp: authorised_def truthy_def\<close>)
    then show ?thesis using i(1) by (simp add: transient(2) withConsumerSession_def started_def)
  qed (simp add: transient(2) withConsumerSession_def gw_inv_trail [OF assms(2)])
next
  case (bare l ov th)
  then show ?thesis
    using gw_inv_start [OF assms(2), of l Bare None] by (auto simp: withSession_def started_def authorised_def truthy_def)
next
  case (acquired l p la res now)
  then show ?thesis using gw_inv_acquired [OF assms(2)] by blast
next
  case (guarded i p now ok)
  then show ?thesis using gw_inv_guard_settled [OF assms(2)] by blast
next
  case (done_ i p now)
  have i: "i < m_nextSession (gw_manager gw)" using assms(2) done_(3) by (auto simp: gw_inv_def)
  have "gw_inv parse policy (gw\<lparr>gw_running := remove1 (i, p) (gw_running gw)\<rparr>)"
    by (rule gw_inv_same [OF assms(2)]) (auto dest: notin_set_remove1 [THEN contrapos_pp])
  from gw_inv_abandon(2) [OF this] i show ?thesis by (simp add: done_(2) callback_done_def)
next
  case (use now t h)
  have u: "gw_inv parse policy (activity_on (Begin now) h (gw\<lparr>gw_trail := s\<rparr>))" if "owns c h (gw\<lparr>gw_trail := s\<rparr>)" for c s
    by (rule gw_inv_activity [OF gw_inv_trail [OF assms(2)]])
      (use that assms(2) reachable_sessions [of "gw_manager gw" h] in \<open>simp add: owns_def gw_inv_def\<close>)
  show ?thesis
    by (rule identify_cases [OF pol, of now t])
      (use u gw_inv_trail [OF assms(2)] in \<open>simp_all add: use(2) useConsumerSession_def\<close>)
next
  case (used h now)
  then show ?thesis using gw_inv_activity [OF assms(2)] by (simp add: useDone_def)
next
  case (close now t h)
  show ?thesis
    by (rule identify_cases [OF pol, of now t])
      (use gw_inv_trail [OF assms(2)] gw_inv_releasing [OF gw_inv_trail [OF assms(2)]]
        in \<open>simp_all add: close(2) closeConsumerSession_def\<close>)
next
  case (paused now closing i ev)
  show ?thesis
    unfolding paused(2) by (rule gw_inv_same [OF assms(2)]) (simp_all add: paused_def split: prod.splits)
next
  case (env e m')
  then show ?thesis using gw_inv_mstep [OF assms(2)] by blast
qed
qed

lemma tagged_new: "tagged (new_SessionManager mx pc)"
  by (simp add: tagged_def new_SessionManager_def)

lemma gw_inv_init: "fresh_gateway policy gw \<Longrightarrow> gw_inv parse policy gw"
  unfolding fresh_gateway_def new_Gateway_def by (auto simp: gw_inv_def tagged_new intro: reachable.start)

interpretation gateway: inductive_invariant "fresh_gateway policy" "gstep parse" "gw_inv parse policy"
  by unfold_locales (auto intro: gw_inv_init gw_inv_step)


section \<open>Properties\<close>


lemma paused_continue:
  "fst (paused parse now closing i ev gw) = ContinueRequest k \<longleftrightarrow> k = ev_requestId ev \<and> \<not> closing \<and>
     (\<exists>g. gw_guards gw i = Some g \<and>
        fst (g now (cdpRequestToNavigation parse (ev_resourceType ev) (event_url ev)) (gw_trail gw) (Some None)) = Inr AllowNav)"
proof -
  let ?ic = "\<lparr>ic_closing = closing, ic_activeGuard = map_option (\<lambda>g. g now) (gw_guards gw i), ic_lastNavBlock = gw_blocks gw i\<rparr>"
  have "fst (paused parse now closing i ev gw) = fst (onRequestPaused parse ?ic ev (gw_trail gw))"
    by (simp add: paused_def split: prod.split)
  then show ?thesis by (auto simp: continue_allowed)
qed

lemma guard_of_allows:
  assumes "fst (guard_of parse pe p now req s out) = Inr AllowNav" "p \<noteq> Bare"
  shows "isHttpUrl parse (nr_url req) \<and> \<not> pe_egress pe (nr_host req) \<and>
    (\<exists>c. purpose_consumer p = Some c \<and>
      (canonicalizeHost (nr_host req) = ''ipinfo.io'' \<or>
       allows (c_allowlist c) (nr_host req) \<and>
       \<not> (nr_isNavigationRequest req \<and> denies parse (pe_origination pe) (nr_host req) (nr_url req))))"
  using assms
  by (cases p)
    (auto simp: never_throws_fst guardForDiagnostics_allow_iff guardFor_allow_iff guardForCredentialHost_allow_iff
      split: if_splits)

text \<open>C22: no request leaves the gateway around the policy: whatever tokens, handles, opens, redirects, sweeps and
  shutdowns interleave, a request continued on any session is http(s), is not an egress target, and is either
  the diagnostics probe's host or admitted by a rule of a configured consumer, a document load then not being an
  origination route; the session is that consumer's own or untagged.\<close>

theorem gateway_requests_authorised:
  assumes "new_ConsumerRegistry specs = Inr reg"
    and "reachable (fresh_gateway (Some (new_PolicyEngine reg rec None (Some ob)))) (gstep parse) gw"
    and "fst (paused parse now closing i ev gw) = ContinueRequest k"
  shows "let host = hostFromUrl parse (event_url ev) in
    isHttpUrl parse (event_url ev) \<and> \<not> isBlockedEgressHost host \<and>
    (\<exists>spec \<in> set specs. s_consumerId (m_store (gw_manager gw) i) \<in> {None, Some (cs_id spec)} \<and>
      (canonicalizeHost host = ''ipinfo.io'' \<or>
       (\<exists>rule \<in> set (cs_allow spec). rule_allows rule host) \<and>
       \<not> (ev_resourceType ev = Some ''Document'' \<and> denies parse ob host (event_url ev))))"
proof -
  let ?pe = "new_PolicyEngine reg rec None (Some ob)"
  let ?req = "cdpRequestToNavigation parse (ev_resourceType ev) (event_url ev)"
  have inv: "gw_inv parse (Some ?pe) gw" by (rule gateway.always [OF assms(2)])
  obtain g where g: "gw_guards gw i = Some g" "fst (g now ?req (gw_trail gw) (Some None)) = Inr AllowNav"
    using assms(3) unfolding paused_continue by blast
  obtain p where p: "p \<noteq> Bare" "authorised (Some ?pe) p" "g = guard_of parse ?pe p"
      "s_consumerId (m_store (gw_manager gw) i) = purpose_tag p"
    using gw_guardedD [OF inv g(1)] inv by (auto simp: guarded_for_def gw_inv_def)
  obtain c where c: "purpose_consumer p = Some c" and ok: "isHttpUrl parse (event_url ev)"
      "\<not> isBlockedEgressHost (hostFromUrl parse (event_url ev))"
      "canonicalizeHost (hostFromUrl parse (event_url ev)) = ''ipinfo.io'' \<or>
       allows (c_allowlist c) (hostFromUrl parse (event_url ev)) \<and>
       \<not> (ev_resourceType ev = Some ''Document'' \<and> denies parse ob (hostFromUrl parse (event_url ev)) (event_url ev))"
    using guard_of_allows [OF g(2) [unfolded p(3)] p(1)] by (auto simp: cdpRequestToNavigation_def)
  obtain t where "resolve reg t = Some c" using p(2) c by (auto simp: authorised_def)
  then obtain spec where spec: "spec \<in> set specs" "c = consumer_of spec" using resolve_new_registry [OF assms(1)] by blast
  have "s_consumerId (m_store (gw_manager gw) i) \<in> {None, Some (cs_id spec)}"
    using p(4) c spec(2) by (cases p) (auto simp: truthy_def consumer_of_def)
  moreover have "allows (c_allowlist c) h \<longleftrightarrow> (\<exists>rule \<in> set (cs_allow spec). rule_allows rule h)" for h
    by (simp add: spec(2) consumer_of_def new_Allowlist_def allows_foldl)
  ultimately show ?thesis using ok spec(1) unfolding Let_def by blast
qed

text \<open>C23: consumers are isolated from each other: \<open>useConsumerSession\<close> runs the callback only for the consumer
  whose token it is, only on a session of that consumer, and a guard on that session is one made for
  that consumer; any other handle, unknown or another consumer's, is refused with one and the same error, and
  nothing but the audit trail changes.\<close>

theorem handles_isolated:
  assumes "new_ConsumerRegistry specs = Inr reg" "distinct (map cs_id specs)"
    and "reachable (fresh_gateway (Some pe)) (gstep parse) gw" "pe_registry pe = reg"
    and "useConsumerSession now t h gw = (res, gw')"
  shows "case res of
      Inr c \<Rightarrow> (\<exists>spec \<in> set specs. cs_token spec = t \<and> c = consumer_of spec) \<and> owns c h gw \<and>
        (\<forall>g. gw_guards gw h = Some g \<longrightarrow> (\<exists>cred diag. g = guard_of parse pe (Drive c cred diag)))
    | Inl e \<Rightarrow> e = (if resolve reg t = None then Unauthenticated else NoOpenSession) \<and> gw' = gw\<lparr>gw_trail := gw_trail gw'\<rparr>"
proof -
  have inv: "gw_inv parse (Some pe) gw" by (rule gateway.always [OF assms(3)])
  then have pol: "gw_policy gw = Some pe" by (simp add: gw_inv_def)
  show ?thesis
  proof (cases res)
    case (Inl e)
    then show ?thesis
      using assms(4,5) pol
      by (auto simp: useConsumerSession_def identify_def authenticate_def split: option.splits if_splits)
  next
    case (Inr c)
    have c: "resolve reg t = Some c" "owns c h gw"
      using assms(4,5) pol Inr
      by (auto simp: useConsumerSession_def identify_def authenticate_def owns_def split: option.splits if_splits)
    obtain spec where spec: "spec \<in> set specs" "cs_token spec = t" "c = consumer_of spec"
      using c(1) resolve_new_registry [OF assms(1)] by blast
    have "\<exists>cred diag. g = guard_of parse pe (Drive c cred diag)" if g: "gw_guards gw h = Some g" for g
    proof -
      obtain p where p: "authorised (Some pe) p" "g = guard_of parse pe p"
          "s_consumerId (m_store (gw_manager gw) h) = purpose_tag p"
        using gw_guardedD [OF inv g] pol by (auto simp: guarded_for_def)
      have "purpose_tag p = Some (c_id c)" using p(3) c(2) by (simp add: owns_def)
      then obtain d cred diag where d: "p = Drive d cred diag" "c_id d = c_id c"
        by (cases p) (auto simp: truthy_def split: if_splits)
      obtain t' where "resolve reg t' = Some d" using p(1) d(1) assms(4) by (auto simp: authorised_def)
      then obtain spec' where s: "spec' \<in> set specs" "d = consumer_of spec'" using resolve_new_registry [OF assms(1)] by blast
      have "cs_id spec' = cs_id spec" using d(2) s(2) spec(3) by (simp add: consumer_of_def)
      then have "spec' = spec" using assms(2) s(1) spec(1) unfolding distinct_map by (blast dest: inj_onD)
      then have "d = c" using s(2) spec(3) by simp
      then show ?thesis using p(2) d(1) by blast
    qed
    then have "\<forall>g. gw_guards gw h = Some g \<longrightarrow> (\<exists>cred diag. g = guard_of parse pe (Drive c cred diag))" by blast
    then show ?thesis unfolding Inr sum.case using spec c(2) by blast
  qed
qed


section \<open>A run\<close>

text \<open>A credentialed drive session of \<open>agent\<close>, opened, guarded and handed out; the manager's states first.\<close>

definition demo_registry :: registry where
  "demo_registry = [(''tok-1'', consumer_of wide_spec)]"

definition demo_engine :: "memory_sink policy_engine" where
  "demo_engine = new_PolicyEngine demo_registry mem_record None (Some example_boundary)"

definition demo_purpose :: purpose where
  "demo_purpose = Drive (consumer_of wide_spec) (Some ''Shop.Example.'') False"

definition demo_m1 :: manager where
  "demo_m1 = snd (acquire 0 (Some ''agent'') True False (new_SessionManager 2 (Some 1)))"

definition demo_launch :: launch where
  "demo_launch = \<lparr>l_consumerId = Some ''agent'', l_dir = None, l_phase = Settled (Inr 0)\<rparr>"

definition demo_m2 :: manager where
  "demo_m2 = launched 0 True 2 (demo_launch\<lparr>l_phase := Racing\<rparr>) demo_m1"

definition demo_m3 :: manager where
  "demo_m3 = acquireFinally 0 demo_launch demo_m2"

lemma demo_manager:
  "fst (acquire 0 (Some ''agent'') True False (new_SessionManager 2 (Some 1))) = None"
  "m_launches demo_m1 = [(0, demo_launch\<lparr>l_phase := Racing\<rparr>)]" "m_launches demo_m2 = [(0, demo_launch)]"
  "use_core (m_store demo_m3 0) = Some ()" "m_sessions demo_m3 = [0]"
  "s_consumerId (m_store demo_m3 0) = Some ''agent''"
  by code_simp+

definition demo_start :: "memory_sink gateway" where
  "demo_start = new_Gateway DEFAULT_GATEWAY_CONFIG (Some demo_engine) (new_InMemoryAuditSink 0)"

definition demo_gateway :: "memory_sink \<Rightarrow> memory_sink gateway" where
  "demo_gateway s = demo_start\<lparr>gw_manager := demo_m3, gw_trail := s,
     gw_guards := (\<lambda>_. None)(0 := Some (guard_of example_parse demo_engine demo_purpose)),
     gw_guarding := [], gw_handles := [(0, consumer_of wide_spec)]\<rparr>"

lemma demo_fields:
  "gw_policy demo_start = Some demo_engine" "gw_manager demo_start = new_SessionManager 2 (Some 1)"
  "gw_guards demo_start = (\<lambda>_. None)" "gw_opening demo_start = []" "gw_guarding demo_start = []" "gw_handles demo_start = []"
  "resolve (pe_registry demo_engine) ''tok-1'' = Some (consumer_of wide_spec)" "c_id (consumer_of wide_spec) = ''agent''"
  by (simp_all add: demo_start_def new_Gateway_def DEFAULT_GATEWAY_CONFIG_def demo_engine_def demo_registry_def resolve_def
      wide_spec_def consumer_of_def)

lemma demo_reachable: obtains s where "reachable (fresh_gateway (Some demo_engine)) (gstep example_parse) (demo_gateway s)"
proof -
  let ?R = "reachable (fresh_gateway (Some demo_engine)) (gstep example_parse)"
  let ?ov = "\<lparr>ov_restore = Some (True, ''Shop.Example.''), ov_userDataDir = True\<rparr>"
  have r0: "?R demo_start" by (rule reachable.start) (auto simp: fresh_gateway_def demo_start_def)
  obtain s1 where i: "identify 1 ''tok-1'' demo_start = (Inr (consumer_of wide_spec), demo_start\<lparr>gw_trail := s1\<rparr>)"
    by (rule identify_cases [OF demo_fields(1), of 1 "''tok-1''"]) (auto simp: demo_fields)
  obtain m where a: "acquire 0 (Some ''agent'') True False (new_SessionManager 2 (Some 1)) = (None, m)" "m = demo_m1"
    using demo_manager(1) by (metis demo_m1_def surjective_pairing)
  let ?g1 = "demo_start\<lparr>gw_trail := s1, gw_manager := demo_m1, gw_opening := [(0, demo_purpose)]\<rparr>"
  have "snd (openConsumerSession 1 0 ''tok-1'' ?ov False False demo_start) = ?g1"
    by (simp add: openConsumerSession_def i started_def start_acquire_def demo_fields a demo_purpose_def del: One_nat_def)
  moreover have "fresh_launch 0 demo_start" by (simp add: demo_fields new_SessionManager_def)
  then have "gstep example_parse demo_start (OpenDrive 1 0 ''tok-1'' ?ov False False)
      (snd (openConsumerSession 1 0 ''tok-1'' ?ov False False demo_start))" by (rule gstep.drive)
  ultimately have "?R ?g1" using reachable.more [OF r0] by simp
  moreover have "gstep example_parse ?g1 (Env (Launched 0 True 2)) (?g1\<lparr>gw_manager := demo_m2\<rparr>)"
    by (rule gstep.env) (use mstep.launched [of demo_m1 0 "demo_launch\<lparr>l_phase := Racing\<rparr>" True 2]
      in \<open>simp_all add: gateway_owned_def demo_manager demo_m2_def\<close>)
  ultimately have r2: "?R (?g1\<lparr>gw_manager := demo_m2\<rparr>)" by (rule reachable.more)
  let ?g3 = "demo_start\<lparr>gw_trail := s1, gw_manager := demo_m3,
    gw_guards := (\<lambda>_. None)(0 := Some (guard_of example_parse demo_engine demo_purpose)), gw_guarding := [(0, demo_purpose)]\<rparr>"
  have "snd (acquired example_parse 3 0 demo_launch (Inr 0) demo_purpose (?g1\<lparr>gw_manager := demo_m2\<rparr>)) = ?g3"
    by (simp add: acquired_def demo_fields demo_m3_def [symmetric] demo_manager demo_purpose_def)
  then have "gstep example_parse (?g1\<lparr>gw_manager := demo_m2\<rparr>) (Acquired 3 0) ?g3"
    using gstep.acquired [of 0 demo_purpose "?g1\<lparr>gw_manager := demo_m2\<rparr>" demo_launch "Inr 0" example_parse 3]
    by (simp add: demo_manager) (simp add: demo_launch_def)
  with r2 have r3: "?R ?g3" by (rule reachable.more)
  let ?s2 = "pe_record demo_engine (session_open_record 4 (consumer_of wide_spec) ''Shop.Example.'') s1"
  have "snd (guard_settled 4 True 0 demo_purpose ?g3) = demo_gateway ?s2"
    by (rule gateway.equality)
      (simp_all add: guard_settled_def demo_purpose_def demo_fields demo_gateway_def js_truthy_def)
  moreover have "gstep example_parse ?g3 (GuardSettled 4 True 0 demo_purpose) (snd (guard_settled 4 True 0 demo_purpose ?g3))"
    by (rule gstep.guarded) simp
  ultimately have "gstep example_parse ?g3 (GuardSettled 4 True 0 demo_purpose) (demo_gateway ?s2)" by simp
  with r3 have "?R (demo_gateway ?s2)" by (rule reachable.more)
  with that show ?thesis .
qed

lemma demo_registered: "new_ConsumerRegistry [wide_spec] = Inr demo_registry"
  by (simp add: new_ConsumerRegistry_def registry_add_def demo_registry_def wide_spec_def)


theorem gateway_requests_authorised_witness:
  "\<exists>gw :: memory_sink gateway. fst (paused example_parse 5 False 0 (document_event 7 ''u'') gw) = ContinueRequest 7 \<and>
     \<not> isBlockedEgressHost (hostFromUrl example_parse ''u'')"
proof -
  obtain s where r: "reachable (fresh_gateway (Some demo_engine)) (gstep example_parse) (demo_gateway s)"
    by (rule demo_reachable)
  have h: "hostFromUrl example_parse ''u'' = ''shop.example''" "isHttpUrl example_parse ''u''"
    "\<not> isBlockedEgressHost ''shop.example''" "\<not> denies example_parse example_boundary ''shop.example'' ''u''"
    "allows (c_allowlist (consumer_of wide_spec)) ''shop.example''"
    "canonicalizeHost ''shop.example'' = canonicalizeHost ''Shop.Example.''" by code_simp+
  have e: "pe_egress demo_engine = isBlockedEgressHost" "pe_origination demo_engine = example_boundary"
    by (simp_all add: demo_engine_def)
  have "fst (guard_of example_parse demo_engine demo_purpose 5 (cdpRequestToNavigation example_parse (Some ''Document'') ''u'') s out)
      = Inr AllowNav" for s out
    using h by (simp add: demo_purpose_def js_truthy_def never_throws_fst guardForCredentialHost_allow_iff guardFor_allow_iff
        cdpRequestToNavigation_def e)
  then have c: "fst (paused example_parse 5 False 0 (document_event 7 ''u'') (demo_gateway s)) = ContinueRequest 7"
    by (simp add: paused_continue demo_gateway_def document_event_def event_url_def)
  have u: "event_url (document_event 7 ''u'') = ''u''" by (simp add: event_url_def document_event_def)
  show ?thesis
    using gateway_requests_authorised [OF demo_registered r [unfolded demo_engine_def] c] c by (auto simp: u Let_def)
qed

theorem handles_isolated_witness:
  "\<exists>(gw :: memory_sink gateway) gw'. useConsumerSession 6 ''tok-1'' 0 gw = (Inr (consumer_of wide_spec), gw') \<and> owns (consumer_of wide_spec) 0 gw"
proof -
  obtain s where r: "reachable (fresh_gateway (Some demo_engine)) (gstep example_parse) (demo_gateway s)"
    by (rule demo_reachable)
  have p: "gw_policy (demo_gateway s) = Some demo_engine" by (simp add: demo_gateway_def demo_fields)
  obtain s' where "identify 6 ''tok-1'' (demo_gateway s) = (Inr (consumer_of wide_spec), demo_gateway s\<lparr>gw_trail := s'\<rparr>)"
    by (rule identify_cases [OF p, of 6 "''tok-1''"]) (auto simp: demo_fields)
  then obtain gw' where u: "useConsumerSession 6 ''tok-1'' 0 (demo_gateway s) = (Inr (consumer_of wide_spec), gw')"
    by (simp add: useConsumerSession_def owns_def demo_gateway_def demo_manager demo_fields)
  have g: "pe_registry demo_engine = demo_registry" by (simp add: demo_engine_def)
  from handles_isolated [OF demo_registered _ r g u] have "owns (consumer_of wide_spec) 0 (demo_gateway s)" by simp
  with u show ?thesis by blast
qed

end
