(* ===== verification/Artifact_Store.thy ===== *)
theory Artifact_Store
  imports Prelude Transition "HOL-Library.Word"
begin

text \<open>
  The artifact store (\<open>src/artifacts/store.ts\<close>): quarantined PDF downloads, captured under a quota and
  handed out once each, under one global response permit. Every method is cut at its awaits. What the
  operating system answers (readings, unlinks, fsyncs) is an argument of the step that asks; the state
  keeps, beside the fields of the class, the continuations in flight and the set of names the store
  created in its data directory and has not since found gone. The promises of waiting callers are
  tokens, and so are the objects whose identity the code compares. A re-entrant call from the
  \<open>onDiscard\<close> observer is a later step.
\<close>

type_synonym octets = "8 word list"

section \<open>Data\<close>

datatype artifact_code =
    CaptureFailedCode | SettleTimeout | LifecycleRace | MultipleArtifacts | InlinePdfUnsupported
  | SizeLimit | NotPdf | WriteFailed | IntegrityFailed | FilesystemUnsupported | TransportUnsupported
  | Capacity | Expired | NotFound | OwnerMismatch | RateLimited | ResponseTimedOut | CleanupFailed | RuntimeInvalidated
  | RootLocked | RootInvalid | ConfigInvalid
  | InvalidArtifactId | StoreUnavailable   \<comment> \<open>of \<open>ArtifactStoreErrorCode\<close> only\<close>

datatype discard_result = Clean | Refused | Failed

definition MAX_ARTIFACT_BYTES :: nat where
  "MAX_ARTIFACT_BYTES = 8 * 1024 * 1024"

definition PDF_MAGIC :: octets where
  "PDF_MAGIC = [0x25, 0x50, 0x44, 0x46, 0x2D]"

definition RESPONSE_LEASE_MS :: int where
  "RESPONSE_LEASE_MS = 15000"

definition MAX_STAGE_COPIES :: nat where
  "MAX_STAGE_COPIES = 2"

definition id_char :: "char \<Rightarrow> bool" where
  "id_char c \<longleftrightarrow> is_upper c \<or> is_lower c \<or> is_digit c \<or> c = CHR ''_'' \<or> c = CHR ''-''"

definition ARTIFACT_ID :: "string \<Rightarrow> bool" where
  "ARTIFACT_ID s \<longleftrightarrow> 22 \<le> length s \<and> length s \<le> 64 \<and> list_all id_char s"

record file_stat =
  st_isFile :: bool
  st_size :: nat
  st_uid :: nat
  st_mode :: nat
  st_dev :: nat
  st_ino :: nat

record dir_identity =
  di_dev :: nat
  di_ino :: nat
  di_uid :: nat
  di_mode :: nat
  di_directory :: bool

record store_config =
  cf_enabled :: bool
  cf_uid :: nat                 \<comment> \<open>\<open>process.getuid()\<close>\<close>
  cf_ttlMs :: int
  cf_maxBytes :: int            \<comment> \<open>a fractional limit is met exactly when its floor is\<close>
  cf_maxCount :: int
  cf_perConsumerBytes :: int
  cf_perConsumerCount :: int
  cf_root :: dir_identity       \<comment> \<open>recorded when the store was constructed\<close>
  cf_data :: dir_identity

record stored_record =
  sr_consumerId :: string
  sr_bytes :: nat
  sr_sha256 :: string
  sr_createdAt :: int
  sr_expiresAt :: int
  sr_consuming :: bool
  sr_dev :: nat
  sr_ino :: nat

record reservation =
  rv_token :: nat               \<comment> \<open>the identity of the object\<close>
  rv_consumerId :: string
  rv_bytes :: nat
  rv_staging :: bool

datatype suffix = Part | Pdf

type_synonym data_name = "string \<times> suffix"

text \<open>A capture between two of its awaits, and a response lease with the flags its closures share.\<close>

datatype capture_phase = Staged | Linked

record capture =
  cp_id :: string
  cp_consumerId :: string
  cp_ttlMs :: "int option"
  cp_token :: nat
  cp_phase :: capture_phase
  cp_bytes :: octets
  cp_sha256 :: string
  cp_dev :: nat
  cp_ino :: nat

record lease =
  le_id :: string
  le_record :: stored_record
  le_buffer :: octets
  le_deadline :: int
  le_done :: bool
  le_claimed :: bool

datatype store_step = DeleteFiles | FsyncData | CloseDataFd | RemoveData | RemoveDiagnostic | RemoveLock | FsyncRoot | CloseRootFd

record artifact_store =
  as_cfg :: store_config
  as_closeRequested :: bool
  as_unhealthy :: bool
  as_disposed :: bool
  as_teardownStarted :: bool
  as_identityLost :: bool
  as_rootOpen :: bool
  as_dataOpen :: bool
  as_locked :: bool                               \<comment> \<open>the lock directory this store made is there\<close>
  as_closeResult :: "artifact_code option option" \<comment> \<open>what the close promise resolved to\<close>
  as_activeCaptures :: int
  as_inflight :: "string set"
  as_discardedInflight :: "string set"
  as_records :: "(string \<times> stored_record) list"
  as_timers :: "(string \<times> nat) list"             \<comment> \<open>artifact id, lease\<close>
  as_cleanupTimer :: bool
  as_reservations :: "(string \<times> reservation) list"
  as_consumerLedger :: "string \<Rightarrow> (int \<times> int) option"
  as_ledgerCount :: int
  as_ledgerBytes :: int
  as_stagePermits :: int
  as_responseBusy :: bool
  as_responseHolder :: "nat option"
  as_responseId :: "string option"
  as_responseBytes :: nat
  as_responseSettle :: "nat option"               \<comment> \<open>the lease whose closure it is\<close>
  as_responseWaiters :: "nat list"
  as_next :: nat
  as_captures :: "capture list"
  as_waiting :: "(nat \<times> string \<times> string) list"   \<comment> \<open>callers awaiting the permit\<close>
  as_woken :: "(nat \<times> bool) list"                 \<comment> \<open>their promises that have been resolved\<close>
  as_leases :: "(nat \<times> lease) list"
  as_notified :: "(string \<times> bool) list"           \<comment> \<open>\<open>onDiscard(id, closeOwned)\<close>\<close>
  as_disk :: "data_name set"

text \<open>Answers of the operating system.\<close>

datatype dir_target = Root | Data

datatype dir_source = Descriptor | Path

datatype unlink_answer = Unlinked | Enoent | UnlinkError

record fs_answers =
  fa_identity :: "dir_target \<Rightarrow> dir_source \<Rightarrow> dir_identity option"
  fa_unlink :: "data_name \<Rightarrow> unlink_answer"
  fa_fsync :: bool

record source_file =
  so_open :: "(bool \<times> nat) option"  \<comment> \<open>regular file, size; \<open>None\<close>: the open throws\<close>
  so_content :: octets
  so_end :: "nat option"

record close_answers =
  ca_fs :: "string \<Rightarrow> fs_answers"    \<comment> \<open>while one record is swept\<close>
  ca_identity :: "dir_target \<Rightarrow> dir_source \<Rightarrow> dir_identity option"
  ca_entries :: "data_name list option"
  ca_sweep :: fs_answers
  ca_fails :: "store_step \<Rightarrow> bool"
  ca_lockOwned :: bool              \<comment> \<open>\<open>#lockHeld() && #diagnosticOwned()\<close>\<close>
  ca_restored :: bool

section \<open>Proofs from descriptors\<close>

definition provenFileStat :: "nat \<Rightarrow> file_stat \<Rightarrow> nat \<Rightarrow> bool" where
  \<comment> \<open>\<open>mode & 0o7777\<close> is the residue modulo \<open>0o10000\<close>\<close>
  "provenFileStat uid reading n \<longleftrightarrow>
     st_isFile reading \<and> n \<le> MAX_ARTIFACT_BYTES \<and> st_size reading = n \<and> st_uid reading = uid \<and>
     st_mode reading mod 0x1000 = 0x180"

definition provenRecordFile :: "nat \<Rightarrow> file_stat \<Rightarrow> stored_record \<Rightarrow> bool" where
  "provenRecordFile uid reading rec \<longleftrightarrow>
     provenFileStat uid reading (sr_bytes rec) \<and> st_dev reading = sr_dev rec \<and> st_ino reading = sr_ino rec"

definition proveLinked :: "nat \<Rightarrow> file_stat option \<Rightarrow> nat \<Rightarrow> nat \<Rightarrow> nat \<Rightarrow> bool" where
  \<comment> \<open>the open of the published name, then its \<open>fstat\<close>; \<open>None\<close>: one of them throws\<close>
  "proveLinked uid reading n dev ino \<longleftrightarrow>
     (case reading of None \<Rightarrow> False
      | Some st \<Rightarrow> provenFileStat uid st n \<and> st_dev st = dev \<and> st_ino st = ino)"

definition privateDirectory :: "nat \<Rightarrow> dir_identity \<Rightarrow> bool" where
  "privateDirectory uid d \<longleftrightarrow> di_directory d \<and> di_uid d = uid \<and> di_mode d = 0x1C0"

definition sameDirectory :: "dir_identity \<Rightarrow> dir_identity \<Rightarrow> bool" where
  "sameDirectory a b \<longleftrightarrow>
     di_dev a = di_dev b \<and> di_ino a = di_ino b \<and> di_uid a = di_uid b \<and> di_mode a = di_mode b \<and>
     di_directory a = di_directory b"

definition recorded_identity :: "store_config \<Rightarrow> dir_target \<Rightarrow> dir_identity" where
  "recorded_identity cfg t = (case t of Root \<Rightarrow> cf_root cfg | Data \<Rightarrow> cf_data cfg)"

definition identityHolds :: "store_config \<Rightarrow> (dir_target \<Rightarrow> dir_source \<Rightarrow> dir_identity option) \<Rightarrow> bool" where
  \<comment> \<open>a reading that throws makes the caller's \<open>catch\<close> answer \<open>false\<close>\<close>
  "identityHolds cfg readIdentity \<longleftrightarrow>
     list_all (\<lambda>t. privateDirectory (cf_uid cfg) (recorded_identity cfg t) \<and>
       list_all (\<lambda>src. case readIdentity t src of None \<Rightarrow> False
                       | Some current \<Rightarrow> privateDirectory (cf_uid cfg) current \<and>
                                          sameDirectory current (recorded_identity cfg t))
         [Descriptor, Path]) [Root, Data]"

section \<open>The response permit\<close>

definition finish_lease :: "nat \<Rightarrow> artifact_store \<Rightarrow> artifact_store" where
  \<comment> \<open>\<open>done = true\<close> in the closures of one lease\<close>
  "finish_lease tok s = s\<lparr>as_leases := map (\<lambda>(k, l). (k, if k = tok then l\<lparr>le_done := True\<rparr> else l)) (as_leases s)\<rparr>"

fun wake_next :: "bool \<Rightarrow> nat list \<Rightarrow> nat list \<times> (nat \<times> bool) list \<times> bool" where
  \<comment> \<open>the loop over the queue: what is left of it, the promises resolved, whether the permit was handed on\<close>
  "wake_next closing [] = ([], [], False)"
| "wake_next closing (w # ws) =
     (if closing then (case wake_next closing ws of (q, r, busy) \<Rightarrow> (q, (w, False) # r, busy))
      else (ws, [(w, True)], True))"

definition releaseResponse :: "artifact_store \<Rightarrow> artifact_store" where
  "releaseResponse s =
     (case wake_next (as_closeRequested s \<or> as_unhealthy s) (as_responseWaiters s) of
        (q, r, busy) \<Rightarrow>
          s\<lparr>as_responseBytes := 0, as_responseWaiters := q, as_woken := as_woken s @ r, as_responseBusy := busy\<rparr>)"

definition yieldPermit :: "nat \<Rightarrow> artifact_store \<Rightarrow> artifact_store" where
  "yieldPermit tok s =
     (if as_responseHolder s \<noteq> Some tok then s
      else releaseResponse (s\<lparr>as_responseHolder := None, as_responseId := None, as_responseSettle := None\<rparr>))"

definition run_settle :: "nat option \<Rightarrow> artifact_store \<Rightarrow> artifact_store" where
  \<comment> \<open>calling the captured \<open>#responseSettle\<close>\<close>
  "run_settle settle s = (case settle of None \<Rightarrow> s | Some tok \<Rightarrow> yieldPermit tok (finish_lease tok s))"

definition settleResponses :: "artifact_store \<Rightarrow> artifact_store" where
  "settleResponses s =
     (let s1 = run_settle (as_responseSettle s) (s\<lparr>as_responseSettle := None\<rparr>)
      in s1\<lparr>as_responseHolder := None, as_responseId := None, as_responseBytes := 0,
            as_woken := as_woken s1 @ map (\<lambda>w. (w, False)) (as_responseWaiters s1),
            as_responseWaiters := [], as_responseBusy := False\<rparr>)"

definition detachResponseSettle :: "string \<Rightarrow> artifact_store \<Rightarrow> artifact_store" where
  "detachResponseSettle i s = (if as_responseId s = Some i then s\<lparr>as_responseSettle := None\<rparr> else s)"

definition clearTimer :: "string \<Rightarrow> artifact_store \<Rightarrow> artifact_store" where
  "clearTimer i s = s\<lparr>as_timers := alist_del i (as_timers s)\<rparr>"

definition cancelTimers :: "artifact_store \<Rightarrow> artifact_store" where
  "cancelTimers s = s\<lparr>as_cleanupTimer := False, as_timers := []\<rparr>"

definition markUnhealthy :: "artifact_store \<Rightarrow> artifact_store" where
  "markUnhealthy s = settleResponses (cancelTimers (s\<lparr>as_unhealthy := True\<rparr>))"

definition identityProven ::
  "(dir_target \<Rightarrow> dir_source \<Rightarrow> dir_identity option) \<Rightarrow> artifact_store \<Rightarrow> bool \<times> artifact_store" where
  "identityProven readIdentity s =
     (if as_identityLost s then (False, s)
      else if \<not> cf_enabled (as_cfg s) then (True, s)
      else if as_rootOpen s \<and> as_dataOpen s \<and> identityHolds (as_cfg s) readIdentity then (True, s)
      else (False, markUnhealthy (s\<lparr>as_identityLost := True\<rparr>)))"

section \<open>Accounting\<close>

definition reserve :: "string \<Rightarrow> string \<Rightarrow> artifact_store \<Rightarrow> nat option \<times> artifact_store" where
  "reserve i cid s =
     (let cfg = as_cfg s;
          (n, b) = (case as_consumerLedger s cid of None \<Rightarrow> (0, 0) | Some c \<Rightarrow> c);
          big = int MAX_ARTIFACT_BYTES
      in if map_of (as_reservations s) i \<noteq> None \<or> as_stagePermits s \<ge> int MAX_STAGE_COPIES then (None, s)
         else if as_ledgerCount s + 1 > cf_maxCount cfg \<or> n + 1 > cf_perConsumerCount cfg then (None, s)
         else if as_ledgerBytes s + big > cf_maxBytes cfg \<or> b + big > cf_perConsumerBytes cfg then (None, s)
         else (Some (as_next s),
               s\<lparr>as_next := as_next s + 1,
                 as_reservations := alist_put i
                   \<lparr>rv_token = as_next s, rv_consumerId = cid, rv_bytes = MAX_ARTIFACT_BYTES, rv_staging = True\<rparr>
                   (as_reservations s),
                 as_ledgerCount := as_ledgerCount s + 1, as_ledgerBytes := as_ledgerBytes s + big,
                 as_consumerLedger := (as_consumerLedger s)(cid := Some (n + 1, b + big)),
                 as_stagePermits := as_stagePermits s + 1\<rparr>))"

definition reserved :: "string \<Rightarrow> nat \<Rightarrow> artifact_store \<Rightarrow> reservation option" where
  \<comment> \<open>the object a capture holds, while the ledger still lists it; an object leaves the ledger exactly when
    \<open>released\<close> is set\<close>
  "reserved i tok s =
     (case map_of (as_reservations s) i of None \<Rightarrow> None
      | Some rv \<Rightarrow> if rv_token rv = tok then Some rv else None)"

definition shrinkReservation :: "string \<Rightarrow> nat \<Rightarrow> nat \<Rightarrow> artifact_store \<Rightarrow> artifact_store" where
  "shrinkReservation i tok n s =
     (case reserved i tok s of None \<Rightarrow> s
      | Some rv \<Rightarrow>
        if n \<ge> rv_bytes rv then s
        else (let freed = int (rv_bytes rv) - int n; cid = rv_consumerId rv
              in s\<lparr>as_reservations := alist_put i (rv\<lparr>rv_bytes := n\<rparr>) (as_reservations s),
                   as_ledgerBytes := as_ledgerBytes s - freed,
                   as_consumerLedger :=
                     (case as_consumerLedger s cid of None \<Rightarrow> as_consumerLedger s
                      | Some (c, b) \<Rightarrow> (as_consumerLedger s)(cid := Some (c, b - freed)))\<rparr>))"

definition releaseStage :: "string \<Rightarrow> nat \<Rightarrow> artifact_store \<Rightarrow> artifact_store" where
  "releaseStage i tok s =
     (case reserved i tok s of None \<Rightarrow> s
      | Some rv \<Rightarrow>
        if \<not> rv_staging rv then s
        else s\<lparr>as_reservations := alist_put i (rv\<lparr>rv_staging := False\<rparr>) (as_reservations s),
               as_stagePermits := as_stagePermits s - 1\<rparr>)"

definition releaseReservation :: "string \<Rightarrow> nat \<Rightarrow> artifact_store \<Rightarrow> artifact_store" where
  "releaseReservation i tok s =
     (case reserved i tok s of None \<Rightarrow> s
      | Some rv \<Rightarrow>
        (let cid = rv_consumerId rv
         in s\<lparr>as_reservations := alist_del i (as_reservations s),
              as_ledgerCount := as_ledgerCount s - 1, as_ledgerBytes := as_ledgerBytes s - int (rv_bytes rv),
              as_consumerLedger :=
                (case as_consumerLedger s cid of None \<Rightarrow> as_consumerLedger s
                 | Some (c, b) \<Rightarrow>
                   (as_consumerLedger s)(cid :=
                     (if c - 1 = 0 \<and> b - int (rv_bytes rv) = 0 then None else Some (c - 1, b - int (rv_bytes rv)))))\<rparr>))"

section \<open>Deleting\<close>

definition unlink_name :: "fs_answers \<Rightarrow> data_name \<Rightarrow> bool \<times> bool \<times> artifact_store \<Rightarrow> bool \<times> bool \<times> artifact_store" where
  "unlink_name fa n acc =
     (case acc of (ok, changed, s) \<Rightarrow>
        (case fa_unlink fa n of
           Unlinked \<Rightarrow> (ok, True, s\<lparr>as_disk := as_disk s - {n}\<rparr>)
         | Enoent \<Rightarrow> (ok, changed, s\<lparr>as_disk := as_disk s - {n}\<rparr>)
         | UnlinkError \<Rightarrow> (False, changed, s)))"

definition strictDelete :: "fs_answers \<Rightarrow> data_name list \<Rightarrow> artifact_store \<Rightarrow> bool \<times> artifact_store" where
  "strictDelete fa names s =
     (if as_identityLost s then (False, s)
      else (case fold (unlink_name fa) names (True, False, s) of
              (ok, changed, s') \<Rightarrow> (ok \<and> (changed \<longrightarrow> as_dataOpen s' \<and> fa_fsync fa), s')))"

definition deletePhysical :: "fs_answers \<Rightarrow> string \<Rightarrow> artifact_store \<Rightarrow> (bool \<times> bool) option \<times> artifact_store" where
  \<comment> \<open>\<open>existed\<close> and \<open>newlyDiscardedInflight\<close>\<close>
  "deletePhysical fa i s0 =
     (let s1 = clearTimer i s0;
          s2 = (if as_responseId s1 = Some i
                then run_settle (as_responseSettle s1) (s1\<lparr>as_responseSettle := None\<rparr>) else s1)
      in case identityProven (fa_identity fa) s2 of
           (False, s3) \<Rightarrow> (None, s3)
         | (True, s3) \<Rightarrow>
           (let existed = (map_of (as_records s3) i \<noteq> None);
                newly = (i \<in> as_inflight s3 \<and> i \<notin> as_discardedInflight s3)
            in case strictDelete fa [(i, Pdf), (i, Part)] s3 of
                 (False, s4) \<Rightarrow> (None, markUnhealthy s4)
               | (True, s4) \<Rightarrow> (Some (existed, newly), s4)))"

definition releaseDiscarded :: "string \<Rightarrow> bool \<times> bool \<Rightarrow> bool \<Rightarrow> artifact_store \<Rightarrow> artifact_store" where
  "releaseDiscarded i deleted closeOwned s =
     (let (existed, newly) = deleted;
          s1 = (if existed then s\<lparr>as_records := alist_del i (as_records s)\<rparr> else s);
          s2 = (if newly then s1\<lparr>as_discardedInflight := insert i (as_discardedInflight s1)\<rparr> else s1);
          s3 = (if existed \<or> newly then s2\<lparr>as_notified := as_notified s2 @ [(i, closeOwned)]\<rparr> else s2)
      in case map_of (as_reservations s3) i of
           None \<Rightarrow> s3
         | Some rv \<Rightarrow> if rv_staging rv then s3 else releaseReservation i (rv_token rv) s3)"

definition discardOwned :: "fs_answers \<Rightarrow> string \<Rightarrow> artifact_store \<Rightarrow> bool \<times> artifact_store" where
  "discardOwned fa i s =
     (case deletePhysical fa i s of
        (None, s') \<Rightarrow> (False, s')
      | (Some deleted, s') \<Rightarrow> (True, releaseDiscarded i deleted False s'))"

definition discardArtifactDetailed ::
  "fs_answers \<Rightarrow> string \<Rightarrow> artifact_store \<Rightarrow> (artifact_code + discard_result) \<times> artifact_store" where
  "discardArtifactDetailed fa i s =
     (if \<not> ARTIFACT_ID i then (Inl InvalidArtifactId, s)
      else if \<not> cf_enabled (as_cfg s) then (Inr Clean, s)
      else if as_closeRequested s \<or> as_disposed s then (Inr Refused, s)
      else if as_unhealthy s then (Inr Failed, s)
      else if (case map_of (as_records s) i of None \<Rightarrow> False | Some rec \<Rightarrow> sr_consuming rec)
        then (Inr Refused, s)
      else (case discardOwned fa i s of (ok, s') \<Rightarrow> (Inr (if ok then Clean else Failed), s')))"

definition reapExpired :: "int \<Rightarrow> (string \<Rightarrow> fs_answers) \<Rightarrow> artifact_store \<Rightarrow> artifact_store" where
  "reapExpired now fa s =
     fold (\<lambda>(i, rec) t. if now \<ge> sr_expiresAt rec then snd (discardArtifactDetailed (fa i) i t) else t)
       (as_records s) s"

definition runCleanupPass :: "int \<Rightarrow> (string \<Rightarrow> fs_answers) \<Rightarrow> artifact_store \<Rightarrow> artifact_store" where
  \<comment> \<open>the timer's callback: it has fired, and is armed again unless the pass closed or poisoned the store\<close>
  "runCleanupPass now fa s0 =
     (let s = s0\<lparr>as_cleanupTimer := False\<rparr>
      in if as_closeRequested s \<or> as_unhealthy s \<or> \<not> cf_enabled (as_cfg s) then s
         else (let s1 = reapExpired now fa s
               in if as_closeRequested s1 \<or> as_unhealthy s1 then s1 else s1\<lparr>as_cleanupTimer := True\<rparr>))"

section \<open>Closing\<close>

definition closeDescriptors :: "artifact_store \<Rightarrow> artifact_store" where
  "closeDescriptors s = s\<lparr>as_dataOpen := False, as_rootOpen := False, as_disposed := True\<rparr>"

definition resolve_close :: "artifact_code option \<Rightarrow> artifact_store \<Rightarrow> artifact_store" where
  "resolve_close res s = (if as_closeResult s = None then s\<lparr>as_closeResult := Some res\<rparr> else s)"

definition store_teardown :: "close_answers \<Rightarrow> artifact_store \<Rightarrow> bool \<times> artifact_store" where
  \<comment> \<open>\<open>rmdir\<close> refuses a directory that is not empty\<close>
  "store_teardown ca s0 =
     (if ca_fails ca CloseDataFd then (False, s0)
      else (let s = s0\<lparr>as_dataOpen := False\<rparr>
            in if ca_fails ca RemoveData \<or> as_disk s \<noteq> {} then (False, s)
               else if \<not> ca_lockOwned ca \<or> ca_fails ca RemoveDiagnostic \<or> ca_fails ca RemoveLock then (False, s)
               else if ca_fails ca FsyncRoot then (False, s\<lparr>as_locked := ca_restored ca\<rparr>)
               else if ca_fails ca CloseRootFd then (False, s\<lparr>as_locked := False\<rparr>)
               else (True, s\<lparr>as_locked := False, as_rootOpen := False\<rparr>)))"

fun sweep_records ::
  "(string \<Rightarrow> fs_answers) \<Rightarrow> string list \<Rightarrow> artifact_store \<Rightarrow> bool \<times> (string \<times> bool \<times> bool) list \<times> artifact_store" where
  \<comment> \<open>\<open>recordsClean\<close> and \<open>swept\<close>\<close>
  "sweep_records fa [] s = (True, [], s)"
| "sweep_records fa (i # is) s =
     (case deletePhysical (fa i) i s of
        (None, s1) \<Rightarrow> (case sweep_records fa is s1 of (_, swept, s2) \<Rightarrow> (False, swept, s2))
      | (Some d, s1) \<Rightarrow> (case sweep_records fa is s1 of (ok, swept, s2) \<Rightarrow> (ok, (i, d) # swept, s2)))"

definition finishClose :: "close_answers \<Rightarrow> artifact_store \<Rightarrow> artifact_store" where
  "finishClose ca s0 =
     (if \<not> as_closeRequested s0 \<or> as_activeCaptures s0 \<noteq> 0 \<or> as_disposed s0 \<or> as_teardownStarted s0 then s0
      else (case identityProven (ca_identity ca) (s0\<lparr>as_teardownStarted := True\<rparr>) of
        (False, s1) \<Rightarrow> resolve_close (Some CleanupFailed) (closeDescriptors s1)
      | (True, s1) \<Rightarrow>
        (case sweep_records (ca_fs ca) (map fst (as_records s1)) s1 of
           (recordsClean, swept, s2) \<Rightarrow>
           (let failed = (\<lambda>s. resolve_close (Some CleanupFailed) (closeDescriptors (markUnhealthy s)))
            in case ca_entries ca of
                 None \<Rightarrow> failed s2
               | Some names \<Rightarrow>
                 (case (if ca_fails ca DeleteFiles then (False, s2) else strictDelete (ca_sweep ca) names s2) of
                    (clean, s3) \<Rightarrow>
                    if \<not> (recordsClean \<and> clean) then failed s3
                    else if ca_fails ca FsyncData \<or> \<not> as_dataOpen s3 then failed s3
                    else (case store_teardown ca s3 of
                            (False, s4) \<Rightarrow> failed s4
                          | (True, s4) \<Rightarrow>
                            resolve_close None (closeDescriptors
                              (fold (\<lambda>(i, d). releaseDiscarded i d True) swept s4))))))))"

definition close_store :: "close_answers \<Rightarrow> artifact_store \<Rightarrow> artifact_store" where
  \<comment> \<open>\<open>closeRequested\<close> is set in the turn that publishes the promise; a disabled store only publishes it\<close>
  "close_store ca s =
     (if as_closeRequested s \<or> \<not> cf_enabled (as_cfg s) \<and> as_closeResult s \<noteq> None then s
      else if \<not> cf_enabled (as_cfg s)
        then settleResponses (cancelTimers s)
               \<lparr>as_closeResult := Some (if as_unhealthy s then Some CleanupFailed else None)\<rparr>
      else finishClose ca (settleResponses (cancelTimers s)\<lparr>as_closeRequested := True\<rparr>))"

section \<open>Capturing\<close>

datatype capture_result = Available string stored_record | NotCaptured artifact_code

text \<open>A caller's options: \<open>None\<close> stands for a value of the wrong type, and for a ttl that is not a positive
  integer.\<close>

record capture_options =
  co_id :: "string option"
  co_consumerId :: "string option"
  co_ttlMs :: "int option option"

datatype 'r turn = Throws artifact_code | Returns 'r | Awaits

record stage_answers =
  sa_identity :: "dir_target \<Rightarrow> dir_source \<Rightarrow> dir_identity option"
  sa_created :: bool                    \<comment> \<open>the exclusive create of the staged file\<close>
  sa_written :: bool                    \<comment> \<open>its writes, its fsync and its close\<close>
  sa_stat :: file_stat
  sa_undo :: fs_answers                 \<comment> \<open>of the \<open>catch\<close>\<close>
  sa_close :: close_answers             \<comment> \<open>of the close the \<open>finally\<close> may finish\<close>

record commit_answers =
  ma_identity :: "dir_target \<Rightarrow> dir_source \<Rightarrow> dir_identity option"
  ma_linked :: bool
  ma_unlinked :: bool
  ma_stat :: "file_stat option"
  ma_fsync :: bool
  ma_undo :: fs_answers
  ma_close :: close_answers

definition capture_finally ::
  "close_answers \<Rightarrow> string \<Rightarrow> nat \<Rightarrow> bool \<Rightarrow> artifact_store \<Rightarrow> artifact_store" where
  \<comment> \<open>\<open>keep\<close>: committed or retained\<close>
  "capture_finally ca i tok keep s =
     (let s1 = releaseStage i tok s;
          s2 = (if keep then s1 else releaseReservation i tok s1);
          s3 = s2\<lparr>as_discardedInflight := as_discardedInflight s2 - {i}, as_inflight := as_inflight s2 - {i},
                  as_activeCaptures := as_activeCaptures s2 - 1\<rparr>
      in if as_closeRequested s3 \<and> as_activeCaptures s3 = 0 then finishClose ca s3 else s3)"

definition capture_failed ::
  "fs_answers \<Rightarrow> close_answers \<Rightarrow> data_name list \<Rightarrow> string \<Rightarrow> nat \<Rightarrow> artifact_store \<Rightarrow> capture_result turn \<times> artifact_store" where
  \<comment> \<open>the \<open>catch\<close>\<close>
  "capture_failed fa ca names i tok s =
     (case strictDelete fa names s of
        (True, s1) \<Rightarrow> (Returns (NotCaptured WriteFailed), capture_finally ca i tok False s1)
      | (False, s1) \<Rightarrow> (Returns (NotCaptured CleanupFailed), capture_finally ca i tok True (markUnhealthy s1)))"

definition source_bytes :: "source_file \<Rightarrow> nat \<Rightarrow> octets option" where
  \<comment> \<open>the read loop fills exactly \<open>n\<close> bytes or throws at the end of the file\<close>
  "source_bytes src n = (if n \<le> length (so_content src) then Some (take n (so_content src)) else None)"

definition capture_body ::
  "(octets \<Rightarrow> string) \<Rightarrow> source_file \<Rightarrow> stage_answers \<Rightarrow> string \<Rightarrow> string \<Rightarrow> int option \<Rightarrow> nat \<Rightarrow> artifact_store
     \<Rightarrow> capture_result turn \<times> artifact_store" where
  "capture_body sha src sa i cid ttl tok s =
     (let ca = sa_close sa;
          leave = (\<lambda>code t. (Returns (NotCaptured code), capture_finally ca i tok False t))
      in case so_open src of
           None \<Rightarrow> capture_failed (sa_undo sa) ca [] i tok s
         | Some (isFile, sz) \<Rightarrow>
           if \<not> isFile \<or> sz > MAX_ARTIFACT_BYTES then leave SizeLimit s
           else if sz < length PDF_MAGIC then leave NotPdf s
           else (let s1 = shrinkReservation i tok sz s in
             case (source_bytes src sz, so_end src) of
               (Some buf, Some endSize) \<Rightarrow>
                 if endSize \<noteq> sz \<or> take 5 buf \<noteq> PDF_MAGIC then leave IntegrityFailed s1
                 else (case identityProven (sa_identity sa) s1 of
                         (False, s2) \<Rightarrow> leave RuntimeInvalidated s2
                       | (True, s2) \<Rightarrow>
                           if \<not> sa_created sa \<or> (i, Part) \<in> as_disk s2
                           then capture_failed (sa_undo sa) ca [(i, Part)] i tok s2
                           else (let s3 = s2\<lparr>as_disk := insert (i, Part) (as_disk s2)\<rparr> in
                             if \<not> sa_written sa \<or> \<not> provenFileStat (cf_uid (as_cfg s3)) (sa_stat sa) (length buf)
                             then capture_failed (sa_undo sa) ca [(i, Part)] i tok s3
                             else (Awaits, s3\<lparr>as_captures := as_captures s3 @
                                     [\<lparr>cp_id = i, cp_consumerId = cid, cp_ttlMs = ttl, cp_token = tok,
                                       cp_phase = Staged, cp_bytes = buf, cp_sha256 = sha buf,
                                       cp_dev = st_dev (sa_stat sa), cp_ino = st_ino (sa_stat sa)\<rparr>]\<rparr>)))
             | _ \<Rightarrow> capture_failed (sa_undo sa) ca [] i tok s1))"

definition capture_artifact ::
  "(octets \<Rightarrow> string) \<Rightarrow> int \<Rightarrow> (string \<Rightarrow> fs_answers) \<Rightarrow> source_file \<Rightarrow> stage_answers \<Rightarrow> capture_options \<Rightarrow> artifact_store
     \<Rightarrow> capture_result turn \<times> artifact_store" where
  \<comment> \<open>up to the await of \<open>afterPartFsync\<close>, which may be absent: the next segment then follows at once\<close>
  "capture_artifact sha now fa src sa opts s =
     (case (co_id opts, co_consumerId opts) of
        (None, _) \<Rightarrow> (Throws InvalidArtifactId, s)
      | (Some i, None) \<Rightarrow> (Throws ConfigInvalid, s)
      | (Some i, Some cid) \<Rightarrow>
          if cid = [] then (Throws ConfigInvalid, s)
          else if co_ttlMs opts = Some None then (Returns (NotCaptured ConfigInvalid), s)
          else (let s1 = reapExpired now fa s in
            if \<not> ARTIFACT_ID i then (Throws InvalidArtifactId, s1)
            else if as_closeRequested s1 \<or> as_unhealthy s1 \<or> \<not> cf_enabled (as_cfg s1)
              then (Returns (NotCaptured RuntimeInvalidated), s1)
            else if map_of (as_records s1) i \<noteq> None \<or> i \<in> as_inflight s1 then (Returns (NotCaptured Capacity), s1)
            else (case reserve i cid s1 of
                    (None, s2) \<Rightarrow> (Returns (NotCaptured Capacity), s2)
                  | (Some tok, s2) \<Rightarrow>
                      capture_body sha src sa i cid (Option.bind (co_ttlMs opts) id) tok
                        (s2\<lparr>as_inflight := insert i (as_inflight s2),
                            as_activeCaptures := as_activeCaptures s2 + 1\<rparr>))))"

definition resume_capture :: "capture \<Rightarrow> artifact_store \<Rightarrow> artifact_store" where
  "resume_capture cp s = s\<lparr>as_captures := remove1 cp (as_captures s)\<rparr>"

definition capture_link ::
  "commit_answers \<Rightarrow> capture \<Rightarrow> artifact_store \<Rightarrow> capture_result turn \<times> artifact_store" where
  \<comment> \<open>from the first await to that of \<open>afterLinkBeforeCommit\<close>\<close>
  "capture_link ma cp s0 =
     (let s = resume_capture cp s0; i = cp_id cp; tok = cp_token cp; ca = ma_close ma;
          leave = (\<lambda>code keep t. (Returns (NotCaptured code), capture_finally ca i tok keep t))
      in if i \<in> as_discardedInflight s then leave LifecycleRace False s
         else if as_closeRequested s \<or> as_unhealthy s then leave RuntimeInvalidated False s
         else (case identityProven (ma_identity ma) s of
                 (False, s1) \<Rightarrow> leave RuntimeInvalidated True s1
               | (True, s1) \<Rightarrow>
                   if \<not> ma_linked ma \<or> (i, Pdf) \<in> as_disk s1
                   then capture_failed (ma_undo ma) ca [(i, Part)] i tok s1
                   else (let s2 = s1\<lparr>as_disk := insert (i, Pdf) (as_disk s1)\<rparr> in
                     if \<not> ma_unlinked ma then capture_failed (ma_undo ma) ca [(i, Part), (i, Pdf)] i tok s2
                     else (let s3 = s2\<lparr>as_disk := as_disk s2 - {(i, Part)}\<rparr>
                           in (Awaits, s3\<lparr>as_captures := as_captures s3 @ [cp\<lparr>cp_phase := Linked\<rparr>]\<rparr>)))))"

definition capture_commit ::
  "int \<Rightarrow> commit_answers \<Rightarrow> capture \<Rightarrow> artifact_store \<Rightarrow> capture_result turn \<times> artifact_store" where
  "capture_commit now ma cp s0 =
     (let s = resume_capture cp s0; i = cp_id cp; tok = cp_token cp; ca = ma_close ma;
          leave = (\<lambda>code keep t. (Returns (NotCaptured code), capture_finally ca i tok keep t))
      in if i \<in> as_discardedInflight s then leave LifecycleRace False s
         else (case identityProven (ma_identity ma) s of
                 (False, s1) \<Rightarrow> leave RuntimeInvalidated True s1
               | (True, s1) \<Rightarrow>
                   if as_closeRequested s1 \<or> as_unhealthy s1
                   then (case strictDelete (ma_undo ma) [(i, Pdf)] s1 of
                           (False, s2) \<Rightarrow> leave CleanupFailed True (markUnhealthy s2)
                         | (True, s2) \<Rightarrow> leave RuntimeInvalidated False s2)
                   else if \<not> proveLinked (cf_uid (as_cfg s1)) (ma_stat ma) (length (cp_bytes cp)) (cp_dev cp) (cp_ino cp)
                             \<or> \<not> as_dataOpen s1 \<or> \<not> ma_fsync ma
                   then capture_failed (ma_undo ma) ca [(i, Pdf)] i tok s1
                   else (let st = the (ma_stat ma);
                             rec = \<lparr>sr_consumerId = cp_consumerId cp, sr_bytes = length (cp_bytes cp),
                                    sr_sha256 = cp_sha256 cp, sr_createdAt = now,
                                    sr_expiresAt = now + (case cp_ttlMs cp of None \<Rightarrow> cf_ttlMs (as_cfg s1) | Some t \<Rightarrow> t),
                                    sr_consuming = False, sr_dev = st_dev st, sr_ino = st_ino st\<rparr>
                         in (Returns (Available i rec),
                             capture_finally ca i tok True
                               (s1\<lparr>as_records := alist_put i rec (as_records s1)\<rparr>)))))"

section \<open>Leasing\<close>

text \<open>What the consume side reads through the descriptor it opened: two \<open>fstat\<close>s around the bytes.\<close>

record consume_answers =
  qa_identity :: "dir_target \<Rightarrow> dir_source \<Rightarrow> dir_identity option"
  qa_file :: "(file_stat \<times> octets \<times> file_stat) option"
  qa_fs :: fs_answers        \<comment> \<open>of the discard that follows a failure\<close>

definition leasable :: "int \<Rightarrow> (string \<Rightarrow> fs_answers) \<Rightarrow> string \<Rightarrow> string \<Rightarrow> artifact_store \<Rightarrow> bool \<times> artifact_store" where
  "leasable now fa i cid s0 =
     (let s = reapExpired now fa s0
      in if as_closeRequested s \<or> as_unhealthy s then (False, s)
         else (case map_of (as_records s) i of None \<Rightarrow> (False, s)
               | Some rec \<Rightarrow> (sr_consumerId rec = cid \<and> \<not> sr_consuming rec, s)))"

definition end_lease :: "fs_answers \<Rightarrow> string \<Rightarrow> nat \<Rightarrow> artifact_store \<Rightarrow> artifact_store" where
  \<comment> \<open>the discard and the permit, in the order every terminal path of a lease has them\<close>
  "end_lease fa i tok s =
     (case discardOwned fa i (detachResponseSettle i s) of
        (ok, s1) \<Rightarrow> yieldPermit tok (if ok then s1 else markUnhealthy s1))"

definition read_verified :: "(octets \<Rightarrow> string) \<Rightarrow> nat \<Rightarrow> stored_record \<Rightarrow> (file_stat \<times> octets \<times> file_stat) option \<Rightarrow> octets option" where
  "read_verified sha uid rec file =
     (case file of None \<Rightarrow> None
      | Some (st1, content, st2) \<Rightarrow>
          if provenRecordFile uid st1 rec \<and> sr_bytes rec \<le> length content \<and> provenRecordFile uid st2 rec \<and>
             sha (take (sr_bytes rec) content) = sr_sha256 rec
          then Some (take (sr_bytes rec) content) else None)"

definition admitted ::
  "(octets \<Rightarrow> string) \<Rightarrow> int \<Rightarrow> int \<Rightarrow> consume_answers \<Rightarrow> string \<Rightarrow> artifact_store \<Rightarrow> lease option turn \<times> artifact_store" where
  \<comment> \<open>\<open>now\<close> when the response budget opens, \<open>later\<close> when the bytes are encoded\<close>
  "admitted sha now later qa i s =
     (case identityProven (qa_identity qa) s of
        (False, s1) \<Rightarrow> (Returns None, if as_responseBusy s1 then releaseResponse s1 else s1)
      | (True, s1) \<Rightarrow>
        (let tok = as_next s1; rec = the (map_of (as_records s1) i); deadline = now + RESPONSE_LEASE_MS;
             s2 = s1\<lparr>as_next := tok + 1, as_responseHolder := Some tok, as_responseId := Some i,
                     as_responseSettle := Some tok,
                     as_records := alist_put i (rec\<lparr>sr_consuming := True\<rparr>) (as_records s1),
                     as_timers := alist_put i tok (as_timers s1)\<rparr>
         in case read_verified sha (cf_uid (as_cfg s2)) rec (qa_file qa) of
              None \<Rightarrow> (Returns None, end_lease (qa_fs qa) i tok (clearTimer i s2))
            | Some buf \<Rightarrow>
                if later \<ge> deadline then (Returns None, end_lease (qa_fs qa) i tok (clearTimer i s2))
                else (let l = \<lparr>le_id = i, le_record = rec\<lparr>sr_consuming := True\<rparr>, le_buffer = buf,
                               le_deadline = deadline, le_done = False, le_claimed = False\<rparr>
                      in (Returns (Some l),
                          s2\<lparr>as_responseBytes := length buf, as_leases := as_leases s2 @ [(tok, l)]\<rparr>))))"

definition acquire_artifact ::
  "(octets \<Rightarrow> string) \<Rightarrow> int \<Rightarrow> int \<Rightarrow> (string \<Rightarrow> fs_answers) \<Rightarrow> consume_answers \<Rightarrow> string \<Rightarrow> string \<Rightarrow> artifact_store
     \<Rightarrow> lease option turn \<times> artifact_store" where
  "acquire_artifact sha now later fa qa i cid s0 =
     (if \<not> ARTIFACT_ID i then (Throws InvalidArtifactId, s0)
      else (case leasable now fa i cid s0 of
              (False, s) \<Rightarrow> (Returns None, s)
            | (True, s) \<Rightarrow>
                if as_responseBusy s
                then (Awaits, s\<lparr>as_next := as_next s + 1, as_responseWaiters := as_responseWaiters s @ [as_next s],
                                 as_waiting := as_waiting s @ [(as_next s, i, cid)]\<rparr>)
                else admitted sha now later qa i (s\<lparr>as_responseBusy := True\<rparr>)))"

definition lease_resumed ::
  "(octets \<Rightarrow> string) \<Rightarrow> int \<Rightarrow> int \<Rightarrow> (string \<Rightarrow> fs_answers) \<Rightarrow> consume_answers \<Rightarrow> nat \<Rightarrow> bool \<Rightarrow> string \<Rightarrow> string
     \<Rightarrow> artifact_store \<Rightarrow> lease option turn \<times> artifact_store" where
  \<comment> \<open>the waiter \<open>w\<close> goes on after its promise resolved\<close>
  "lease_resumed sha now later fa qa w granted i cid s0 =
     (let s1 = s0\<lparr>as_woken := filter (\<lambda>q. fst q \<noteq> w) (as_woken s0),
                  as_waiting := filter (\<lambda>q. fst q \<noteq> w) (as_waiting s0)\<rparr>
      in if \<not> granted then (Returns None, s1)
         else (case leasable now fa i cid s1 of
                 (False, s) \<Rightarrow> (Returns None, releaseResponse s)
               | (True, s) \<Rightarrow> admitted sha now later qa i s))"

definition claimTimeout :: "nat \<Rightarrow> artifact_store \<Rightarrow> artifact_store" where
  "claimTimeout tok s =
     (case map_of (as_leases s) tok of None \<Rightarrow> s
      | Some l \<Rightarrow>
          if le_claimed l then s
          else clearTimer (le_id l)
                 (s\<lparr>as_leases := alist_put tok (l\<lparr>le_claimed := True\<rparr>) (as_leases s)\<rparr>))"

definition complete_lease :: "fs_answers \<Rightarrow> nat \<Rightarrow> artifact_store \<Rightarrow> artifact_store" where
  "complete_lease fa tok s =
     (case map_of (as_leases s) tok of None \<Rightarrow> s
      | Some l \<Rightarrow>
          if le_done l then s
          else (let s1 = clearTimer (le_id l) (finish_lease tok s)
                in if as_closeRequested s1 \<or> as_unhealthy s1 then yieldPermit tok s1
                   else end_lease fa (le_id l) tok s1))"

definition response_timeout :: "fs_answers \<Rightarrow> string \<Rightarrow> artifact_store \<Rightarrow> artifact_store" where
  \<comment> \<open>the store's own timer for artifact \<open>i\<close> fires\<close>
  "response_timeout fa i s =
     (case map_of (as_timers s) i of None \<Rightarrow> s
      | Some tok \<Rightarrow>
        (let s1 = clearTimer i s
         in case map_of (as_leases s1) tok of None \<Rightarrow> s1
            | Some l \<Rightarrow>
                if le_done l \<or> as_closeRequested s1 \<or> as_unhealthy s1 then s1
                else end_lease fa i tok (finish_lease tok s1)))"

section \<open>The store as a transition system\<close>

definition new_store :: "store_config \<Rightarrow> artifact_store" where
  \<comment> \<open>once the constructor has returned\<close>
  "new_store cfg =
     \<lparr>as_cfg = cfg, as_closeRequested = False, as_unhealthy = False, as_disposed = False,
      as_teardownStarted = False, as_identityLost = False, as_rootOpen = cf_enabled cfg,
      as_dataOpen = cf_enabled cfg, as_locked = cf_enabled cfg, as_closeResult = None, as_activeCaptures = 0,
      as_inflight = {}, as_discardedInflight = {}, as_records = [], as_timers = [],
      as_cleanupTimer = cf_enabled cfg, as_reservations = [], as_consumerLedger = (\<lambda>_. None),
      as_ledgerCount = 0, as_ledgerBytes = 0, as_stagePermits = 0, as_responseBusy = False,
      as_responseHolder = None, as_responseId = None, as_responseBytes = 0, as_responseSettle = None,
      as_responseWaiters = [], as_next = 0, as_captures = [], as_waiting = [], as_woken = [], as_leases = [],
      as_notified = [], as_disk = {}\<rparr>"

datatype store_event =
    Capture int "string \<Rightarrow> fs_answers" source_file stage_answers capture_options
  | Link commit_answers capture
  | Commit int commit_answers capture
  | Lease int int "string \<Rightarrow> fs_answers" consume_answers string string
  | Resume int int "string \<Rightarrow> fs_answers" consume_answers nat bool string string
  | Claim nat | Complete fs_answers nat | ResponseTimeout fs_answers string
  | Discard fs_answers string | CleanupTick int "string \<Rightarrow> fs_answers" | CloseStore close_answers

fun able :: "store_event \<Rightarrow> artifact_store \<Rightarrow> bool" where
  \<comment> \<open>which continuations and timers can run; callers' own calls always can\<close>
  "able (Link ma cp) s = (cp \<in> set (as_captures s) \<and> cp_phase cp = Staged)"
| "able (Commit now ma cp) s = (cp \<in> set (as_captures s) \<and> cp_phase cp = Linked)"
| "able (Resume now later fa qa w granted i cid) s =
     ((w, granted) \<in> set (as_woken s) \<and> (w, i, cid) \<in> set (as_waiting s))"
| "able (CleanupTick now fa) s = as_cleanupTimer s"
| "able _ s = True"

fun after :: "(octets \<Rightarrow> string) \<Rightarrow> store_event \<Rightarrow> artifact_store \<Rightarrow> artifact_store" where
  "after sha (Capture now fa src sa opts) s = snd (capture_artifact sha now fa src sa opts s)"
| "after sha (Link ma cp) s = snd (capture_link ma cp s)"
| "after sha (Commit now ma cp) s = snd (capture_commit now ma cp s)"
| "after sha (Lease now later fa qa i cid) s = snd (acquire_artifact sha now later fa qa i cid s)"
| "after sha (Resume now later fa qa w granted i cid) s = snd (lease_resumed sha now later fa qa w granted i cid s)"
| "after sha (Claim tok) s = claimTimeout tok s"
| "after sha (Complete fa tok) s = complete_lease fa tok s"
| "after sha (ResponseTimeout fa i) s = response_timeout fa i s"
| "after sha (Discard fa i) s = snd (discardArtifactDetailed fa i s)"
| "after sha (CleanupTick now fa) s = runCleanupPass now fa s"
| "after sha (CloseStore ca) s = close_store ca s"

definition astep :: "(octets \<Rightarrow> string) \<Rightarrow> artifact_store \<Rightarrow> store_event \<Rightarrow> artifact_store \<Rightarrow> bool" where
  "astep sha s e s' \<longleftrightarrow> able e s \<and> s' = after sha e s"

definition valid_config :: "store_config \<Rightarrow> bool" where
  \<comment> \<open>the numeric checks of the constructor\<close>
  "valid_config cfg \<longleftrightarrow>
     0 < cf_ttlMs cfg \<and> 0 < cf_maxBytes cfg \<and> 0 < cf_maxCount cfg \<and> 0 < cf_perConsumerBytes cfg \<and>
     0 < cf_perConsumerCount cfg"

definition fresh_store :: "artifact_store \<Rightarrow> bool" where
  \<comment> \<open>an enabled store; a disabled one refuses every capture and owns nothing\<close>
  "fresh_store s \<longleftrightarrow> s = new_store (as_cfg s) \<and> cf_enabled (as_cfg s) \<and> valid_config (as_cfg s)"

end
