(* ===== verification/Artifact_Books.thy ===== *)
theory Artifact_Books
  imports Artifact_Store
begin

text \<open>
  The artifact store's books: the ledgers are exactly the sums over the reservations, never above the
  configured quotas; a capture in flight holds its staging reservation, a record its committed one; and
  while the store is open and healthy no file it created is unreserved.
\<close>

named_theorems frames \<open>operations that leave the books alone\<close>

section \<open>Totals over an association list\<close>

definition tally :: "('v \<Rightarrow> int) \<Rightarrow> ('k \<times> 'v) list \<Rightarrow> int" where
  "tally g xs = (\<Sum>p\<leftarrow>xs. g (snd p))"

lemma tally_simps [simp]: "tally g [] = 0" "tally g ((k, v) # xs) = g v + tally g xs"
  by (simp_all add: tally_def)

lemma tally_put_new: "map_of xs k = None \<Longrightarrow> tally g (alist_put k v xs) = tally g xs + g v"
  by (induction k v xs rule: alist_put.induct) (auto split: if_splits)

lemma tally_put: "map_of xs k = Some v0 \<Longrightarrow> tally g (alist_put k v xs) = tally g xs - g v0 + g v"
  by (induction k v xs rule: alist_put.induct) (auto split: if_splits)

lemma tally_del:
  "distinct (map fst xs) \<Longrightarrow> map_of xs k = Some v \<Longrightarrow> tally g (alist_del k xs) = tally g xs - g v"
proof (induction xs)
  case (Cons p xs)
  obtain k' v' where p: "p = (k', v')" by (cases p)
  show ?case
  proof (cases "k = k'")
    case True
    then have "k \<notin> fst ` set xs" using Cons.prems(1) p by simp
    then show ?thesis using True Cons.prems(2) p by (simp add: alist_del_Cons alist_del_absent)
  next
    case False
    then show ?thesis using Cons p by (simp add: alist_del_Cons)
  qed
qed simp

lemma tally_nonneg: "(\<And>v. 0 \<le> g v) \<Longrightarrow> 0 \<le> tally g xs"
  by (induction xs) (auto simp: tally_def)

lemma tally_member: "(\<And>v. 0 \<le> g v) \<Longrightarrow> map_of xs k = Some v \<Longrightarrow> g v \<le> tally g xs"
proof (induction xs)
  case (Cons p xs)
  have "0 \<le> tally g xs" using Cons.prems(1) by (rule tally_nonneg)
  then show ?case using Cons by (cases p) (auto split: if_splits intro: add_increasing)
qed simp

section \<open>The books\<close>

definition count_of :: "string \<Rightarrow> reservation \<Rightarrow> int" where
  "count_of c rv = of_bool (rv_consumerId rv = c)"

definition bytes_of :: "string \<Rightarrow> reservation \<Rightarrow> int" where
  "bytes_of c rv = (if rv_consumerId rv = c then int (rv_bytes rv) else 0)"

definition bill :: "string \<Rightarrow> (string \<times> reservation) list \<Rightarrow> (int \<times> int) option" where
  "bill c rs = (if tally (count_of c) rs = 0 then None else Some (tally (count_of c) rs, tally (bytes_of c) rs))"

definition ledger_ok :: "artifact_store \<Rightarrow> bool" where
  "ledger_ok s \<longleftrightarrow>
     distinct (map fst (as_reservations s)) \<and>
     as_ledgerCount s = tally (\<lambda>_. 1) (as_reservations s) \<and>
     as_ledgerBytes s = tally (\<lambda>rv. int (rv_bytes rv)) (as_reservations s) \<and>
     as_stagePermits s = tally (\<lambda>rv. of_bool (rv_staging rv)) (as_reservations s) \<and>
     (\<forall>c. as_consumerLedger s c = bill c (as_reservations s))"

definition quotas_ok :: "artifact_store \<Rightarrow> bool" where
  "quotas_ok s \<longleftrightarrow>
     as_ledgerCount s \<le> cf_maxCount (as_cfg s) \<and> as_ledgerBytes s \<le> cf_maxBytes (as_cfg s) \<and>
     as_stagePermits s \<le> int MAX_STAGE_COPIES \<and>
     (\<forall>c n b. as_consumerLedger s c = Some (n, b) \<longrightarrow>
        n \<le> cf_perConsumerCount (as_cfg s) \<and> b \<le> cf_perConsumerBytes (as_cfg s))"

lemma ledger_okD:
  "ledger_ok s \<Longrightarrow> as_consumerLedger s c = bill c (as_reservations s)"
  by (simp add: ledger_ok_def)

lemma count_of_nonneg [simp]: "0 \<le> count_of c rv"
  by (simp add: count_of_def)

lemma bytes_of_nonneg [simp]: "0 \<le> bytes_of c rv"
  by (simp add: bytes_of_def)

lemma bill_other: "rv_consumerId rv \<noteq> c \<Longrightarrow> count_of c rv = 0" "rv_consumerId rv \<noteq> c \<Longrightarrow> bytes_of c rv = 0"
  by (simp_all add: count_of_def bytes_of_def)

lemma bill_own: "rv_consumerId rv = c \<Longrightarrow> count_of c rv = 1" "rv_consumerId rv = c \<Longrightarrow> bytes_of c rv = int (rv_bytes rv)"
  by (simp_all add: count_of_def bytes_of_def)

lemma no_bytes:
  assumes "tally (count_of c) rs = 0" shows "tally (bytes_of c) rs = 0"
  using assms
proof (induction rs)
  case (Cons p rs)
  obtain i rv where p: "p = (i, rv)" by (cases p)
  have pos: "0 \<le> tally (count_of c) rs" by (rule tally_nonneg) simp
  show ?case using Cons pos by (cases "rv_consumerId rv = c") (simp_all add: p bill_other bill_own)
qed simp

lemma billed_consumer:
  assumes "map_of rs i = Some rv"
  shows "bill (rv_consumerId rv) rs = Some (tally (count_of (rv_consumerId rv)) rs, tally (bytes_of (rv_consumerId rv)) rs)"
proof -
  have "count_of (rv_consumerId rv) rv \<le> tally (count_of (rv_consumerId rv)) rs"
    using assms by (intro tally_member) auto
  then show ?thesis by (simp add: bill_def bill_own)
qed

section \<open>The ledger operations\<close>

lemma ledger_reserve:
  assumes s: "ledger_ok s" and r: "reserve i cid s = (Some tok, t)"
  shows "ledger_ok t" and "quotas_ok s \<Longrightarrow> quotas_ok t"
proof -
  let ?rv = "\<lparr>rv_token = as_next s, rv_consumerId = cid, rv_bytes = MAX_ARTIFACT_BYTES, rv_staging = True\<rparr>"
  obtain n b where nb: "(case as_consumerLedger s cid of None \<Rightarrow> (0, 0) | Some c \<Rightarrow> c) = (n, b)"
    by (meson surj_pair)
  have new: "map_of (as_reservations s) i = None"
    and t: "t = s\<lparr>as_next := as_next s + 1, as_reservations := alist_put i ?rv (as_reservations s),
                  as_ledgerCount := as_ledgerCount s + 1, as_ledgerBytes := as_ledgerBytes s + int MAX_ARTIFACT_BYTES,
                  as_consumerLedger := (as_consumerLedger s)(cid \<mapsto> (n + 1, b + int MAX_ARTIFACT_BYTES)),
                  as_stagePermits := as_stagePermits s + 1\<rparr>"
    and lim: "as_stagePermits s + 1 \<le> int MAX_STAGE_COPIES" "as_ledgerCount s + 1 \<le> cf_maxCount (as_cfg s)"
      "n + 1 \<le> cf_perConsumerCount (as_cfg s)" "as_ledgerBytes s + int MAX_ARTIFACT_BYTES \<le> cf_maxBytes (as_cfg s)"
      "b + int MAX_ARTIFACT_BYTES \<le> cf_perConsumerBytes (as_cfg s)"
    using r nb by (auto simp: reserve_def Let_def split: if_splits prod.splits)
  have n: "n = tally (count_of cid) (as_reservations s)" and b: "b = tally (bytes_of cid) (as_reservations s)"
    using nb s no_bytes [of cid "as_reservations s"]
    by (auto simp: ledger_ok_def bill_def split: option.splits if_splits)
  have pos: "0 \<le> tally (count_of c) (as_reservations s)" for c by (rule tally_nonneg) simp
  show "ledger_ok t"
    using s new n b pos [of cid]
    by (auto simp: t ledger_ok_def tally_put_new distinct_alist_put bill_def bill_own bill_other)
  show "quotas_ok s \<Longrightarrow> quotas_ok t"
    using lim by (auto simp: t quotas_ok_def split: if_splits)
qed

lemma ledger_shrink:
  assumes s: "ledger_ok s"
  shows "ledger_ok (shrinkReservation i tok n s)" and "quotas_ok s \<Longrightarrow> quotas_ok (shrinkReservation i tok n s)"
proof -
  show "ledger_ok (shrinkReservation i tok n s)"
    using s billed_consumer [of "as_reservations s" i]
    by (auto simp: shrinkReservation_def reserved_def ledger_ok_def tally_put distinct_alist_put Let_def bill_def
        count_of_def bytes_of_def split: option.splits if_splits)
  show "quotas_ok s \<Longrightarrow> quotas_ok (shrinkReservation i tok n s)"
    by (fastforce simp: shrinkReservation_def quotas_ok_def Let_def split: option.splits if_splits)
qed

lemma ledger_releaseStage:
  assumes s: "ledger_ok s"
  shows "ledger_ok (releaseStage i tok s)" and "quotas_ok s \<Longrightarrow> quotas_ok (releaseStage i tok s)"
  using s by (auto simp: releaseStage_def reserved_def ledger_ok_def quotas_ok_def tally_put distinct_alist_put bill_def
        count_of_def bytes_of_def split: option.splits if_splits)

lemma ledger_releaseReservation:
  assumes s: "ledger_ok s" and committed: "\<And>rv. reserved i tok s = Some rv \<Longrightarrow> \<not> rv_staging rv"
  shows "ledger_ok (releaseReservation i tok s)" and "quotas_ok s \<Longrightarrow> quotas_ok (releaseReservation i tok s)"
proof -
  show "ledger_ok (releaseReservation i tok s)"
  proof (cases "reserved i tok s")
    case None
    then show ?thesis using s by (simp add: releaseReservation_def)
  next
    case (Some rv)
    let ?rs = "as_reservations s"
    let ?c = "rv_consumerId rv"
    have rv: "map_of ?rs i = Some rv" using Some by (simp add: reserved_def split: option.splits if_splits)
    have dist: "distinct (map fst ?rs)" using s by (simp add: ledger_ok_def)
    note del = tally_del [OF dist rv]
    have own: "as_consumerLedger s ?c = Some (tally (count_of ?c) ?rs, tally (bytes_of ?c) ?rs)"
      using billed_consumer [OF rv] ledger_okD [OF s] by simp
    have none: "tally (count_of ?c) ?rs = 1 \<Longrightarrow> tally (bytes_of ?c) ?rs = int (rv_bytes rv)"
      using no_bytes [of ?c "alist_del i ?rs"] by (simp add: del bill_own)
    have bill: "bill c (alist_del i ?rs) = (if c = ?c then
        (if tally (count_of ?c) ?rs - 1 = 0 \<and> tally (bytes_of ?c) ?rs - int (rv_bytes rv) = 0 then None
         else Some (tally (count_of ?c) ?rs - 1, tally (bytes_of ?c) ?rs - int (rv_bytes rv))) else bill c ?rs)" for c
      using none by (auto simp: bill_def del bill_own bill_other)
    show ?thesis
      using s committed [OF Some] Some own
      by (auto simp: releaseReservation_def Let_def ledger_ok_def del distinct_alist_del bill)
  qed
  show "quotas_ok s \<Longrightarrow> quotas_ok (releaseReservation i tok s)"
    by (fastforce simp: releaseReservation_def quotas_ok_def Let_def split: option.splits if_splits)
qed

section \<open>Operations on the response side keep the books\<close>

definition kept_books :: "artifact_store \<Rightarrow> artifact_store \<Rightarrow> bool" where
  \<comment> \<open>nothing but names that are gone, poison and a close may differ\<close>
  "kept_books s t \<longleftrightarrow>
     as_cfg t = as_cfg s \<and> as_reservations t = as_reservations s \<and> as_consumerLedger t = as_consumerLedger s \<and>
     as_ledgerCount t = as_ledgerCount s \<and> as_ledgerBytes t = as_ledgerBytes s \<and>
     as_stagePermits t = as_stagePermits s \<and> as_inflight t = as_inflight s \<and>
     as_discardedInflight t = as_discardedInflight s \<and> as_records t = as_records s \<and>
     as_captures t = as_captures s \<and> as_activeCaptures t = as_activeCaptures s \<and> as_notified t = as_notified s \<and>
     as_disk t \<subseteq> as_disk s \<and> (as_unhealthy s \<longrightarrow> as_unhealthy t) \<and> (as_closeRequested s \<longrightarrow> as_closeRequested t)"

lemma kept_refl [simp]: "kept_books s s"
  by (simp add: kept_books_def)

lemma kept_trans: "kept_books s t \<Longrightarrow> kept_books t u \<Longrightarrow> kept_books s u"
  by (auto simp: kept_books_def)

lemma kept_releaseResponse [frames]: "kept_books s (releaseResponse s)"
  by (simp add: kept_books_def releaseResponse_def split: prod.split)

lemma kept_finish_lease [frames]: "kept_books s (finish_lease tok s)"
  by (simp add: kept_books_def finish_lease_def)

lemma kept_yieldPermit [frames]: "kept_books s (yieldPermit tok s)"
  by (simp add: kept_books_def yieldPermit_def releaseResponse_def split: prod.split)

lemma kept_run_settle [frames]: "kept_books s (run_settle settle s)"
  by (auto simp: run_settle_def split: option.split intro: kept_trans [OF kept_finish_lease kept_yieldPermit])

lemma run_settle_closed [simp]: "as_closeRequested (run_settle x s) = as_closeRequested s"
  by (simp add: run_settle_def yieldPermit_def finish_lease_def releaseResponse_def split: option.split prod.split)

lemma kept_settleResponses [frames]: "kept_books s (settleResponses s)"
proof -
  have "kept_books (s\<lparr>as_responseSettle := None\<rparr>) (run_settle (as_responseSettle s) (s\<lparr>as_responseSettle := None\<rparr>))"
    by (rule kept_run_settle)
  then show ?thesis by (simp add: settleResponses_def Let_def kept_books_def)
qed

lemma kept_detach [frames]: "kept_books s (detachResponseSettle i s)"
  by (simp add: kept_books_def detachResponseSettle_def)

lemma kept_clearTimer [frames]: "kept_books s (clearTimer i s)"
  by (simp add: kept_books_def clearTimer_def)

lemma kept_cancelTimers [frames]: "kept_books s (cancelTimers s)"
  by (simp add: kept_books_def cancelTimers_def)

lemma kept_markUnhealthy [frames]: "kept_books s (markUnhealthy s)"
proof -
  have "kept_books s (cancelTimers (s\<lparr>as_unhealthy := True\<rparr>))" by (simp add: kept_books_def cancelTimers_def)
  then show ?thesis unfolding markUnhealthy_def by (rule kept_trans) (rule kept_settleResponses)
qed

lemma settleResponses_unhealthy [simp]: "as_unhealthy (settleResponses s) = as_unhealthy s"
  by (simp add: settleResponses_def Let_def run_settle_def yieldPermit_def finish_lease_def releaseResponse_def
      split: option.split prod.split)

lemma markUnhealthy_unhealthy [simp]: "as_unhealthy (markUnhealthy s)"
  by (simp add: markUnhealthy_def cancelTimers_def)

lemma kept_identityProven [frames]: "identityProven ids s = (ok, t) \<Longrightarrow> kept_books s t"
proof -
  assume *: "identityProven ids s = (ok, t)"
  have "kept_books s (markUnhealthy (s\<lparr>as_identityLost := True\<rparr>))"
    using kept_markUnhealthy [of "s\<lparr>as_identityLost := True\<rparr>"] by (simp add: kept_books_def)
  then show ?thesis using * by (auto simp: identityProven_def split: if_splits)
qed

lemma unproven_unhealthy: "identityProven ids s = (False, t) \<Longrightarrow> as_identityLost s \<or> as_unhealthy t"
  by (auto simp: identityProven_def split: if_splits)

lemma unlink_names:
  assumes "fold (unlink_name fa) names (ok0, ch0, s) = (ok, ch, t)"
  shows "kept_books s t \<and> (ok \<longrightarrow> ok0 \<and> as_disk t = as_disk s - set names)"
  using assms
proof (induction names arbitrary: ok0 ch0 s)
  case (Cons n names)
  obtain ok1 ch1 s1 where one: "unlink_name fa n (ok0, ch0, s) = (ok1, ch1, s1)" by (metis prod_cases3)
  have "kept_books s s1 \<and> (ok1 \<longrightarrow> ok0 \<and> as_disk s1 = as_disk s - {n})"
    using one by (auto simp: unlink_name_def kept_books_def split: unlink_answer.splits)
  moreover have "kept_books s1 t \<and> (ok \<longrightarrow> ok1 \<and> as_disk t = as_disk s1 - set names)"
    by (rule Cons.IH) (use Cons.prems one in simp)
  ultimately show ?case by (auto intro: kept_trans)
qed simp

lemma kept_strictDelete [frames]:
  assumes "strictDelete fa names s = (ok, t)"
  shows "kept_books s t" and "ok \<Longrightarrow> as_disk t = as_disk s - set names"
  using assms unlink_names [of fa names True False s]
  by (auto simp: strictDelete_def split: if_splits prod.splits)

lemma deletePhysical_kept:
  assumes "deletePhysical fa i s = (r, t)"
  shows "kept_books s t"
    and "r = Some d \<Longrightarrow> as_disk t \<inter> {(i, Pdf), (i, Part)} = {} \<and>
      d = (map_of (as_records s) i \<noteq> None, i \<in> as_inflight s \<and> i \<notin> as_discardedInflight s)"
proof -
  define s2 where "s2 = (let s1 = clearTimer i s in if as_responseId s1 = Some i
    then run_settle (as_responseSettle s1) (s1\<lparr>as_responseSettle := None\<rparr>) else s1)"
  have "kept_books (clearTimer i s) s2"
    using kept_run_settle [of "clearTimer i s\<lparr>as_responseSettle := None\<rparr>" "as_responseSettle (clearTimer i s)"]
    by (auto simp: s2_def Let_def kept_books_def)
  then have s2: "kept_books s s2" by (rule kept_trans [OF kept_clearTimer])
  obtain ok s3 where s3: "identityProven (fa_identity fa) s2 = (ok, s3)" by (meson surj_pair)
  have k3: "kept_books s s3" using kept_trans [OF s2 kept_identityProven [OF s3]] .
  obtain clean s4 where s4: "strictDelete fa [(i, Pdf), (i, Part)] s3 = (clean, s4)" by (meson surj_pair)
  have k4: "kept_books s s4" using kept_trans [OF k3 kept_strictDelete(1) [OF s4]] .
  have def: "deletePhysical fa i s = (if \<not> ok then (None, s3) else if \<not> clean then (None, markUnhealthy s4)
    else (Some (map_of (as_records s3) i \<noteq> None, i \<in> as_inflight s3 \<and> i \<notin> as_discardedInflight s3), s4))"
    using s3 s4 by (simp add: deletePhysical_def s2_def Let_def)
  show "kept_books s t" using assms def k3 k4 kept_trans [OF k4 kept_markUnhealthy] by (auto split: if_splits)
  show "r = Some d \<Longrightarrow> as_disk t \<inter> {(i, Pdf), (i, Part)} = {} \<and>
      d = (map_of (as_records s) i \<noteq> None, i \<in> as_inflight s \<and> i \<notin> as_discardedInflight s)"
    using assms def k3 kept_strictDelete(2) [OF s4]
    by (auto simp: kept_books_def split: if_splits)
qed

section \<open>Captures, records and the disk\<close>

definition of_pdf :: "(octets \<Rightarrow> string) \<Rightarrow> nat \<Rightarrow> string \<Rightarrow> bool" where
  \<comment> \<open>length and digest of some PDF within the artifact bound\<close>
  "of_pdf sha n digest \<longleftrightarrow>
     (\<exists>pdf. length pdf = n \<and> sha pdf = digest \<and> take 5 pdf = PDF_MAGIC \<and> n \<le> MAX_ARTIFACT_BYTES)"

definition capture_ok :: "(octets \<Rightarrow> string) \<Rightarrow> artifact_store \<Rightarrow> capture \<Rightarrow> bool" where
  "capture_ok sha s cp \<longleftrightarrow>
     (\<exists>rv. map_of (as_reservations s) (cp_id cp) = Some rv \<and> rv_token rv = cp_token cp \<and> rv_staging rv \<and>
           rv_consumerId rv = cp_consumerId cp \<and> rv_bytes rv = length (cp_bytes cp)) \<and>
     ARTIFACT_ID (cp_id cp) \<and> of_pdf sha (length (cp_bytes cp)) (cp_sha256 cp) \<and>
     (cp_id cp, if cp_phase cp = Staged then Pdf else Part) \<notin> as_disk s \<and>
     (cp_id cp \<in> as_discardedInflight s \<longrightarrow> as_disk s \<inter> {(cp_id cp, Pdf), (cp_id cp, Part)} = {})"

definition record_ok :: "(octets \<Rightarrow> string) \<Rightarrow> string option \<Rightarrow> artifact_store \<Rightarrow> string \<times> stored_record \<Rightarrow> bool" where
  "record_ok sha running s p \<longleftrightarrow>
     (case p of (i, r) \<Rightarrow>
        ARTIFACT_ID i \<and> i \<notin> cp_id ` set (as_captures s) \<and> of_pdf sha (sr_bytes r) (sr_sha256 r) \<and>
        (\<exists>rv. map_of (as_reservations s) i = Some rv \<and> (running \<noteq> Some i \<longrightarrow> \<not> rv_staging rv) \<and>
              rv_consumerId rv = sr_consumerId r \<and> rv_bytes rv = sr_bytes r))"

definition billed :: "artifact_store \<Rightarrow> bool" where
  "billed s \<longleftrightarrow> (\<not> as_closeRequested s \<and> \<not> as_unhealthy s \<longrightarrow>
     (\<forall>n \<in> as_disk s. map_of (as_reservations s) (fst n) \<noteq> None))"

definition books :: "(octets \<Rightarrow> string) \<Rightarrow> string option \<Rightarrow> artifact_store \<Rightarrow> bool" where
  \<comment> \<open>\<open>running\<close>: the capture whose segment is executing\<close>
  "books sha running s \<longleftrightarrow>
     ledger_ok s \<and> quotas_ok s \<and> billed s \<and>
     distinct (map cp_id (as_captures s)) \<and>
     cp_id ` set (as_captures s) = as_inflight s - set_option running \<and> set_option running \<subseteq> as_inflight s \<and>
     as_discardedInflight s \<subseteq> as_inflight s \<and>
     as_activeCaptures s = int (length (as_captures s)) + (if running = None then 0 else 1) \<and>
     (\<forall>cp \<in> set (as_captures s). capture_ok sha s cp) \<and>
     distinct (map fst (as_records s)) \<and> (\<forall>p \<in> set (as_records s). record_ok sha running s p)"

lemma books_kept: "kept_books s t \<Longrightarrow> books sha running s \<Longrightarrow> books sha running t"
  unfolding books_def
  by (auto 0 3 simp: kept_books_def ledger_ok_def quotas_ok_def billed_def capture_ok_def record_ok_def split: prod.splits)

lemma books_quotas: "books sha running s \<Longrightarrow> ledger_ok s \<and> quotas_ok s"
  by (simp add: books_def)

section \<open>Discarding keeps the books\<close>

lemma releaseReservation_sel [simp]:
  "as_disk (releaseReservation i tok s) = as_disk s" "as_records (releaseReservation i tok s) = as_records s"
  "as_captures (releaseReservation i tok s) = as_captures s" "as_inflight (releaseReservation i tok s) = as_inflight s"
  "as_discardedInflight (releaseReservation i tok s) = as_discardedInflight s" "as_cfg (releaseReservation i tok s) = as_cfg s"
  "as_activeCaptures (releaseReservation i tok s) = as_activeCaptures s"
  "as_closeRequested (releaseReservation i tok s) = as_closeRequested s" "as_unhealthy (releaseReservation i tok s) = as_unhealthy s"
  by (simp_all add: releaseReservation_def Let_def split: option.split)

lemma releaseStage_sel [simp]:
  "as_disk (releaseStage i tok s) = as_disk s" "as_records (releaseStage i tok s) = as_records s"
  "as_captures (releaseStage i tok s) = as_captures s" "as_inflight (releaseStage i tok s) = as_inflight s"
  "as_discardedInflight (releaseStage i tok s) = as_discardedInflight s" "as_cfg (releaseStage i tok s) = as_cfg s"
  "as_activeCaptures (releaseStage i tok s) = as_activeCaptures s"
  "as_closeRequested (releaseStage i tok s) = as_closeRequested s" "as_unhealthy (releaseStage i tok s) = as_unhealthy s"
  by (simp_all add: releaseStage_def split: option.split)

lemma releaseReservation_map:
  "reserved i tok s = Some rv \<Longrightarrow> as_reservations (releaseReservation i tok s) = alist_del i (as_reservations s)"
  by (simp add: releaseReservation_def Let_def)

lemma books_ledgers: "books sha running s \<Longrightarrow> ledger_ok s" "books sha running s \<Longrightarrow> quotas_ok s"
  by (simp_all add: books_def)

lemma books_billed: "books sha running s \<Longrightarrow> billed s"
  by (simp add: books_def)

lemma books_capture: "books sha running s \<Longrightarrow> cp \<in> set (as_captures s) \<Longrightarrow> capture_ok sha s cp"
  by (simp add: books_def)

lemma books_record: "books sha running s \<Longrightarrow> (i, r) \<in> set (as_records s) \<Longrightarrow> record_ok sha running s (i, r)"
  by (simp add: books_def)

lemma books_flight:
  "books sha running s \<Longrightarrow> distinct (map cp_id (as_captures s)) \<and>
     cp_id ` set (as_captures s) = as_inflight s - set_option running \<and> set_option running \<subseteq> as_inflight s \<and>
     as_discardedInflight s \<subseteq> as_inflight s \<and>
     as_activeCaptures s = int (length (as_captures s)) + (if running = None then 0 else 1)"
  by (simp add: books_def)

lemma books_keys: "books sha running s \<Longrightarrow> distinct (map fst (as_records s))"
  by (simp add: books_def)

lemma booksI:
  assumes "ledger_ok s" "quotas_ok s" "billed s"
    and "distinct (map cp_id (as_captures s)) \<and>
     cp_id ` set (as_captures s) = as_inflight s - set_option running \<and> set_option running \<subseteq> as_inflight s \<and>
     as_discardedInflight s \<subseteq> as_inflight s \<and>
     as_activeCaptures s = int (length (as_captures s)) + (if running = None then 0 else 1)"
    and "\<And>cp. cp \<in> set (as_captures s) \<Longrightarrow> capture_ok sha s cp"
    and "distinct (map fst (as_records s))" and "\<And>i r. (i, r) \<in> set (as_records s) \<Longrightarrow> record_ok sha running s (i, r)"
  shows "books sha running s"
  using assms by (auto simp: books_def)

lemma in_alist_put:
  assumes "distinct (map fst xs)"
  shows "(j, q) \<in> set (alist_put i v xs) \<longleftrightarrow> (if j = i then q = v else (j, q) \<in> set xs)"
  using map_of_eq_Some_iff [OF assms, of j q] map_of_eq_Some_iff [OF distinct_alist_put [OF assms], of i v j q]
  by auto

lemma names_of: "as_disk s \<inter> {(i, Pdf), (i, Part)} = {} \<Longrightarrow> n \<in> as_disk s \<Longrightarrow> fst n \<noteq> i"
  by (cases n; cases "snd n") auto

lemma absent_key: "(j, r) \<in> set xs \<Longrightarrow> map_of xs i = None \<Longrightarrow> j \<noteq> i"
  by (auto simp: map_of_eq_None_iff rev_image_eqI)

lemma uncaptured:
  "books sha running s \<Longrightarrow> map_of (as_reservations s) i = Some rv \<Longrightarrow> \<not> rv_staging rv \<Longrightarrow>
    i \<notin> cp_id ` set (as_captures s)"
  by (auto simp: capture_ok_def dest!: books_capture)

lemma books_drop:
  assumes b: "books sha running s" and rv: "map_of (as_reservations s) i = Some rv" "\<not> rv_staging rv"
    and gone: "i \<notin> cp_id ` set (as_captures s)" "map_of (as_records s) i = None" "as_disk s \<inter> {(i, Pdf), (i, Part)} = {}"
  shows "books sha running (releaseReservation i (rv_token rv) s)" (is "books sha running ?t")
proof (rule booksI)
  have res: "reserved i (rv_token rv) s = Some rv" using rv by (simp add: reserved_def)
  note map = releaseReservation_map [OF res]
  show "ledger_ok ?t" "quotas_ok ?t"
    using ledger_releaseReservation [of s i "rv_token rv"] books_ledgers [OF b] res rv(2) by auto
  show "billed ?t"
    using books_billed [OF b] names_of [OF gone(3)] by (auto simp: billed_def map)
  show "capture_ok sha ?t cp" if "cp \<in> set (as_captures ?t)" for cp
    using books_capture [OF b, of cp] that gone(1) by (auto simp: capture_ok_def map)
  show "record_ok sha running ?t (j, r)" if "(j, r) \<in> set (as_records ?t)" for j r
    using books_record [OF b, of j r] absent_key [OF _ gone(2), of j r] that by (simp add: record_ok_def map)
qed (use books_flight [OF b] books_keys [OF b] in simp_all)

lemma books_releaseDiscarded:
  assumes b: "books sha None s" and gone: "as_disk s \<inter> {(i, Pdf), (i, Part)} = {}"
    and d: "d = (map_of (as_records s) i \<noteq> None, i \<in> as_inflight s \<and> i \<notin> as_discardedInflight s)"
  shows "books sha None (releaseDiscarded i d closeOwned s)"
proof -
  obtain existed newly where d': "d = (existed, newly)" by (cases d)
  define s3 where "s3 = s\<lparr>as_records := (if existed then alist_del i (as_records s) else as_records s),
    as_discardedInflight := (if newly then insert i (as_discardedInflight s) else as_discardedInflight s),
    as_notified := (if existed \<or> newly then as_notified s @ [(i, closeOwned)] else as_notified s)\<rparr>"
  have def: "releaseDiscarded i d closeOwned s = (case map_of (as_reservations s3) i of None \<Rightarrow> s3
      | Some rv \<Rightarrow> if rv_staging rv then s3 else releaseReservation i (rv_token rv) s3)"
    by (cases existed; cases newly) (simp_all add: releaseDiscarded_def d' s3_def Let_def split: option.split)
  have norec: "map_of (as_records s3) i = None"
    using d d' by (auto simp: s3_def)
  have subset: "set (as_records s3) \<subseteq> set (as_records s)"
    by (auto simp: s3_def alist_del_def)
  have b3: "books sha None s3"
  proof (rule booksI)
    show "ledger_ok s3" "quotas_ok s3" using books_ledgers [OF b] by (simp_all add: s3_def ledger_ok_def quotas_ok_def)
    show "billed s3" using books_billed [OF b] by (simp add: s3_def billed_def)
    show "capture_ok sha s3 cp" if "cp \<in> set (as_captures s3)" for cp
      using books_capture [OF b, of cp] that gone by (simp add: s3_def capture_ok_def)
    show "record_ok sha None s3 (j, r)" if "(j, r) \<in> set (as_records s3)" for j r
      using books_record [OF b, of j r] subsetD [OF subset that] by (simp add: s3_def record_ok_def)
    show "distinct (map fst (as_records s3))" using books_keys [OF b] by (simp add: s3_def distinct_alist_del)
  qed (use books_flight [OF b] d d' in \<open>auto simp: s3_def\<close>)
  have cap: "\<not> rv_staging rv \<Longrightarrow> map_of (as_reservations s3) i = Some rv \<Longrightarrow> i \<notin> cp_id ` set (as_captures s3)" for rv
    using uncaptured [OF b3] by blast
  show ?thesis
    unfolding def using b3 norec gone cap
    by (auto split: option.split intro!: books_drop) (auto simp: s3_def)
qed

lemma books_discardOwned:
  assumes "books sha None s"
  shows "books sha None (snd (discardOwned fa i s))"
proof -
  obtain r t where d: "deletePhysical fa i s = (r, t)" by (meson surj_pair)
  note k = deletePhysical_kept [OF d]
  have t: "books sha None t" using books_kept [OF k(1) assms] .
  show ?thesis
  proof (cases r)
    case None
    then show ?thesis using d t by (simp add: discardOwned_def)
  next
    case (Some x)
    have "books sha None (releaseDiscarded i x False t)"
      by (rule books_releaseDiscarded [OF t]) (use k(1) k(2) [OF Some] in \<open>auto simp: kept_books_def\<close>)
    then show ?thesis using d Some by (simp add: discardOwned_def)
  qed
qed

lemma books_discard: "books sha None s \<Longrightarrow> books sha None (snd (discardArtifactDetailed fa i s))"
  using books_discardOwned [of sha s fa i] by (auto simp: discardArtifactDetailed_def split: prod.split)

lemma books_reap: "books sha None s \<Longrightarrow> books sha None (reapExpired now fa s)"
proof -
  have "books sha None s \<Longrightarrow> books sha None
      (fold (\<lambda>(i, rec) t. if now \<ge> sr_expiresAt rec then snd (discardArtifactDetailed (fa i) i t) else t) xs s)" for xs s
    by (induction xs arbitrary: s) (auto simp: books_discard)
  then show "books sha None s \<Longrightarrow> ?thesis" by (simp add: reapExpired_def)
qed

lemma books_cong:
  assumes "books sha running s"
    and "as_cfg t = as_cfg s" "as_reservations t = as_reservations s" "as_consumerLedger t = as_consumerLedger s"
      "as_ledgerCount t = as_ledgerCount s" "as_ledgerBytes t = as_ledgerBytes s" "as_stagePermits t = as_stagePermits s"
      "as_inflight t = as_inflight s" "as_discardedInflight t = as_discardedInflight s" "as_records t = as_records s"
      "as_captures t = as_captures s" "as_activeCaptures t = as_activeCaptures s" "as_disk t = as_disk s"
      "as_notified t = as_notified s" "as_unhealthy t = as_unhealthy s" "as_closeRequested s \<longrightarrow> as_closeRequested t"
  shows "books sha running t"
  by (rule books_kept [OF _ assms(1)]) (simp add: kept_books_def assms(2-))

lemma books_cleanup:
  assumes "books sha None s" shows "books sha None (runCleanupPass now fa s)"
proof -
  have *: "books sha None (s\<lparr>as_cleanupTimer := False\<rparr>)" by (rule books_cong [OF assms]) simp_all
  have "books sha None (t\<lparr>as_cleanupTimer := True\<rparr>)" if "books sha None t" for t
    by (rule books_cong [OF that]) simp_all
  then show ?thesis using * books_reap [OF *] by (simp add: runCleanupPass_def Let_def)
qed

section \<open>Closing keeps the books\<close>


lemma sweep_kept:
  "sweep_records fa is s = (ok, swept, t) \<Longrightarrow> distinct is \<Longrightarrow>
     kept_books s t \<and> distinct (map fst swept) \<and> fst ` set swept \<subseteq> set is \<and>
     (\<forall>(i, d) \<in> set swept. d = (map_of (as_records s) i \<noteq> None, i \<in> as_inflight s \<and> i \<notin> as_discardedInflight s))"
proof (induction "is" arbitrary: s ok swept)
  case (Cons i js)
  obtain r s1 where d: "deletePhysical (fa i) i s = (r, s1)" by (meson surj_pair)
  obtain ok' swept' s2 where rest: "sweep_records fa js s1 = (ok', swept', s2)" by (metis prod_cases3)
  have swept: "swept = (case r of None \<Rightarrow> swept' | Some x \<Rightarrow> (i, x) # swept')" and t: "t = s2"
    using Cons.prems(1) d rest by (auto split: option.splits)
  note k = deletePhysical_kept [OF d]
  have ih: "kept_books s1 t \<and> distinct (map fst swept') \<and> fst ` set swept' \<subseteq> set js \<and>
     (\<forall>(i, d) \<in> set swept'. d = (map_of (as_records s1) i \<noteq> None, i \<in> as_inflight s1 \<and> i \<notin> as_discardedInflight s1))"
    using Cons.IH [of s1 ok' swept'] rest Cons.prems(2) t by simp
  have same: "as_records s1 = as_records s" "as_inflight s1 = as_inflight s" "as_discardedInflight s1 = as_discardedInflight s"
    using k(1) by (simp_all add: kept_books_def)
  have "kept_books s t" using ih kept_trans [OF k(1)] by blast
  moreover have "i \<notin> set js" using Cons.prems(2) by simp
  ultimately show ?case
    using ih k(2) same by (auto simp: swept split: option.splits)
qed simp

lemma releaseDiscarded_sel:
  "as_disk (releaseDiscarded i d c s) = as_disk s" "as_inflight (releaseDiscarded i d c s) = as_inflight s"
  "as_records (releaseDiscarded i d c s) = (if fst d then alist_del i (as_records s) else as_records s)"
  "as_discardedInflight (releaseDiscarded i d c s) = (if snd d then insert i (as_discardedInflight s) else as_discardedInflight s)"
  by (cases d; cases "fst d"; cases "snd d"; simp add: releaseDiscarded_def Let_def split: option.split)+

lemma books_release_all:
  "books sha None s \<Longrightarrow> as_disk s = {} \<Longrightarrow> distinct (map fst swept) \<Longrightarrow>
   (\<forall>(i, d) \<in> set swept. d = (map_of (as_records s) i \<noteq> None, i \<in> as_inflight s \<and> i \<notin> as_discardedInflight s)) \<Longrightarrow>
   books sha None (fold (\<lambda>(i, d). releaseDiscarded i d True) swept s)"
proof (induction swept arbitrary: s)
  case (Cons p swept)
  obtain i d where p: "p = (i, d)" by (cases p)
  let ?s1 = "releaseDiscarded i d True s"
  have s1: "books sha None ?s1"
    by (rule books_releaseDiscarded [OF Cons.prems(1)]) (use Cons.prems(2,4) p in auto)
  have keep: "j \<noteq> i \<Longrightarrow> map_of (as_records ?s1) j = map_of (as_records s) j \<and>
      (j \<in> as_discardedInflight ?s1) = (j \<in> as_discardedInflight s)" for j
    by (simp add: releaseDiscarded_sel)
  have "\<forall>(j, e) \<in> set swept. j \<noteq> i" using Cons.prems(3) p by (auto simp: rev_image_eqI)
  then have "\<forall>(j, e) \<in> set swept.
      e = (map_of (as_records ?s1) j \<noteq> None, j \<in> as_inflight ?s1 \<and> j \<notin> as_discardedInflight ?s1)"
    using Cons.prems(4) keep by (fastforce simp: releaseDiscarded_sel(2))
  then have "books sha None (fold (\<lambda>(i, d). releaseDiscarded i d True) swept ?s1)"
    using Cons.prems(2,3) by (intro Cons.IH [OF s1]) (simp_all add: releaseDiscarded_sel(1))
  then show ?case by (simp add: p)
qed simp

lemma kept_teardown: "store_teardown ca s = (ok, t) \<Longrightarrow> kept_books s t \<and> (ok \<longrightarrow> as_disk t = {})"
  by (auto simp: store_teardown_def Let_def kept_books_def split: if_splits)

lemma kept_resolve [frames]: "kept_books s (resolve_close r s)"
  by (simp add: resolve_close_def kept_books_def)

lemma kept_closeDescriptors [frames]: "kept_books s (closeDescriptors s)"
  by (simp add: closeDescriptors_def kept_books_def)

lemma kept_close_end: "kept_books s (resolve_close r (closeDescriptors s))"
  by (rule kept_trans [OF kept_closeDescriptors kept_resolve])

lemma kept_close_failed: "kept_books s (resolve_close r (closeDescriptors (markUnhealthy s)))"
  by (rule kept_trans [OF kept_markUnhealthy kept_close_end])

text \<open>The four ways a close can end, for every proof that follows one.\<close>

definition swept_to :: "close_answers \<Rightarrow> artifact_store \<Rightarrow> artifact_store \<Rightarrow> bool" where
  "swept_to ca s t \<longleftrightarrow> t = s \<or> (\<exists>names. t = snd (strictDelete (ca_sweep ca) names s))"

lemma finishClose_cases:
  obtains (idle) "\<not> as_closeRequested s \<or> as_activeCaptures s \<noteq> 0 \<or> as_disposed s \<or> as_teardownStarted s"
      "finishClose ca s = s"
  | (lost) s1 where "identityProven (ca_identity ca) (s\<lparr>as_teardownStarted := True\<rparr>) = (False, s1)"
      "finishClose ca s = resolve_close (Some CleanupFailed) (closeDescriptors s1)"
  | (failed) s1 c swept s2 u v where "identityProven (ca_identity ca) (s\<lparr>as_teardownStarted := True\<rparr>) = (True, s1)"
      "sweep_records (ca_fs ca) (map fst (as_records s1)) s1 = (c, swept, s2)"
      "swept_to ca s2 u" "v = u \<or> v = snd (store_teardown ca u)"
      "finishClose ca s = resolve_close (Some CleanupFailed) (closeDescriptors (markUnhealthy v))"
  | (clean) s1 swept s2 names s3 s4 where
      "identityProven (ca_identity ca) (s\<lparr>as_teardownStarted := True\<rparr>) = (True, s1)"
      "sweep_records (ca_fs ca) (map fst (as_records s1)) s1 = (True, swept, s2)"
      "strictDelete (ca_sweep ca) names s2 = (True, s3)" "store_teardown ca s3 = (True, s4)"
      "finishClose ca s = resolve_close None (closeDescriptors (fold (\<lambda>(i, d). releaseDiscarded i d True) swept s4))"
proof (cases "\<not> as_closeRequested s \<or> as_activeCaptures s \<noteq> 0 \<or> as_disposed s \<or> as_teardownStarted s")
  case True
  then show ?thesis by (intro idle) (simp_all add: finishClose_def)
next
  case open_: False
  obtain ok s1 where s1: "identityProven (ca_identity ca) (s\<lparr>as_teardownStarted := True\<rparr>) = (ok, s1)" by (meson surj_pair)
  obtain c swept s2 where s2: "sweep_records (ca_fs ca) (map fst (as_records s1)) s1 = (c, swept, s2)"
    by (metis prod_cases3)
  have broke: ?thesis if "ok" "swept_to ca s2 u" "v = u \<or> v = snd (store_teardown ca u)"
    "finishClose ca s = resolve_close (Some CleanupFailed) (closeDescriptors (markUnhealthy v))" for u v
    using failed [of s1 c swept s2 u v] s1 s2 that by simp
  consider "\<not> ok" | "ok" "ca_entries ca = None" | names where "ok" "ca_entries ca = Some names" by blast
  then show ?thesis
  proof cases
    case 1
    then show ?thesis using lost s1 open_ by (simp add: finishClose_def)
  next
    case 2
    then have "finishClose ca s = resolve_close (Some CleanupFailed) (closeDescriptors (markUnhealthy s2))"
      using s1 s2 open_ by (simp add: finishClose_def Let_def)
    then show ?thesis using broke [OF 2(1), of s2 s2] by (simp add: swept_to_def)
  next
    case 3
    obtain c' s3 where s3: "(if ca_fails ca DeleteFiles then (False, s2) else strictDelete (ca_sweep ca) names s2) = (c', s3)"
      by (meson surj_pair)
    have u: "swept_to ca s2 s3" using s3 by (cases "ca_fails ca DeleteFiles") (auto simp: swept_to_def intro: exI [of _ names])
    obtain ok4 s4 where s4: "store_teardown ca s3 = (ok4, s4)" by (meson surj_pair)
    have eq: "finishClose ca s = (if \<not> (c \<and> c') then resolve_close (Some CleanupFailed) (closeDescriptors (markUnhealthy s3))
       else if ca_fails ca FsyncData \<or> \<not> as_dataOpen s3 then resolve_close (Some CleanupFailed) (closeDescriptors (markUnhealthy s3))
       else if \<not> ok4 then resolve_close (Some CleanupFailed) (closeDescriptors (markUnhealthy s4))
       else resolve_close None (closeDescriptors (fold (\<lambda>(i, d). releaseDiscarded i d True) swept s4)))"
      using 3 open_ s1 s2 s3 s4 by (simp add: finishClose_def Let_def)
    show ?thesis
    proof (cases "c \<and> c' \<and> \<not> (ca_fails ca FsyncData \<or> \<not> as_dataOpen s3) \<and> ok4")
      case True
      then show ?thesis using clean 3(1) s1 s2 s3 s4 eq by (auto split: if_splits)
    next
      case False
      then have "finishClose ca s = resolve_close (Some CleanupFailed) (closeDescriptors (markUnhealthy s3)) \<or>
          finishClose ca s = resolve_close (Some CleanupFailed) (closeDescriptors (markUnhealthy s4))" using eq False by presburger
      then show ?thesis using broke [OF 3(1) u] s4 by auto
    qed
  qed
qed

lemma books_finishClose:
  assumes b: "books sha None s"
  shows "books sha None (finishClose ca s)"
proof -
  have b0: "books sha None (s\<lparr>as_teardownStarted := True\<rparr>)" by (rule books_cong [OF b]) simp_all
  have b1: "books sha None s1" if "identityProven (ca_identity ca) (s\<lparr>as_teardownStarted := True\<rparr>) = (ok, s1)" for ok s1
    using books_kept [OF kept_identityProven [OF that] b0] .
  show ?thesis
  proof (cases rule: finishClose_cases [of s ca])
    case idle
    then show ?thesis using b by simp
  next
    case (lost s1)
    then show ?thesis using books_kept [OF kept_close_end b1 [OF lost(1)]] by simp
  next
    case (failed s1 c swept s2 u v)
    have k2: "kept_books s1 s2" using sweep_kept [OF failed(2) books_keys [OF b1 [OF failed(1)]]] by blast
    have k3: "kept_books s1 u" using failed(3) k2 kept_trans [OF k2 kept_strictDelete(1)] by (metis swept_to_def surjective_pairing)
    have "kept_books s1 v" using failed(4) k3 kept_trans [OF k3 conjunct1 [OF kept_teardown [OF prod.collapse [symmetric]]]] by auto
    then show ?thesis using books_kept [OF kept_trans [OF _ kept_close_failed] b1 [OF failed(1)]] failed(5) by simp
  next
    case (clean s1 swept s2 names s3 s4)
    note sw = sweep_kept [OF clean(2) books_keys [OF b1 [OF clean(1)]]] and td = kept_teardown [OF clean(4)]
    have k4: "kept_books s1 s4"
      by (rule kept_trans [OF kept_trans [OF conjunct1 [OF sw] kept_strictDelete(1) [OF clean(3)]] conjunct1 [OF td]])
    show ?thesis unfolding clean(5)
    proof (rule books_kept [OF kept_close_end], rule books_release_all [OF books_kept [OF k4 b1 [OF clean(1)]]])
      show "as_disk s4 = {}" using td by simp
      show "distinct (map fst swept)" using sw by simp
      show "\<forall>(i, d) \<in> set swept. d = (map_of (as_records s4) i \<noteq> None, i \<in> as_inflight s4 \<and> i \<notin> as_discardedInflight s4)"
        using sw k4 by (auto simp: kept_books_def)
    qed
  qed
qed

lemma kept_settled_close: "kept_books s (settleResponses (cancelTimers s))"
  by (rule kept_trans [OF kept_cancelTimers kept_settleResponses])

lemma books_close:
  assumes "books sha None s" shows "books sha None (close_store ca s)"
proof -
  have b: "books sha None (settleResponses (cancelTimers s))" by (rule books_kept [OF kept_settled_close assms])
  have "books sha None (settleResponses (cancelTimers s)\<lparr>as_closeResult := r\<rparr>)" for r
    by (rule books_cong [OF b]) simp_all
  moreover have "books sha None (settleResponses (cancelTimers s)\<lparr>as_closeRequested := True\<rparr>)"
    by (rule books_cong [OF b]) simp_all
  ultimately show ?thesis using assms books_finishClose by (simp add: close_store_def)
qed

section \<open>A capture's segments keep the books\<close>

definition running_capture :: "string \<Rightarrow> nat \<Rightarrow> string \<Rightarrow> nat \<Rightarrow> artifact_store \<Rightarrow> bool" where
  "running_capture i tok cid n s \<longleftrightarrow>
     (\<exists>rv. map_of (as_reservations s) i = Some rv \<and> rv_token rv = tok \<and> rv_staging rv \<and>
           rv_consumerId rv = cid \<and> rv_bytes rv = n)"

lemma running_kept: "kept_books s t \<Longrightarrow> running_capture i tok cid n s \<Longrightarrow> running_capture i tok cid n t"
  by (simp add: running_capture_def kept_books_def)

lemma releaseStage_map:
  "reserved i tok s = Some rv \<Longrightarrow> rv_staging rv \<Longrightarrow>
    as_reservations (releaseStage i tok s) = alist_put i (rv\<lparr>rv_staging := False\<rparr>) (as_reservations s)"
  by (simp add: releaseStage_def)

lemma books_finally:
  assumes b: "books sha (Some i) s" and run: "running_capture i tok cid n s"
    and drop: "\<not> keep \<Longrightarrow> map_of (as_records s) i = None"
    and gone: "\<not> keep \<Longrightarrow> \<not> as_closeRequested s \<Longrightarrow> \<not> as_unhealthy s \<Longrightarrow> as_disk s \<inter> {(i, Pdf), (i, Part)} = {}"
  shows "books sha None (capture_finally ca i tok keep s)"
proof -
  obtain rv where rv: "map_of (as_reservations s) i = Some rv" "rv_token rv = tok" "rv_staging rv"
    using run by (auto simp: running_capture_def)
  let ?s1 = "releaseStage i tok s"
  let ?rv = "rv\<lparr>rv_staging := False\<rparr>"
  have res: "reserved i tok s = Some rv" using rv by (simp add: reserved_def)
  have map1: "as_reservations ?s1 = alist_put i ?rv (as_reservations s)" using releaseStage_map [OF res rv(3)] .
  have res1: "reserved i tok ?s1 = Some ?rv" using rv by (simp add: reserved_def map1)
  define s2 where "s2 = (if keep then ?s1 else releaseReservation i tok ?s1)"
  define s3 where "s3 = s2\<lparr>as_discardedInflight := as_discardedInflight s2 - {i}, as_inflight := as_inflight s2 - {i},
                  as_activeCaptures := as_activeCaptures s2 - 1\<rparr>"
  have sel: "as_disk s3 = as_disk s" "as_records s3 = as_records s" "as_captures s3 = as_captures s" "as_cfg s3 = as_cfg s"
    "as_closeRequested s3 = as_closeRequested s" "as_unhealthy s3 = as_unhealthy s"
    "as_inflight s3 = as_inflight s - {i}" "as_discardedInflight s3 = as_discardedInflight s - {i}"
    "as_activeCaptures s3 = as_activeCaptures s - 1"
    by (simp_all add: s3_def s2_def)
  have look: "map_of (as_reservations s3) j = (if j = i then (if keep then Some ?rv else None) else map_of (as_reservations s) j)" for j
    using releaseReservation_map [OF res1] by (simp add: s3_def s2_def map1)
  have out: "i \<notin> cp_id ` set (as_captures s)" using books_flight [OF b] by simp
  have "books sha None s3"
  proof (rule booksI)
    have ls: "ledger_ok ?s1" "quotas_ok ?s1"
      using ledger_releaseStage [of s i tok] books_ledgers [OF b] by auto
    have "ledger_ok s2" "quotas_ok s2"
      using ls ledger_releaseReservation [OF ls(1), of i tok] res1 by (auto simp: s2_def)
    then show "ledger_ok s3" "quotas_ok s3" by (simp_all add: s3_def ledger_ok_def quotas_ok_def)
    show "billed s3"
      using books_billed [OF b] names_of [of s i] gone by (auto simp: billed_def sel look)
    show "capture_ok sha s3 cp" if "cp \<in> set (as_captures s3)" for cp
      using books_capture [OF b, of cp] that out by (auto simp: capture_ok_def sel look)
    show "record_ok sha None s3 (j, r)" if "(j, r) \<in> set (as_records s3)" for j r
      using books_record [OF b, of j r] that absent_key [of j r "as_records s" i] drop rv(1)
      by (auto simp: record_ok_def sel look)
    show "distinct (map fst (as_records s3))" using books_keys [OF b] by (simp add: sel)
  qed (use books_flight [OF b] in \<open>auto simp: sel\<close>)
  moreover have "capture_finally ca i tok keep s =
      (if as_closeRequested s3 \<and> as_activeCaptures s3 = 0 then finishClose ca s3 else s3)"
    by (simp add: capture_finally_def s3_def s2_def Let_def)
  ultimately show ?thesis using books_finishClose by simp
qed

lemma books_capture_failed:
  assumes b: "books sha (Some i) s" and run: "running_capture i tok cid n s" and new: "map_of (as_records s) i = None"
    and names: "\<not> as_closeRequested s \<Longrightarrow> \<not> as_unhealthy s \<Longrightarrow> as_disk s \<inter> {(i, Pdf), (i, Part)} \<subseteq> set names"
  shows "books sha None (snd (capture_failed fa ca names i tok s))"
proof -
  obtain ok t where t: "strictDelete fa names s = (ok, t)" by (meson surj_pair)
  note k = kept_strictDelete [OF t]
  have recs: "map_of (as_records t) i = None" using k(1) new by (simp add: kept_books_def)
  show ?thesis
  proof (cases ok)
    case True
    have "books sha None (capture_finally ca i tok False t)"
      by (rule books_finally [OF books_kept [OF k(1) b] running_kept [OF k(1) run] recs])
        (use k True names in \<open>auto simp: kept_books_def\<close>)
    then show ?thesis using t True by (simp add: capture_failed_def)
  next
    case False
    have km: "kept_books s (markUnhealthy t)" using kept_trans [OF k(1) kept_markUnhealthy] .
    have "books sha None (capture_finally ca i tok True (markUnhealthy t))"
      by (rule books_finally [OF books_kept [OF km b] running_kept [OF km run]]) simp_all
    then show ?thesis using t False by (simp add: capture_failed_def)
  qed
qed

lemma unbilled:
  "books sha running s \<Longrightarrow> map_of (as_reservations s) i = None \<Longrightarrow> \<not> as_closeRequested s \<Longrightarrow> \<not> as_unhealthy s \<Longrightarrow>
     as_disk s \<inter> {(i, Pdf), (i, Part)} = {}"
  by (drule books_billed) (fastforce simp: billed_def)

lemma reserve_sel:
  "reserve i cid s = (r, t) \<Longrightarrow>
     as_disk t = as_disk s \<and> as_records t = as_records s \<and> as_captures t = as_captures s \<and> as_inflight t = as_inflight s \<and>
     as_discardedInflight t = as_discardedInflight s \<and> as_cfg t = as_cfg s \<and> as_activeCaptures t = as_activeCaptures s \<and>
     as_closeRequested t = as_closeRequested s \<and> as_unhealthy t = as_unhealthy s \<and> as_identityLost t = as_identityLost s"
  by (auto simp: reserve_def Let_def split: if_splits prod.splits)

lemma reserve_map:
  "reserve i cid s = (Some tok, t) \<Longrightarrow> map_of (as_reservations s) i = None \<and> tok = as_next s \<and> as_next t = Suc tok \<and>
     as_reservations t = alist_put i \<lparr>rv_token = tok, rv_consumerId = cid, rv_bytes = MAX_ARTIFACT_BYTES, rv_staging = True\<rparr>
       (as_reservations s)"
  by (auto simp: reserve_def Let_def split: if_splits prod.splits)

lemma reserve_None: "reserve i cid s = (None, t) \<Longrightarrow> t = s"
  by (auto simp: reserve_def Let_def split: if_splits prod.splits)

lemma books_reserved:
  assumes b: "books sha None s" and r: "reserve i cid s = (Some tok, s1)" and new: "i \<notin> as_inflight s"
  defines "t \<equiv> s1\<lparr>as_inflight := insert i (as_inflight s1), as_activeCaptures := as_activeCaptures s1 + 1\<rparr>"
  shows "books sha (Some i) t" and "running_capture i tok cid MAX_ARTIFACT_BYTES t"
proof -
  note sel = reserve_sel [OF r]
  note rm = reserve_map [OF r]
  have none: "map_of (as_reservations s) i = None" using rm by simp
  show "running_capture i tok cid MAX_ARTIFACT_BYTES t" using rm by (simp add: t_def running_capture_def)
  show "books sha (Some i) t"
  proof (rule booksI)
    show "ledger_ok t" "quotas_ok t"
      using ledger_reserve [of s, OF _ r] books_ledgers [OF b] by (auto simp: t_def ledger_ok_def quotas_ok_def)
    show "billed t" using books_billed [OF b] sel rm by (auto simp: t_def billed_def)
    show "capture_ok sha t cp" if "cp \<in> set (as_captures t)" for cp
    proof -
      have "cp_id cp \<noteq> i" using that new books_flight [OF b] sel by (auto simp: t_def)
      then show ?thesis using books_capture [OF b, of cp] that sel rm by (simp add: t_def capture_ok_def)
    qed
    show "record_ok sha (Some i) t (j, r)" if "(j, r) \<in> set (as_records t)" for j r
    proof -
      have "record_ok sha None s (j, r)" using books_record [OF b, of j r] that sel by (simp add: t_def)
      moreover from this have "j \<noteq> i" using none by (auto simp: record_ok_def)
      ultimately show ?thesis using sel rm by (simp add: t_def record_ok_def)
    qed
    show "distinct (map fst (as_records t))" using books_keys [OF b] sel by (simp add: t_def)
  qed (use books_flight [OF b] new sel in \<open>auto simp: t_def\<close>)
qed

lemma identityProven_True: "identityProven ids s = (True, t) \<Longrightarrow> t = s"
  by (auto simp: identityProven_def split: if_splits)

lemma shrink_sel [simp]:
  "as_disk (shrinkReservation i tok n s) = as_disk s" "as_records (shrinkReservation i tok n s) = as_records s"
  "as_captures (shrinkReservation i tok n s) = as_captures s" "as_inflight (shrinkReservation i tok n s) = as_inflight s"
  "as_discardedInflight (shrinkReservation i tok n s) = as_discardedInflight s" "as_cfg (shrinkReservation i tok n s) = as_cfg s"
  "as_activeCaptures (shrinkReservation i tok n s) = as_activeCaptures s"
  "as_closeRequested (shrinkReservation i tok n s) = as_closeRequested s" "as_unhealthy (shrinkReservation i tok n s) = as_unhealthy s"
  by (simp_all add: shrinkReservation_def Let_def split: option.split)

lemma books_shrink:
  assumes b: "books sha (Some i) s" and run: "running_capture i tok cid n s" and m: "m \<le> n"
    and new: "map_of (as_records s) i = None"
  shows "books sha (Some i) (shrinkReservation i tok m s)" (is "books sha _ ?t")
    and "running_capture i tok cid m (shrinkReservation i tok m s)"
proof -
  obtain rv where rv: "map_of (as_reservations s) i = Some rv" "rv_token rv = tok" "rv_staging rv" "rv_bytes rv = n" "rv_consumerId rv = cid"
    using run by (auto simp: running_capture_def)
  have look: "map_of (as_reservations ?t) j = (if j = i then Some (rv\<lparr>rv_bytes := m\<rparr>) else map_of (as_reservations s) j)" for j
    using rv m by (auto simp: shrinkReservation_def reserved_def Let_def)
  show "running_capture i tok cid m ?t" using look rv by (simp add: running_capture_def)
  have out: "i \<notin> cp_id ` set (as_captures s)" using books_flight [OF b] by simp
  show "books sha (Some i) ?t"
  proof (rule booksI)
    show "ledger_ok ?t" "quotas_ok ?t" using ledger_shrink [of s i tok m] books_ledgers [OF b] by auto
    show "billed ?t" using books_billed [OF b] by (auto simp: billed_def look)
    show "capture_ok sha ?t cp" if "cp \<in> set (as_captures ?t)" for cp
      using books_capture [OF b, of cp] that out by (auto simp: capture_ok_def look)
    show "record_ok sha (Some i) ?t (j, r)" if "(j, r) \<in> set (as_records ?t)" for j r
      using books_record [OF b, of j r] absent_key [OF _ new, of j r] that by (simp add: record_ok_def look)
  qed (use books_flight [OF b] books_keys [OF b] in simp_all)
qed

lemma books_await:
  assumes b: "books sha (Some i) s" and run: "running_capture i (cp_token cp) (cp_consumerId cp) (length (cp_bytes cp)) s"
    and cp: "cp_id cp = i" "ARTIFACT_ID i" "of_pdf sha (length (cp_bytes cp)) (cp_sha256 cp)"
      "(i, if cp_phase cp = Staged then Pdf else Part) \<notin> as_disk s" "i \<notin> as_discardedInflight s"
    and new: "map_of (as_records s) i = None"
  shows "books sha None (s\<lparr>as_captures := as_captures s @ [cp]\<rparr>)" (is "books sha None ?t")
proof (rule booksI)
  have out: "i \<notin> cp_id ` set (as_captures s)" and inn: "i \<in> as_inflight s" using books_flight [OF b] by auto
  show "ledger_ok ?t" "quotas_ok ?t" using books_ledgers [OF b] by (simp_all add: ledger_ok_def quotas_ok_def)
  show "billed ?t" using books_billed [OF b] by (simp add: billed_def)
  show "capture_ok sha ?t c" if "c \<in> set (as_captures ?t)" for c
    using that books_capture [OF b, of c] run cp by (auto simp: capture_ok_def running_capture_def)
  show "record_ok sha None ?t (j, r)" if "(j, r) \<in> set (as_records ?t)" for j r
    using books_record [OF b, of j r] absent_key [OF _ new, of j r] that cp(1) by (auto simp: record_ok_def)
  show "distinct (map fst (as_records ?t))" using books_keys [OF b] by simp
  show "distinct (map cp_id (as_captures ?t)) \<and>
     cp_id ` set (as_captures ?t) = as_inflight ?t - set_option None \<and> set_option None \<subseteq> as_inflight ?t \<and>
     as_discardedInflight ?t \<subseteq> as_inflight ?t \<and>
     as_activeCaptures ?t = int (length (as_captures ?t)) + (if None = None then 0 else 1)"
    using books_flight [OF b] out inn cp(1) by auto
qed

lemma books_disk:
  assumes b: "books sha (Some i) s" and run: "running_capture i tok cid n s" and names: "fst ` (D - as_disk s) \<subseteq> {i}"
  shows "books sha (Some i) (s\<lparr>as_disk := D\<rparr>)" (is "books sha _ ?t")
    and "running_capture i tok cid n (s\<lparr>as_disk := D\<rparr>)"
proof -
  show "running_capture i tok cid n ?t" using run by (simp add: running_capture_def)
  show "books sha (Some i) ?t"
  proof (rule booksI)
  have i: "i \<notin> cp_id ` set (as_captures s)" using books_flight [OF b] by simp
  have other: "n \<in> D \<Longrightarrow> fst n \<noteq> i \<Longrightarrow> n \<in> as_disk s" for n using names by auto
  show "ledger_ok ?t" "quotas_ok ?t" using books_ledgers [OF b] by (simp_all add: ledger_ok_def quotas_ok_def)
  show "capture_ok sha ?t c" if "c \<in> set (as_captures ?t)" for c
  proof -
    have c: "c \<in> set (as_captures s)" using that by simp
    then have "cp_id c \<noteq> i" using i by auto
    then have "(cp_id c, x) \<in> D \<Longrightarrow> (cp_id c, x) \<in> as_disk s" for x using other [of "(cp_id c, x)"] by simp
    then show ?thesis using books_capture [OF b c] by (auto simp: capture_ok_def)
  qed
  have "map_of (as_reservations s) (fst m) \<noteq> None"
    if "m \<in> D" "\<not> as_closeRequested s" "\<not> as_unhealthy s" for m
    using that run books_billed [OF b] other [of m]
    by (cases "fst m = i") (auto simp: billed_def running_capture_def)
  then show "billed ?t" by (auto simp: billed_def)
  qed (use books_flight [OF b] books_keys [OF b] books_record [OF b] in \<open>auto simp: record_ok_def\<close>)
qed

lemma books_body:
  assumes b: "books sha (Some i) s" and run: "running_capture i tok cid MAX_ARTIFACT_BYTES s"
    and new: "map_of (as_records s) i = None" and i: "ARTIFACT_ID i" and gone: "as_disk s \<inter> {(i, Pdf), (i, Part)} = {}"
    and fresh: "i \<notin> as_discardedInflight s"
  shows "books sha None (snd (capture_body sha src sa i cid ttl tok s))"
proof -
  have leave: "books sha None (capture_finally (sa_close sa) i tok False t)"
    if "books sha (Some i) t" "running_capture i tok cid n t" "as_records t = as_records s" "as_disk t \<subseteq> as_disk s" for t n
    by (rule books_finally [OF that(1,2)]) (use that new gone in auto)
  have fails: "books sha None (snd (capture_failed (sa_undo sa) (sa_close sa) names i tok t))"
    if "books sha (Some i) t" "running_capture i tok cid n t" "as_records t = as_records s"
      "as_disk t \<inter> {(i, Pdf), (i, Part)} \<subseteq> set names" for t n names
    by (rule books_capture_failed [OF that(1,2)]) (use that new in auto)
  show ?thesis
  proof (cases "so_open src")
    case None
    then show ?thesis using fails [OF b run, of "[]"] gone by (simp add: capture_body_def Let_def)
  next
    case (Some q)
    obtain isFile sz where q: "q = (isFile, sz)" by (cases q)
    show ?thesis
    proof (cases "\<not> isFile \<or> sz > MAX_ARTIFACT_BYTES \<or> sz < length PDF_MAGIC")
      case True
      then show ?thesis using Some q leave [OF b run] by (auto simp: capture_body_def Let_def)
    next
      case ok: False
      let ?s1 = "shrinkReservation i tok sz s"
      have b1: "books sha (Some i) ?s1" and run1: "running_capture i tok cid sz ?s1"
        using books_shrink [OF b run _ new, of sz] ok by auto
      show ?thesis
      proof (cases "source_bytes src sz = None \<or> so_end src = None")
        case True
        then show ?thesis using Some q ok fails [OF b1 run1, of "[]"] gone
          by (auto simp: capture_body_def Let_def split: option.split)
      next
        case False
        then obtain buf endSize where buf: "source_bytes src sz = Some buf" "so_end src = Some endSize" by auto
        have len: "length buf = sz" using buf by (auto simp: source_bytes_def split: if_splits)
        obtain proven s2 where s2: "identityProven (sa_identity sa) ?s1 = (proven, s2)" by (meson surj_pair)
        have k2: "kept_books ?s1 s2" using kept_identityProven [OF s2] .
        have b2: "books sha (Some i) s2" and run2: "running_capture i tok cid sz s2"
          using books_kept [OF k2 b1] running_kept [OF k2 run1] .
        have sel2: "as_records s2 = as_records s" "as_disk s2 \<subseteq> as_disk s" "as_discardedInflight s2 = as_discardedInflight s"
          using k2 by (simp_all add: kept_books_def)
        let ?s3 = "s2\<lparr>as_disk := insert (i, Part) (as_disk s2)\<rparr>"
        have grow: "fst ` (insert (i, Part) (as_disk s2) - as_disk s2) \<subseteq> {i}" by auto
        note b3 = books_disk [OF b2 run2 grow]
        let ?cp = "\<lparr>cp_id = i, cp_consumerId = cid, cp_ttlMs = ttl, cp_token = tok, cp_phase = Staged, cp_bytes = buf,
          cp_sha256 = sha buf, cp_dev = st_dev (sa_stat sa), cp_ino = st_ino (sa_stat sa)\<rparr>"
        have pdf: "of_pdf sha (length buf) (sha buf)" if "take 5 buf = PDF_MAGIC"
          using that ok len by (auto simp: of_pdf_def)
        have await: "books sha None (?s3\<lparr>as_captures := as_captures ?s3 @ [?cp]\<rparr>)" if "take 5 buf = PDF_MAGIC"
          by (rule books_await [OF b3(1)]) (use b3(2) len i pdf [OF that] gone sel2 fresh new in auto)
        have f2: "books sha None (snd (capture_failed (sa_undo sa) (sa_close sa) [(i, Part)] i tok s2))"
          by (rule fails [OF b2 run2]) (use sel2 gone in auto)
        have f3: "books sha None (snd (capture_failed (sa_undo sa) (sa_close sa) [(i, Part)] i tok ?s3))"
          by (rule fails [OF b3]) (use sel2 gone in auto)
        have l1: "books sha None (capture_finally (sa_close sa) i tok False ?s1)" by (rule leave [OF b1 run1]) auto
        have l2: "books sha None (capture_finally (sa_close sa) i tok False s2)" by (rule leave [OF b2 run2]) (use sel2 in auto)
        show ?thesis
          using Some q ok buf s2 await f2 f3 l1 l2
          by (cases proven) (simp_all add: capture_body_def Let_def)
      qed
    qed
  qed
qed

lemma open_after_reserve:
  "reserve i cid s = (Some tok, t) \<Longrightarrow> as_identityLost t = as_identityLost s"
  using reserve_sel by blast

lemma books_capture_artifact:
  assumes "books sha None s"
  shows "books sha None (snd (capture_artifact sha now fa src sa opts s))"
proof (cases "co_id opts = None \<or> co_consumerId opts = None \<or> co_consumerId opts = Some [] \<or> co_ttlMs opts = Some None")
  case True
  then show ?thesis using assms by (auto simp: capture_artifact_def split: option.splits)
next
  case False
  then obtain i cid where ic: "co_id opts = Some i" "co_consumerId opts = Some cid" "cid \<noteq> []" "co_ttlMs opts \<noteq> Some None" by auto
  let ?s1 = "reapExpired now fa s"
  have b1: "books sha None ?s1" by (rule books_reap [OF assms])
  show ?thesis
  proof (cases "\<not> ARTIFACT_ID i \<or> (as_closeRequested ?s1 \<or> as_unhealthy ?s1 \<or> \<not> cf_enabled (as_cfg ?s1)) \<or>
      map_of (as_records ?s1) i \<noteq> None \<or> i \<in> as_inflight ?s1")
    case True
    then show ?thesis using ic b1 by (auto simp: capture_artifact_def Let_def)
  next
    case ok: False
    obtain r s2 where r: "reserve i cid ?s1 = (r, s2)" by (meson surj_pair)
    show ?thesis
    proof (cases r)
      case None
      then show ?thesis using ic ok r reserve_None [of i cid ?s1 s2] b1 by (auto simp: capture_artifact_def Let_def)
    next
      case (Some tok)
      let ?t = "s2\<lparr>as_inflight := insert i (as_inflight s2), as_activeCaptures := as_activeCaptures s2 + 1\<rparr>"
      have r': "reserve i cid ?s1 = (Some tok, s2)" using r Some by simp
      note sel = reserve_sel [OF r']
      have none: "map_of (as_reservations ?s1) i = None" using reserve_map [OF r'] by simp
      have "books sha None (snd (capture_body sha src sa i cid (Option.bind (co_ttlMs opts) id) tok ?t))"
      proof (rule books_body [OF books_reserved [OF b1 r']])
        show "i \<notin> as_inflight ?s1" "i \<notin> as_inflight ?s1" using ok by auto
        show "map_of (as_records ?t) i = None" "ARTIFACT_ID i" using ok sel by auto
        show "as_disk ?t \<inter> {(i, Pdf), (i, Part)} = {}" using unbilled [OF b1 none] ok sel by simp
        show "i \<notin> as_discardedInflight ?t" using ok sel books_flight [OF b1] by auto
      qed
      then show ?thesis using ic ok r' by (simp add: capture_artifact_def Let_def)
    qed
  qed
qed

lemma books_resume:
  assumes b: "books sha None s" and cp: "cp \<in> set (as_captures s)"
  shows "books sha (Some (cp_id cp)) (resume_capture cp s)"
    and "running_capture (cp_id cp) (cp_token cp) (cp_consumerId cp) (length (cp_bytes cp)) (resume_capture cp s)"
    and "map_of (as_records (resume_capture cp s)) (cp_id cp) = None"
proof -
  let ?i = "cp_id cp" and ?t = "resume_capture cp s"
  note fl = books_flight [OF b] and ok = books_capture [OF b cp]
  have "distinct (as_captures s)" using fl by (simp add: distinct_map)
  then have "as_captures ?t = filter (\<lambda>c. cp \<noteq> c) (as_captures s)"
    by (simp only: resume_capture_def distinct_remove1_removeAll removeAll_filter_not_eq) simp
  then have rest: "set (as_captures ?t) = set (as_captures s) - {cp}" "distinct (map cp_id (as_captures ?t))"
    using fl by (auto simp: distinct_map_filter)
  have ids: "cp_id ` set (as_captures ?t) = as_inflight s - {?i}"
    using fl rest cp inj_on_image_set_diff [of cp_id "set (as_captures s)" "set (as_captures s)" "{cp}"]
    by (simp add: distinct_map)
  show "running_capture ?i (cp_token cp) (cp_consumerId cp) (length (cp_bytes cp)) ?t"
    using ok by (auto simp: running_capture_def resume_capture_def capture_ok_def)
  show new: "map_of (as_records ?t) ?i = None"
  proof (rule ccontr)
    assume "\<not> ?thesis"
    then obtain r where "(?i, r) \<in> set (as_records s)" by (auto simp: resume_capture_def dest: map_of_SomeD)
    then show False using books_record [OF b] cp by (auto simp: record_ok_def)
  qed
  show "books sha (Some ?i) ?t"
  proof (rule booksI)
    show "ledger_ok ?t" "quotas_ok ?t" using books_ledgers [OF b] by (simp_all add: resume_capture_def ledger_ok_def quotas_ok_def)
    show "billed ?t" using books_billed [OF b] by (simp add: resume_capture_def billed_def)
    show "capture_ok sha ?t c" if "c \<in> set (as_captures ?t)" for c
      using books_capture [OF b, of c] that rest by (auto simp: resume_capture_def capture_ok_def)
    show "distinct (map fst (as_records ?t))" using books_keys [OF b] by (simp add: resume_capture_def)
    show "record_ok sha (Some ?i) ?t (j, r)" if "(j, r) \<in> set (as_records ?t)" for j r
      using books_record [OF b, of j r] that rest by (auto simp: resume_capture_def record_ok_def)
    show "distinct (map cp_id (as_captures ?t)) \<and>
      cp_id ` set (as_captures ?t) = as_inflight ?t - set_option (Some ?i) \<and> set_option (Some ?i) \<subseteq> as_inflight ?t \<and>
      as_discardedInflight ?t \<subseteq> as_inflight ?t \<and>
      as_activeCaptures ?t = int (length (as_captures ?t)) + (if Some ?i = None then 0 else 1)"
    proof -
      have "?i \<in> as_inflight s" "as_captures s \<noteq> []" using fl cp by auto
      then show ?thesis using fl ids rest(2) cp
        by (simp add: resume_capture_def length_remove1 of_nat_diff Suc_leI)
    qed
  qed
qed

lemma books_link:
  assumes b: "books sha None s" and cp: "cp \<in> set (as_captures s)" "cp_phase cp = Staged"
  shows "books sha None (snd (capture_link ma cp s))"
proof -
  let ?i = "cp_id cp" and ?tok = "cp_token cp" and ?n = "length (cp_bytes cp)" and ?cid = "cp_consumerId cp"
  define t where "t = resume_capture cp s"
  note r = books_resume [OF b cp(1), folded t_def]
  have ok: "(?i, Pdf) \<notin> as_disk t" "ARTIFACT_ID ?i" "of_pdf sha ?n (cp_sha256 cp)"
    and tomb: "?i \<in> as_discardedInflight t \<Longrightarrow> as_disk t \<inter> {(?i, Pdf), (?i, Part)} = {}"
    using books_capture [OF b cp(1)] cp(2) by (auto simp: capture_ok_def t_def resume_capture_def)
  have keep: "books sha None (capture_finally (ma_close ma) ?i ?tok True u)"
    if "books sha (Some ?i) u" "running_capture ?i ?tok ?cid ?n u" for u
    by (rule books_finally [OF that]) simp_all
  have gone: "books sha None (capture_finally (ma_close ma) ?i ?tok False t)"
    if "?i \<in> as_discardedInflight t \<or> as_closeRequested t \<or> as_unhealthy t"
    by (rule books_finally [OF r(1,2) r(3)]) (use that tomb in auto)
  obtain proven s1 where s1: "identityProven (ma_identity ma) t = (proven, s1)" by (meson surj_pair)
  have k1: "kept_books t s1" using kept_identityProven [OF s1] .
  have b1: "books sha (Some ?i) s1" and run1: "running_capture ?i ?tok ?cid ?n s1"
    using books_kept [OF k1 r(1)] running_kept [OF k1 r(2)] .
  have sel: "as_records s1 = as_records t" "as_disk s1 \<subseteq> as_disk t" "as_discardedInflight s1 = as_discardedInflight t"
    using k1 by (simp_all add: kept_books_def)
  have grow: "fst ` (insert (?i, Pdf) (as_disk s1) - as_disk s1) \<subseteq> {?i}" by auto
  note b2 = books_disk [OF b1 run1 grow]
  have shrink: "fst ` ((insert (?i, Pdf) (as_disk s1) - {(?i, Part)}) - as_disk s1) \<subseteq> {?i}" by auto
  note b3 = books_disk [OF b1 run1 shrink]
  let ?cp = "cp\<lparr>cp_phase := Linked\<rparr>"
  let ?s3 = "s1\<lparr>as_disk := insert (?i, Pdf) (as_disk s1) - {(?i, Part)}\<rparr>"
  have f1: "books sha None (snd (capture_failed (ma_undo ma) (ma_close ma) [(?i, Part)] ?i ?tok s1))"
    by (rule books_capture_failed [OF b1 run1]) (use sel ok r(3) in auto)
  have f2: "books sha None (snd (capture_failed (ma_undo ma) (ma_close ma) [(?i, Part), (?i, Pdf)] ?i ?tok
      (s1\<lparr>as_disk := insert (?i, Pdf) (as_disk s1)\<rparr>)))"
    by (rule books_capture_failed [OF b2]) (use sel r(3) in auto)
  have await: "books sha None (?s3\<lparr>as_captures := as_captures ?s3 @ [?cp]\<rparr>)" if "?i \<notin> as_discardedInflight t"
    by (rule books_await [OF b3(1)]) (use b3(2) ok sel r(3) that in auto)
  show ?thesis
    using s1 gone keep [OF b1 run1] f1 f2 await
    by (cases proven) (simp_all add: capture_link_def Let_def flip: t_def)
qed

lemma books_commit:
  assumes b: "books sha None s" and cp: "cp \<in> set (as_captures s)" "cp_phase cp = Linked"
  shows "books sha None (snd (capture_commit now ma cp s))"
proof -
  let ?i = "cp_id cp" and ?tok = "cp_token cp" and ?n = "length (cp_bytes cp)" and ?cid = "cp_consumerId cp"
  define t where "t = resume_capture cp s"
  note r = books_resume [OF b cp(1), folded t_def]
  have ok: "(?i, Part) \<notin> as_disk t" "ARTIFACT_ID ?i" "of_pdf sha ?n (cp_sha256 cp)"
    and tomb: "?i \<in> as_discardedInflight t \<Longrightarrow> as_disk t \<inter> {(?i, Pdf), (?i, Part)} = {}"
    using books_capture [OF b cp(1)] cp(2) by (auto simp: capture_ok_def t_def resume_capture_def)
  have keep: "books sha None (capture_finally (ma_close ma) ?i ?tok True u)"
    if "books sha (Some ?i) u" "running_capture ?i ?tok ?cid ?n u" for u
    by (rule books_finally [OF that]) simp_all
  have gone: "books sha None (capture_finally (ma_close ma) ?i ?tok False u)"
    if "kept_books t u" "as_disk u \<inter> {(?i, Pdf), (?i, Part)} = {}" for u
    by (rule books_finally [OF books_kept [OF that(1) r(1)] running_kept [OF that(1) r(2)]])
      (use that r(3) in \<open>auto simp: kept_books_def\<close>)
  obtain proven s1 where s1: "identityProven (ma_identity ma) t = (proven, s1)" by (meson surj_pair)
  have k1: "kept_books t s1" using kept_identityProven [OF s1] .
  have b1: "books sha (Some ?i) s1" and run1: "running_capture ?i ?tok ?cid ?n s1"
    using books_kept [OF k1 r(1)] running_kept [OF k1 r(2)] .
  have sel: "as_records s1 = as_records t" "as_disk s1 \<subseteq> as_disk t" "as_captures s1 = as_captures t"
    using k1 by (simp_all add: kept_books_def)
  obtain clean s2 where s2: "strictDelete (ma_undo ma) [(?i, Pdf)] s1 = (clean, s2)" by (meson surj_pair)
  note k2 = kept_strictDelete [OF s2]
  have t2: "kept_books t s2" using kept_trans [OF k1 k2(1)] .
  have swept: "books sha None (capture_finally (ma_close ma) ?i ?tok False s2)" if clean
    by (rule gone [OF t2]) (use k2(2) that ok sel in auto)
  have km: "kept_books t (markUnhealthy s2)" using kept_trans [OF t2 kept_markUnhealthy] .
  have retained: "books sha None (capture_finally (ma_close ma) ?i ?tok True (markUnhealthy s2))"
    by (rule keep [OF books_kept [OF km r(1)] running_kept [OF km r(2)]])
  have f1: "books sha None (snd (capture_failed (ma_undo ma) (ma_close ma) [(?i, Pdf)] ?i ?tok s1))"
    by (rule books_capture_failed [OF b1 run1]) (use sel ok r(3) in auto)
  have published: "books sha None (capture_finally (ma_close ma) ?i ?tok True (s1\<lparr>as_records := alist_put ?i rec (as_records s1)\<rparr>))"
    if rec: "sr_consumerId rec = ?cid" "sr_bytes rec = ?n" "sr_sha256 rec = cp_sha256 cp" for rec
  proof (rule keep)
    let ?u = "s1\<lparr>as_records := alist_put ?i rec (as_records s1)\<rparr>"
    show "running_capture ?i ?tok ?cid ?n ?u" using run1 by (simp add: running_capture_def)
    have out: "?i \<notin> cp_id ` set (as_captures s1)" using books_flight [OF b1] by simp
    show "books sha (Some ?i) ?u"
    proof (rule booksI)
      show "ledger_ok ?u" "quotas_ok ?u" using books_ledgers [OF b1] by (simp_all add: ledger_ok_def quotas_ok_def)
      show "billed ?u" using books_billed [OF b1] by (simp add: billed_def)
      show "capture_ok sha ?u c" if "c \<in> set (as_captures ?u)" for c
        using that books_capture [OF b1, of c] by (simp add: capture_ok_def)
      show "distinct (map fst (as_records ?u))" using books_keys [OF b1] by (simp add: distinct_alist_put)
      show "record_ok sha (Some ?i) ?u (j, q)" if jq: "(j, q) \<in> set (as_records ?u)" for j q
      proof -
        have "j = ?i \<and> q = rec \<or> j \<noteq> ?i \<and> (j, q) \<in> set (as_records s1)"
          using jq books_keys [OF b1] by (simp add: in_alist_put split: if_splits)
        then show ?thesis
          using books_record [OF b1, of j q] run1 rec ok out by (auto simp: record_ok_def running_capture_def)
      qed
    qed (use books_flight [OF b1] in simp_all)
  qed
  show ?thesis
    using s1 gone [OF kept_refl] tomb keep [OF b1 run1] s2 swept retained f1 published
    by (cases proven; cases clean) (simp_all add: capture_commit_def Let_def flip: t_def)
qed

section \<open>Leases keep the books\<close>

lemma books_consume:
  assumes b: "books sha None s" and r: "map_of (as_records s) i = Some rec"
  shows "books sha None (s\<lparr>as_records := alist_put i (rec\<lparr>sr_consuming := x\<rparr>) (as_records s)\<rparr>)" (is "books sha None ?t")
proof (rule booksI)
  show "ledger_ok ?t" "quotas_ok ?t" using books_ledgers [OF b] by (simp_all add: ledger_ok_def quotas_ok_def)
  show "billed ?t" using books_billed [OF b] by (simp add: billed_def)
  show "capture_ok sha ?t c" if "c \<in> set (as_captures ?t)" for c
    using that books_capture [OF b, of c] by (simp add: capture_ok_def)
  show "distinct (map fst (as_records ?t))" using books_keys [OF b] by (simp add: distinct_alist_put)
  show "record_ok sha None ?t (j, q)" if jq: "(j, q) \<in> set (as_records ?t)" for j q
  proof -
    have "j = i \<and> q = rec\<lparr>sr_consuming := x\<rparr> \<or> j \<noteq> i \<and> (j, q) \<in> set (as_records s)"
      using jq books_keys [OF b] by (simp add: in_alist_put split: if_splits)
    then show ?thesis
      using books_record [OF b, of j q] books_record [OF b map_of_SomeD [OF r]] by (auto simp: record_ok_def)
  qed
qed (use books_flight [OF b] in simp_all)

lemma books_end_lease:
  assumes "books sha None s" shows "books sha None (end_lease fa i tok s)"
proof -
  have "books sha None (detachResponseSettle i s)" by (rule books_kept [OF kept_detach assms])
  then have d: "books sha None (snd (discardOwned fa i (detachResponseSettle i s)))" by (rule books_discardOwned)
  have "books sha None (yieldPermit tok u)" if "books sha None u" for u
    by (rule books_kept [OF kept_yieldPermit that])
  then show ?thesis
    using d books_kept [OF kept_markUnhealthy d]
    by (cases "discardOwned fa i (detachResponseSettle i s)") (simp add: end_lease_def)
qed

lemma books_leasable:
  "books sha None s \<Longrightarrow> leasable now fa i cid s = (ok, t) \<Longrightarrow>
     books sha None t \<and> (ok \<longrightarrow> (\<exists>rec. map_of (as_records t) i = Some rec \<and> sr_consumerId rec = cid \<and> \<not> sr_consuming rec))"
  using books_reap [of sha s now fa] by (auto simp: leasable_def Let_def split: if_splits option.splits)

lemma books_admitted:
  assumes b: "books sha None s" and rec: "map_of (as_records s) i = Some rec"
  shows "books sha None (snd (admitted sha now later qa i s))"
proof -
  obtain proven s1 where s1: "identityProven (qa_identity qa) s = (proven, s1)" by (meson surj_pair)
  have b1: "books sha None s1" using books_kept [OF kept_identityProven [OF s1] b] .
  show ?thesis
  proof (cases proven)
    case False
    then show ?thesis
      using s1 b1 books_kept [OF kept_releaseResponse b1] by (simp add: admitted_def)
  next
    case True
    have s: "s1 = s" using s1 True identityProven_True [of _ s s1] by simp
    define s2 where "s2 = s\<lparr>as_next := as_next s + 1, as_responseHolder := Some (as_next s), as_responseId := Some i,
                     as_responseSettle := Some (as_next s),
                     as_records := alist_put i (rec\<lparr>sr_consuming := True\<rparr>) (as_records s),
                     as_timers := alist_put i (as_next s) (as_timers s)\<rparr>"
    have b2: "books sha None s2"
      by (rule books_cong [OF books_consume [OF b rec, of True]]) (simp_all add: s2_def)
    have ended: "books sha None (end_lease (qa_fs qa) i (as_next s) (clearTimer i s2))"
      by (rule books_end_lease [OF books_kept [OF kept_clearTimer b2]])
    have held: "books sha None (s2\<lparr>as_responseBytes := n, as_leases := ls\<rparr>)" for n ls
      by (rule books_cong [OF b2]) simp_all
    show ?thesis
      using True s1 s rec ended held
      by (simp add: admitted_def Let_def s2_def split: option.split)
  qed
qed

lemma books_acquire:
  assumes b: "books sha None s" shows "books sha None (snd (acquire_artifact sha now later fa qa i cid s))"
proof -
  obtain ok t where t: "leasable now fa i cid s = (ok, t)" by (meson surj_pair)
  note l = books_leasable [OF b t]
  have wait: "books sha None (t\<lparr>as_next := n, as_responseWaiters := ws, as_waiting := q\<rparr>)" for n ws q
    by (rule books_cong) (use l in auto)
  have busy: "books sha None (t\<lparr>as_responseBusy := True\<rparr>)" by (rule books_cong) (use l in auto)
  show ?thesis
    using b t l wait books_admitted [OF busy] by (cases ok) (auto simp: acquire_artifact_def)
qed

lemma books_lease_resumed:
  assumes b: "books sha None s"
  shows "books sha None (snd (lease_resumed sha now later fa qa w granted i cid s))"
proof -
  let ?s1 = "s\<lparr>as_woken := filter (\<lambda>q. fst q \<noteq> w) (as_woken s), as_waiting := filter (\<lambda>q. fst q \<noteq> w) (as_waiting s)\<rparr>"
  have b1: "books sha None ?s1" by (rule books_cong [OF b]) simp_all
  obtain ok t where t: "leasable now fa i cid ?s1 = (ok, t)" by (meson surj_pair)
  note l = books_leasable [OF b1 t]
  have "books sha None (releaseResponse t)" using l by (intro books_kept [OF kept_releaseResponse]) auto
  then show ?thesis
    using b1 t l books_admitted [of sha t i] by (auto simp: lease_resumed_def Let_def split: bool.split)
qed

lemma books_claim: "books sha None s \<Longrightarrow> books sha None (claimTimeout tok s)"
proof -
  assume b: "books sha None s"
  have "books sha None (s\<lparr>as_leases := ls\<rparr>)" for ls by (rule books_cong [OF b]) simp_all
  then show ?thesis using b books_kept [OF kept_clearTimer] by (simp add: claimTimeout_def split: option.split)
qed

lemma books_complete: "books sha None s \<Longrightarrow> books sha None (complete_lease fa tok s)"
proof -
  assume b: "books sha None s"
  have c: "books sha None (clearTimer i (finish_lease tok s))" for i
    by (rule books_kept [OF kept_trans [OF kept_finish_lease kept_clearTimer] b])
  show ?thesis
    using b c books_end_lease [OF c] books_kept [OF kept_yieldPermit c]
    by (auto simp: complete_lease_def Let_def split: option.split)
qed

lemma books_timeout: "books sha None s \<Longrightarrow> books sha None (response_timeout fa i s)"
proof -
  assume b: "books sha None s"
  have c: "books sha None (clearTimer i s)" by (rule books_kept [OF kept_clearTimer b])
  have d: "books sha None (finish_lease tok (clearTimer i s))" for tok by (rule books_kept [OF kept_finish_lease c])
  show ?thesis
    using b c books_end_lease [OF d] by (auto simp: response_timeout_def Let_def split: option.split)
qed

lemma books_step: "books sha None s \<Longrightarrow> astep sha s e s' \<Longrightarrow> books sha None s'"
  by (cases e)
    (simp_all add: astep_def books_capture_artifact books_link books_commit books_acquire books_lease_resumed
      books_claim books_complete books_timeout books_discard books_cleanup books_close)

end
