(* ===== verification/Artifact_Safety.thy ===== *)
theory Artifact_Safety
  imports Artifact_Books
begin

text \<open>
  What the artifact store promises its callers: one response at a time under a permit that is never
  lost, an artifact handed out at most once, to its owner, with the bytes it was captured with, and a
  lock given up only when nothing is left behind.
\<close>

section \<open>The permit\<close>

abbreviation shut :: "artifact_store \<Rightarrow> bool" where
  "shut s \<equiv> as_closeRequested s \<or> as_unhealthy s"

definition granted :: "artifact_store \<Rightarrow> nat list" where
  "granted s = map fst (filter snd (as_woken s))"

definition live :: "artifact_store \<Rightarrow> nat \<Rightarrow> lease \<Rightarrow> bool" where
  "live s tok l \<longleftrightarrow> (tok, l) \<in> set (as_leases s) \<and> \<not> le_done l"

text \<open>\<open>ending\<close> is a lease whose terminal path is executing, \<open>in_hand\<close> says that the executing segment was
  just admitted.\<close>

definition flow :: "nat option \<Rightarrow> bool \<Rightarrow> artifact_store \<Rightarrow> bool" where
  \<comment> \<open>who has the permit\<close>
  "flow ending in_hand s \<longleftrightarrow>
     cf_enabled (as_cfg s) \<and> (as_identityLost s \<longrightarrow> as_unhealthy s) \<and>
     length (granted s) + (if as_responseHolder s = None then 0 else 1) + (if in_hand then 1 else 0) \<le> 1 \<and>
     (if shut s then as_responseWaiters s = [] \<and> (as_responseHolder s = None \<or> as_responseHolder s = ending)
      else (as_responseBusy s \<longleftrightarrow> as_responseHolder s \<noteq> None \<or> granted s \<noteq> [] \<or> in_hand) \<and>
           (as_responseWaiters s \<noteq> [] \<longrightarrow> as_responseBusy s))"

definition held :: "nat option \<Rightarrow> artifact_store \<Rightarrow> bool" where
  \<comment> \<open>the lease in progress and its record\<close>
  "held ending s \<longleftrightarrow>
     (as_responseHolder s = None \<longrightarrow> as_responseId s = None) \<and>
     (\<forall>k. as_responseSettle s = Some k \<longrightarrow> as_responseHolder s = Some k) \<and>
     (\<forall>k. as_responseHolder s = Some k \<and> ending \<noteq> Some k \<longrightarrow> as_responseSettle s = Some k \<and> (\<exists>l. live s k l)) \<and>
     (\<forall>k l. live s k l \<longrightarrow> as_responseHolder s = Some k \<and> ending \<noteq> Some k \<and> as_responseId s = Some (le_id l) \<and>
        sr_consuming (le_record l) \<and> (\<not> shut s \<longrightarrow> map_of (as_records s) (le_id l) = Some (le_record l))) \<and>
     (\<not> shut s \<longrightarrow> (\<forall>i r. map_of (as_records s) i = Some r \<and> sr_consuming r \<longrightarrow> as_responseId s = Some i))"

definition tokens :: "artifact_store \<Rightarrow> bool" where
  "tokens s \<longleftrightarrow>
     distinct (map fst (as_leases s)) \<and> (\<forall>k \<in> fst ` set (as_leases s). k < as_next s) \<and>
     distinct (as_responseWaiters s @ map fst (as_woken s)) \<and>
     set (as_responseWaiters s) \<union> fst ` set (as_woken s) = fst ` set (as_waiting s) \<and>
     distinct (map fst (as_waiting s)) \<and> (\<forall>k \<in> fst ` set (as_waiting s). k < as_next s) \<and>
     (\<forall>p \<in> set (as_timers s). snd p < as_next s \<and> (\<forall>l. (snd p, l) \<in> set (as_leases s) \<longrightarrow> le_id l = fst p))"

definition permit :: "nat option \<Rightarrow> bool \<Rightarrow> artifact_store \<Rightarrow> bool" where
  "permit ending in_hand s \<longleftrightarrow> flow ending in_hand s \<and> held ending s \<and> tokens s"

definition same_permit :: "artifact_store \<Rightarrow> artifact_store \<Rightarrow> bool" where
  \<comment> \<open>nothing the permit's invariant reads differs\<close>
  "same_permit s t \<longleftrightarrow>
     as_cfg t = as_cfg s \<and> as_identityLost t = as_identityLost s \<and> as_closeRequested t = as_closeRequested s \<and>
     as_unhealthy t = as_unhealthy s \<and> as_responseBusy t = as_responseBusy s \<and>
     as_responseHolder t = as_responseHolder s \<and> as_responseId t = as_responseId s \<and>
     as_responseSettle t = as_responseSettle s \<and> as_responseWaiters t = as_responseWaiters s \<and>
     as_woken t = as_woken s \<and> as_waiting t = as_waiting s \<and> as_leases t = as_leases s \<and>
     as_next s \<le> as_next t \<and> set (as_timers t) \<subseteq> set (as_timers s) \<and> (\<not> shut s \<longrightarrow> as_records t = as_records s)"

lemma same_refl [simp]: "same_permit s s"
  by (simp add: same_permit_def)

lemma same_trans: "same_permit s t \<Longrightarrow> same_permit t u \<Longrightarrow> same_permit s u"
  by (auto simp: same_permit_def)

lemma same_live: "same_permit s t \<Longrightarrow> live t = live s"
  by (simp add: same_permit_def live_def fun_eq_iff)

lemma permit_live:
  "permit X Y s \<Longrightarrow> live s k l \<Longrightarrow> as_responseHolder s = Some k \<and> X \<noteq> Some k \<and> as_responseId s = Some (le_id l) \<and>
     sr_consuming (le_record l) \<and> (\<not> shut s \<longrightarrow> map_of (as_records s) (le_id l) = Some (le_record l))"
  unfolding permit_def held_def by blast

lemma permit_holder:
  "permit X Y s \<Longrightarrow> as_responseHolder s = Some k \<Longrightarrow> X \<noteq> Some k \<Longrightarrow>
     as_responseSettle s = Some k \<and> (\<exists>l. live s k l)"
  unfolding permit_def held_def by blast

lemma permit_settle: "permit X Y s \<Longrightarrow> as_responseSettle s = Some k \<Longrightarrow> as_responseHolder s = Some k"
  unfolding permit_def held_def by blast

lemma permit_idle: "permit X Y s \<Longrightarrow> as_responseHolder s = None \<Longrightarrow> as_responseId s = None \<and> as_responseSettle s = None"
proof
  assume p: "permit X Y s" and h: "as_responseHolder s = None"
  show "as_responseId s = None" using p h unfolding permit_def held_def by blast
  show "as_responseSettle s = None" using permit_settle [OF p] h by (cases "as_responseSettle s") auto
qed

lemma permit_consuming:
  "permit X Y s \<Longrightarrow> \<not> shut s \<Longrightarrow> map_of (as_records s) i = Some r \<Longrightarrow> sr_consuming r \<Longrightarrow> as_responseId s = Some i"
  unfolding permit_def held_def by blast

lemma permit_flow: "permit X Y s \<Longrightarrow> flow X Y s"
  and permit_held: "permit X Y s \<Longrightarrow> held X s"
  and permit_tokens: "permit X Y s \<Longrightarrow> tokens s"
  by (simp_all add: permit_def)

lemma tokens_timer:
  "tokens s \<Longrightarrow> p \<in> set (as_timers s) \<Longrightarrow> (snd p, l) \<in> set (as_leases s) \<Longrightarrow> le_id l = fst p"
  unfolding tokens_def by blast

lemma heldI:
  assumes "as_responseHolder s = None \<Longrightarrow> as_responseId s = None"
    and "\<And>k. as_responseSettle s = Some k \<Longrightarrow> as_responseHolder s = Some k"
    and "\<And>k. as_responseHolder s = Some k \<Longrightarrow> X \<noteq> Some k \<Longrightarrow> as_responseSettle s = Some k \<and> (\<exists>l. live s k l)"
    and "\<And>k l. live s k l \<Longrightarrow> as_responseHolder s = Some k \<and> X \<noteq> Some k \<and> as_responseId s = Some (le_id l) \<and>
        sr_consuming (le_record l) \<and> (\<not> shut s \<longrightarrow> map_of (as_records s) (le_id l) = Some (le_record l))"
    and "\<And>i r. \<not> shut s \<Longrightarrow> map_of (as_records s) i = Some r \<Longrightarrow> sr_consuming r \<Longrightarrow> as_responseId s = Some i"
  shows "held X s"
  unfolding held_def using assms by blast

lemma tokens_leases:
  "tokens s \<Longrightarrow> distinct (map fst (as_leases s)) \<and> (\<forall>k \<in> fst ` set (as_leases s). k < as_next s)"
  by (simp add: tokens_def)

lemma tokens_timers:
  "tokens s \<Longrightarrow> \<forall>p \<in> set (as_timers s). snd p < as_next s \<and> (\<forall>l. (snd p, l) \<in> set (as_leases s) \<longrightarrow> le_id l = fst p)"
  by (simp add: tokens_def)

lemma tokens_queue:
  assumes "tokens s"
  shows "distinct (as_responseWaiters s)" "distinct (map fst (as_woken s))" "set (as_responseWaiters s) \<inter> fst ` set (as_woken s) = {}"
    "set (as_responseWaiters s) \<union> fst ` set (as_woken s) = fst ` set (as_waiting s)" "distinct (map fst (as_waiting s))"
    "\<And>k. k \<in> fst ` set (as_waiting s) \<Longrightarrow> k < as_next s"
proof -
  show "k \<in> fst ` set (as_waiting s) \<Longrightarrow> k < as_next s" for k using assms unfolding tokens_def by blast
qed (use assms in \<open>simp_all add: tokens_def\<close>)

lemma held_cong:
  assumes "held X s" and eqs: "as_responseHolder t = as_responseHolder s" "as_responseId t = as_responseId s"
      "as_responseSettle t = as_responseSettle s" "as_leases t = as_leases s" "as_records t = as_records s"
      "as_closeRequested t = as_closeRequested s" "as_unhealthy t = as_unhealthy s"
  shows "held X t"
  using assms(1) unfolding held_def live_def eqs .

lemma tokensI:
  assumes "distinct (map fst (as_leases s)) \<and> (\<forall>k \<in> fst ` set (as_leases s). k < as_next s)"
    and "\<forall>p \<in> set (as_timers s). snd p < as_next s \<and> (\<forall>l. (snd p, l) \<in> set (as_leases s) \<longrightarrow> le_id l = fst p)"
    and "distinct (as_responseWaiters s)" "distinct (map fst (as_woken s))" "set (as_responseWaiters s) \<inter> fst ` set (as_woken s) = {}"
    and "set (as_responseWaiters s) \<union> fst ` set (as_woken s) = fst ` set (as_waiting s)" "distinct (map fst (as_waiting s))"
    and "\<And>k. k \<in> fst ` set (as_waiting s) \<Longrightarrow> k < as_next s"
  shows "tokens s"
  using assms unfolding tokens_def by simp

lemma flow_count:
  "flow X Y s \<Longrightarrow> length (granted s) + (if as_responseHolder s = None then 0 else 1) + (if Y then 1 else 0) \<le> 1"
  by (simp add: flow_def)

lemma flow_env: "flow X Y s \<Longrightarrow> cf_enabled (as_cfg s) \<and> (as_identityLost s \<longrightarrow> as_unhealthy s)"
  by (simp add: flow_def)

lemma flow_shut: "flow X Y s \<Longrightarrow> shut s \<Longrightarrow> as_responseWaiters s = [] \<and> (as_responseHolder s = None \<or> as_responseHolder s = X)"
  by (simp add: flow_def)

lemma flow_open:
  "flow X Y s \<Longrightarrow> \<not> shut s \<Longrightarrow> (as_responseBusy s \<longleftrightarrow> as_responseHolder s \<noteq> None \<or> granted s \<noteq> [] \<or> Y) \<and>
     (as_responseWaiters s \<noteq> [] \<longrightarrow> as_responseBusy s)"
  unfolding flow_def by metis

lemma same_permitD:
  assumes "same_permit s t"
  shows "as_cfg t = as_cfg s" "as_identityLost t = as_identityLost s" "as_closeRequested t = as_closeRequested s"
     "as_unhealthy t = as_unhealthy s" "as_responseBusy t = as_responseBusy s"
     "as_responseHolder t = as_responseHolder s" "as_responseId t = as_responseId s"
     "as_responseSettle t = as_responseSettle s" "as_responseWaiters t = as_responseWaiters s"
     "as_woken t = as_woken s" "as_waiting t = as_waiting s" "as_leases t = as_leases s"
     "live t = live s" "\<not> shut s \<Longrightarrow> as_records t = as_records s" "as_next s \<le> as_next t"
     "set (as_timers t) \<subseteq> set (as_timers s)"
  using assms same_live [OF assms] by (simp_all add: same_permit_def)

lemma permit_same: "same_permit s t \<Longrightarrow> permit X Y s \<Longrightarrow> permit X Y t"
proof -
  assume *: "same_permit s t" and p: "permit X Y s"
  note eqs = same_permitD(1-13) [OF *]
  have "flow X Y t" using p unfolding permit_def flow_def granted_def eqs by blast
  moreover have "held X t"
  proof (cases "shut s")
    case True
    then show ?thesis using p unfolding permit_def held_def eqs by blast
  next
    case False
    then show ?thesis using p unfolding permit_def held_def eqs same_permitD(14) [OF * False] by blast
  qed
  moreover have "tokens t"
    using permit_tokens [OF p] same_permitD(15,16) [OF *] unfolding tokens_def eqs by (auto intro: less_le_trans)
  ultimately show "permit X Y t" by (simp add: permit_def)
qed

lemma wake_all: "wake_next True ws = ([], map (\<lambda>w. (w, False)) ws, False)"
  by (induction ws) simp_all

lemma releaseResponse_shut:
  "shut s \<Longrightarrow> releaseResponse s = s\<lparr>as_responseBytes := 0, as_responseWaiters := [],
     as_woken := as_woken s @ map (\<lambda>w. (w, False)) (as_responseWaiters s), as_responseBusy := False\<rparr>"
  by (simp add: releaseResponse_def wake_all)

lemma releaseResponse_open:
  "\<not> shut s \<Longrightarrow> releaseResponse s = (case as_responseWaiters s of
     [] \<Rightarrow> s\<lparr>as_responseBytes := 0, as_responseBusy := False\<rparr>
   | w # ws \<Rightarrow> s\<lparr>as_responseBytes := 0, as_responseWaiters := ws, as_woken := as_woken s @ [(w, True)], as_responseBusy := True\<rparr>)"
  by (cases "as_responseWaiters s") (simp_all add: releaseResponse_def)

definition marked :: "nat option \<Rightarrow> (nat \<times> lease) list \<Rightarrow> (nat \<times> lease) list" where
  "marked k ls = map (\<lambda>(j, l). (j, if Some j = k then l\<lparr>le_done := True\<rparr> else l)) ls"

lemma marked_None [simp]: "marked None ls = ls"
  by (simp add: marked_def)

lemma finish_lease_marked: "finish_lease tok s = s\<lparr>as_leases := marked (Some tok) (as_leases s)\<rparr>"
  by (simp add: finish_lease_def marked_def)

lemma map_fst_marked [simp]: "map fst (marked k ls) = map fst ls"
  by (simp add: marked_def comp_def case_prod_beta)

lemma live_marked:
  "(j, l) \<in> set (marked k ls) \<and> \<not> le_done l \<longleftrightarrow> Some j \<noteq> k \<and> (j, l) \<in> set ls \<and> \<not> le_done l"
  by (force simp: marked_def split: if_splits)

text \<open>Poisoning settles everything: the lease in progress is over, every waiter is refused.\<close>

definition settled :: "artifact_store \<Rightarrow> (nat \<times> bool) list \<Rightarrow> artifact_store" where
  "settled s W = s\<lparr>as_leases := marked (as_responseSettle s) (as_leases s), as_responseHolder := None, as_responseId := None,
     as_responseSettle := None, as_responseBytes := 0, as_responseWaiters := [], as_woken := as_woken s @ W,
     as_responseBusy := False\<rparr>"

lemma settleResponses_shut:
  assumes "shut s" "\<forall>k. as_responseSettle s = Some k \<longrightarrow> as_responseHolder s = Some k"
  shows "settleResponses s = settled s (map (\<lambda>w. (w, False)) (as_responseWaiters s))"
proof (cases "as_responseSettle s")
  case None
  then show ?thesis by (simp add: settleResponses_def settled_def run_settle_def Let_def)
next
  case (Some k)
  then have "as_responseHolder s = Some k" using assms(2) by simp
  then show ?thesis using Some assms(1)
    by (auto simp: settleResponses_def settled_def run_settle_def Let_def yieldPermit_def finish_lease_marked releaseResponse_shut)
qed


lemma permit_settled:
  assumes p: "permit X Y s" and W: "map fst W = as_responseWaiters s"
    and g: "length (filter snd W) + length (granted s) + (if Y then 1 else 0) \<le> 1"
    and t: "shut t" "as_cfg t = as_cfg s" "as_identityLost t \<longrightarrow> as_unhealthy t" "as_leases t = marked (as_responseSettle s) (as_leases s)"
      "as_responseHolder t = None" "as_responseId t = None" "as_responseSettle t = None" "as_responseWaiters t = []"
      "as_woken t = as_woken s @ W" "as_waiting t = as_waiting s" "as_next t = as_next s" "set (as_timers t) \<subseteq> set (as_timers s)"
  shows "permit Z Y t"
proof -
  have live: "\<not> live t k l" for k l
  proof
    assume l: "live t k l"
    then have "Some k \<noteq> as_responseSettle s" "live s k l"
      using live_marked [of k l "as_responseSettle s" "as_leases s"] unfolding live_def t by auto
    then show False using permit_live [OF p, of k l] permit_holder [OF p, of k] by metis
  qed
  have "flow Z Y t" unfolding flow_def t granted_def using flow_env [OF permit_flow [OF p]] g t(1,3)
    by (simp add: granted_def)
  moreover have "held Z t" using live t(1) unfolding held_def t by simp
  moreover have "tokens t"
  proof -
    have "fst ` set (marked k ls) = fst ` set ls" for k ls by (metis set_map map_fst_marked)
    moreover have "fst ` set W = set (as_responseWaiters s)" using W by (metis set_map)
    moreover have "(k, l) \<in> set (marked q ls) \<Longrightarrow> \<exists>l'. (k, l') \<in> set ls \<and> le_id l' = le_id l" for k l q ls
      by (auto simp: marked_def)
    then have "\<forall>p \<in> set (as_timers t). \<forall>l. (snd p, l) \<in> set (marked (as_responseSettle s) (as_leases s)) \<longrightarrow> le_id l = fst p"
    proof (intro ballI allI impI)
      fix p l assume "p \<in> set (as_timers t)" "(snd p, l) \<in> set (marked (as_responseSettle s) (as_leases s))"
      moreover from this obtain l' where "(snd p, l') \<in> set (as_leases s)" "le_id l' = le_id l"
        using \<open>\<And>k l q ls. (k, l) \<in> set (marked q ls) \<Longrightarrow> \<exists>l'. (k, l') \<in> set ls \<and> le_id l' = le_id l\<close> by blast
      ultimately show "le_id l = fst p" using tokens_timer [OF permit_tokens [OF assms(1)]] t(12) by (metis subsetD)
    qed
    ultimately show ?thesis using permit_tokens [OF p] W subsetD [OF t(12)] unfolding tokens_def t(4-11)
      by (simp add: image_Un Un_commute Int_commute)
  qed
  ultimately show ?thesis by (simp add: permit_def)
qed

lemma permit_markUnhealthy:
  assumes p: "permit X Y s" shows "permit Z Y (markUnhealthy (s\<lparr>as_identityLost := b\<rparr>))"
proof -
  let ?u = "cancelTimers (s\<lparr>as_identityLost := b, as_unhealthy := True\<rparr>)"
  have "settleResponses ?u = settled ?u (map (\<lambda>w. (w, False)) (as_responseWaiters ?u))"
    by (rule settleResponses_shut) (use permit_settle [OF p] in \<open>simp_all add: cancelTimers_def\<close>)
  then have m: "markUnhealthy (s\<lparr>as_identityLost := b\<rparr>) = settled ?u (map (\<lambda>w. (w, False)) (as_responseWaiters s))"
    by (simp add: markUnhealthy_def cancelTimers_def)
  have "length (granted s) + (if Y then 1 else 0) \<le> 1" using flow_count [OF permit_flow [OF p]] by linarith
  then show ?thesis unfolding m
    by (intro permit_settled [OF p, of "map (\<lambda>w. (w, False)) (as_responseWaiters s)"])
      (simp_all add: settled_def cancelTimers_def comp_def filter_map)
qed

lemma permit_poisoned: "permit X Y s \<Longrightarrow> permit Z Y (markUnhealthy s)"
  using permit_markUnhealthy [of X Y s Z "as_identityLost s"] by simp


lemma permit_poisoned0: "permit None Y s \<Longrightarrow> permit None Y (markUnhealthy s)"
  by (rule permit_poisoned)

section \<open>Operations that leave the permit alone\<close>

lemma same_clearTimer [simp]: "same_permit s (clearTimer i s)"
  by (simp add: same_permit_def clearTimer_def alist_del_def)

lemma same_cancelTimers [simp]: "same_permit s (cancelTimers s)"
  by (simp add: same_permit_def cancelTimers_def)

lemma same_ledger [simp]:
  "same_permit s (releaseReservation i tok s)" "same_permit s (releaseStage i tok s)" "same_permit s (shrinkReservation i tok n s)"
  by (simp_all add: same_permit_def releaseReservation_def releaseStage_def shrinkReservation_def Let_def split: option.split)

lemma same_reserve: "reserve i cid s = (r, t) \<Longrightarrow> same_permit s t"
  by (auto simp: same_permit_def reserve_def Let_def split: if_splits prod.splits)

lemma same_unlink: "fold (unlink_name fa) names (ok0, ch0, s) = (ok, ch, t) \<Longrightarrow> same_permit s t \<and> as_records t = as_records s"
proof (induction names arbitrary: ok0 ch0 s)
  case (Cons n names)
  obtain ok1 ch1 s1 where one: "unlink_name fa n (ok0, ch0, s) = (ok1, ch1, s1)" by (metis prod_cases3)
  have "same_permit s s1" "as_records s1 = as_records s"
    using one by (auto simp: unlink_name_def same_permit_def split: unlink_answer.splits)
  moreover have "same_permit s1 t \<and> as_records t = as_records s1" by (rule Cons.IH) (use Cons.prems one in simp)
  ultimately show ?case using same_trans by metis
qed simp

lemma same_strictDelete: "strictDelete fa names s = (ok, t) \<Longrightarrow> same_permit s t"
  using same_unlink [of fa names True False s] by (auto simp: strictDelete_def split: if_splits prod.splits)

lemma same_close_end [simp]: "same_permit s (resolve_close r (closeDescriptors s))"
  by (simp add: same_permit_def resolve_close_def closeDescriptors_def)

lemma same_teardown: "store_teardown ca s = (ok, t) \<Longrightarrow> same_permit s t"
  by (auto simp: store_teardown_def Let_def same_permit_def split: if_splits)

lemma permit_identity:
  "permit X Y s \<Longrightarrow> identityProven ids s = (ok, t) \<Longrightarrow> (ok \<and> t = s) \<or> (\<not> ok \<and> permit X Y t \<and> as_unhealthy t)"
  using permit_markUnhealthy [of X Y s X True] flow_env [OF permit_flow, of X Y s]
  by (auto simp: identityProven_def split: if_splits)

lemma permit_deletePhysical:
  assumes p: "permit X Y s" and i: "as_responseId s = Some i \<longrightarrow> as_responseSettle s = None"
    and d: "deletePhysical fa i s = (r, t)"
  shows "(r \<noteq> None \<and> same_permit s t) \<or> (r = None \<and> permit X Y t \<and> as_unhealthy t)"
proof -
  define s2 where "s2 = (let s1 = clearTimer i s in if as_responseId s1 = Some i
    then run_settle (as_responseSettle s1) (s1\<lparr>as_responseSettle := None\<rparr>) else s1)"
  have same2: "same_permit s s2"
    using i by (cases "as_responseId s = Some i") (auto simp: s2_def Let_def run_settle_def same_permit_def clearTimer_def alist_del_def)
  obtain ok s3 where s3: "identityProven (fa_identity fa) s2 = (ok, s3)" by (meson surj_pair)
  note id3 = permit_identity [OF permit_same [OF same2 p] s3]
  obtain clean s4 where s4: "strictDelete fa [(i, Pdf), (i, Part)] s3 = (clean, s4)" by (meson surj_pair)
  note same4 = same_strictDelete [OF s4]
  have def: "deletePhysical fa i s = (if \<not> ok then (None, s3) else if \<not> clean then (None, markUnhealthy s4)
    else (Some (map_of (as_records s3) i \<noteq> None, i \<in> as_inflight s3 \<and> i \<notin> as_discardedInflight s3), s4))"
    using s3 s4 by (simp add: deletePhysical_def s2_def Let_def)
  show ?thesis
  proof (cases ok)
    case False
    then show ?thesis using d def id3 by simp
  next
    case True
    then have s34: "same_permit s s4" using same_trans [OF same2] same4 id3 by auto
    then show ?thesis
      using d def True permit_poisoned [OF permit_same [OF s34 p]] by (auto split: if_splits)
  qed
qed

lemma flow_records: "flow X Y (t\<lparr>as_records := R\<rparr>) = flow X Y t"
  by (simp add: flow_def granted_def cong: if_cong)

lemma permit_records:
  assumes p: "permit X Y s" and t: "same_permit s (t\<lparr>as_records := as_records s\<rparr>)"
    and keep: "\<And>k l. \<not> shut s \<Longrightarrow> live s k l \<Longrightarrow> map_of (as_records t) (le_id l) = map_of (as_records s) (le_id l)"
    and new: "\<And>i r. \<not> shut s \<Longrightarrow> map_of (as_records t) i = Some r \<Longrightarrow> sr_consuming r \<Longrightarrow> map_of (as_records s) i = Some r"
  shows "permit X Y t"
proof -
  have p': "permit X Y (t\<lparr>as_records := as_records s\<rparr>)" by (rule permit_same [OF t p])
  have shut: "shut t = shut s" and live: "live t = live s" and rid: "as_responseId t = as_responseId s"
    using t by (simp_all add: same_permit_def live_def fun_eq_iff)
  have "flow X Y t" using permit_flow [OF p'] by (simp add: flow_records)
  moreover have "tokens t" using permit_tokens [OF p'] unfolding tokens_def by simp
  moreover have "held X t"
  proof (rule heldI)
    have eqs: "as_responseHolder t = as_responseHolder s" "as_responseSettle t = as_responseSettle s"
      using t by (simp_all add: same_permit_def)
    show "as_responseHolder t = None \<Longrightarrow> as_responseId t = None" using permit_idle [OF p] eqs rid by simp
    show "as_responseSettle t = Some k \<Longrightarrow> as_responseHolder t = Some k" for k using permit_settle [OF p] eqs by simp
    show "as_responseHolder t = Some k \<Longrightarrow> X \<noteq> Some k \<Longrightarrow> as_responseSettle t = Some k \<and> (\<exists>l. live t k l)" for k
      using permit_holder [OF p] eqs live by simp
    show "live t k l \<Longrightarrow> as_responseHolder t = Some k \<and> X \<noteq> Some k \<and> as_responseId t = Some (le_id l) \<and>
        sr_consuming (le_record l) \<and> (\<not> shut t \<longrightarrow> map_of (as_records t) (le_id l) = Some (le_record l))" for k l
      using permit_live [OF p, of k l] keep [of k l] eqs live rid shut by simp
    show "\<not> shut t \<Longrightarrow> map_of (as_records t) i = Some r \<Longrightarrow> sr_consuming r \<Longrightarrow> as_responseId t = Some i" for i r
      using new [of i r] permit_consuming [OF p, of i r] rid shut by simp
  qed
  ultimately show ?thesis by (simp add: permit_def)
qed

lemma permit_releaseDiscarded:
  assumes p: "permit X Y s" and other: "\<And>k l. live s k l \<Longrightarrow> le_id l \<noteq> i"
  shows "permit X Y (releaseDiscarded i d c s)"
proof (rule permit_records [OF p])
  show "same_permit s (releaseDiscarded i d c s\<lparr>as_records := as_records s\<rparr>)"
    by (cases d) (auto simp: releaseDiscarded_def Let_def same_permit_def releaseReservation_def split: option.split)
qed (use other in \<open>auto simp: releaseDiscarded_sel split: if_splits\<close>)

lemma permit_discardOwned:
  assumes p: "permit X Y s" and i: "as_responseId s = Some i \<longrightarrow> as_responseSettle s = None"
    and other: "\<forall>k l. live s k l \<longrightarrow> le_id l \<noteq> i" and d: "discardOwned fa i s = (ok, t)"
  shows "permit X Y t" and "ok \<Longrightarrow> map_of (as_records t) i = None \<and> shut t = shut s \<and> as_responseHolder t = as_responseHolder s"
    and "\<not> ok \<Longrightarrow> as_unhealthy t"
proof -
  obtain r u where r: "deletePhysical fa i s = (r, u)" by (meson surj_pair)
  note pd = permit_deletePhysical [OF p i r] and k = deletePhysical_kept [OF r]
  have all: "permit X Y t \<and> (ok \<longrightarrow> map_of (as_records t) i = None \<and> shut t = shut s \<and> as_responseHolder t = as_responseHolder s) \<and>
    (\<not> ok \<longrightarrow> as_unhealthy t)"
  proof (cases r)
    case None
    then show ?thesis using d r pd by (simp add: discardOwned_def)
  next
    case (Some x)
    have su: "same_permit s u" using pd Some by simp
    have live: "live u = live s" using same_live [OF su] .
    have t: "t = releaseDiscarded i x False u" and ok: ok using d r Some by (simp_all add: discardOwned_def)
    have "permit X Y t" unfolding t
      by (rule permit_releaseDiscarded [OF permit_same [OF su p]]) (use other live in simp)
    moreover have "map_of (as_records t) i = None"
      using k(1) k(2) [OF Some] by (auto simp: t releaseDiscarded_sel kept_books_def)
    moreover have "shut t = shut s \<and> as_responseHolder t = as_responseHolder s"
      using su by (cases x) (auto simp: t releaseDiscarded_def Let_def same_permit_def releaseReservation_def split: option.split)
    ultimately show ?thesis using ok by simp
  qed
  then show "permit X Y t" "ok \<Longrightarrow> map_of (as_records t) i = None \<and> shut t = shut s \<and> as_responseHolder t = as_responseHolder s"
    "\<not> ok \<Longrightarrow> as_unhealthy t" by auto
qed

section \<open>Discards, closing and captures\<close>

lemma permit_discardable:
  assumes p: "permit X Y s" and open_: "\<not> shut s" and X: "X = None"
    and avail: "\<And>rec. map_of (as_records s) i = Some rec \<Longrightarrow> \<not> sr_consuming rec"
  shows "\<forall>k l. live s k l \<longrightarrow> le_id l \<noteq> i" and "as_responseId s = Some i \<longrightarrow> as_responseSettle s = None"
proof -
  show other: "\<forall>k l. live s k l \<longrightarrow> le_id l \<noteq> i"
    using permit_live [OF p] open_ avail by fastforce
  show "as_responseId s = Some i \<longrightarrow> as_responseSettle s = None"
  proof
    assume i: "as_responseId s = Some i"
    have False
    proof (cases "as_responseHolder s")
      case None
      then show False using permit_idle [OF p] i by simp
    next
      case (Some k)
      then obtain l where "live s k l" using permit_holder [OF p Some] X by auto
      then show False using permit_live [OF p, of k l] other i by auto
    qed
    then show "as_responseSettle s = None" ..
  qed
qed

lemma permit_discard:
  assumes p: "permit None Y s" shows "permit None Y (snd (discardArtifactDetailed fa i s))"
proof (cases "\<not> ARTIFACT_ID i \<or> \<not> cf_enabled (as_cfg s) \<or> as_closeRequested s \<or> as_disposed s \<or> as_unhealthy s \<or>
    (case map_of (as_records s) i of None \<Rightarrow> False | Some rec \<Rightarrow> sr_consuming rec)")
  case True
  then show ?thesis using p by (auto simp: discardArtifactDetailed_def)
next
  case False
  then have open_: "\<not> shut s" and avail: "\<And>rec. map_of (as_records s) i = Some rec \<Longrightarrow> \<not> sr_consuming rec" by auto
  show ?thesis
    using permit_discardOwned(1) [OF p permit_discardable(2,1) [OF p open_ refl avail]] False
    by (cases "discardOwned fa i s") (simp add: discardArtifactDetailed_def)
qed

lemma permit_reap: "permit None Y s \<Longrightarrow> permit None Y (reapExpired now fa s)"
proof -
  have "permit None Y s \<Longrightarrow> permit None Y
      (fold (\<lambda>(i, rec) t. if now \<ge> sr_expiresAt rec then snd (discardArtifactDetailed (fa i) i t) else t) xs s)" for xs s
    by (induction xs arbitrary: s) (auto simp: permit_discard)
  then show "permit None Y s \<Longrightarrow> ?thesis" by (simp add: reapExpired_def)
qed

lemma permit_cleanup:
  assumes "permit None Y s" shows "permit None Y (runCleanupPass now fa s)"
proof -
  have *: "permit None Y (s\<lparr>as_cleanupTimer := False\<rparr>)" by (rule permit_same [OF _ assms]) (simp add: same_permit_def)
  have "permit None Y (t\<lparr>as_cleanupTimer := True\<rparr>)" if "permit None Y t" for t
    by (rule permit_same [OF _ that]) (simp add: same_permit_def)
  then show ?thesis using * permit_reap [OF *] by (simp add: runCleanupPass_def Let_def)
qed

lemma shut_idle:
  assumes "permit None Y s" "shut s"
  shows "as_responseHolder s = None" "as_responseId s = None" "as_responseSettle s = None" "\<not> live s k l"
proof -
  show h: "as_responseHolder s = None" using flow_shut [OF permit_flow [OF assms(1)] assms(2)] by simp
  then show "as_responseId s = None" "as_responseSettle s = None" using permit_idle [OF assms(1)] by auto
  show "\<not> live s k l" using permit_live [OF assms(1)] h by auto
qed

lemma permit_sweep:
  assumes "permit None Y s" "as_closeRequested s" "sweep_records fa js s = (ok, swept, t)"
  shows "permit None Y t \<and> as_closeRequested t"
  using assms
proof (induction js arbitrary: s ok swept)
  case (Cons i js)
  obtain r s1 where d: "deletePhysical (fa i) i s = (r, s1)" by (meson surj_pair)
  obtain ok' swept' s2 where rest: "sweep_records fa js s1 = (ok', swept', s2)" by (metis prod_cases3)
  have t: "t = s2" using Cons.prems(3) d rest by (auto split: option.splits)
  have idle: "as_responseSettle s = None" using shut_idle [OF Cons.prems(1)] Cons.prems(2) by simp
  have "permit None Y s1"
    using permit_deletePhysical [OF Cons.prems(1) _ d] idle permit_same [OF _ Cons.prems(1)] by auto
  moreover have "as_closeRequested s1" using deletePhysical_kept(1) [OF d] Cons.prems(2) by (simp add: kept_books_def)
  ultimately show ?case using Cons.IH rest t by blast
qed simp

lemma permit_release_all:
  assumes "permit None Y s" "shut s"
  shows "permit None Y (fold (\<lambda>(i, d). releaseDiscarded i d True) swept s)"
  using assms
proof (induction swept arbitrary: s)
  case (Cons p swept)
  obtain i d where p: "p = (i, d)" by (cases p)
  have "permit None Y (releaseDiscarded i d True s)"
    by (rule permit_releaseDiscarded [OF Cons.prems(1)]) (use shut_idle [OF Cons.prems] in simp)
  moreover have "shut (releaseDiscarded i d True s)"
    using Cons.prems(2) by (cases d) (auto simp: releaseDiscarded_def Let_def split: option.split)
  ultimately show ?case using Cons.IH by (simp add: p)
qed simp

lemma permit_finishClose:
  assumes p: "permit None Y s" shows "permit None Y (finishClose ca s)"
proof -
  have p0: "permit None Y (s\<lparr>as_teardownStarted := True\<rparr>)" by (rule permit_same [OF _ p]) (simp add: same_permit_def)
  have p1: "permit None Y s1" if "identityProven (ca_identity ca) (s\<lparr>as_teardownStarted := True\<rparr>) = (ok, s1)" for ok s1
    using permit_identity [OF p0 that] p0 by auto
  have finish: "permit None Y u \<Longrightarrow> permit None Y (resolve_close x (closeDescriptors u))" for u x
    by (rule permit_same [OF same_close_end])
  have closing: "as_closeRequested s1" if "identityProven (ca_identity ca) (s\<lparr>as_teardownStarted := True\<rparr>) = (ok, s1)"
    "as_closeRequested s" for ok s1 using kept_identityProven [OF that(1)] that(2) by (simp add: kept_books_def)
  show ?thesis
  proof (cases "as_closeRequested s")
    case open_: True
    show ?thesis
    proof (cases rule: finishClose_cases [of s ca])
      case idle
      then show ?thesis using p by simp
    next
      case (lost s1)
      then show ?thesis using finish [OF p1 [OF lost(1)]] by simp
    next
      case (failed s1 c swept s2 u v)
      have p2: "permit None Y s2" using permit_sweep [OF p1 [OF failed(1)] closing [OF failed(1) open_] failed(2)] by simp
      have u: "same_permit s2 u" using failed(3) same_strictDelete same_refl by (metis swept_to_def surjective_pairing)
      have "same_permit s2 v" using failed(4) u same_trans [OF u same_teardown] by (metis surjective_pairing)
      then show ?thesis using finish [OF permit_poisoned [OF permit_same [OF _ p2]]] failed(5) by simp
    next
      case (clean s1 swept s2 names s3 s4)
      note p2 = permit_sweep [OF p1 [OF clean(1)] closing [OF clean(1) open_] clean(2)]
      have same: "same_permit s2 s4" by (rule same_trans [OF same_strictDelete [OF clean(3)] same_teardown [OF clean(4)]])
      have "shut s4" using same p2 by (simp add: same_permit_def)
      then show ?thesis using finish [OF permit_release_all [OF permit_same [OF same]]] p2 clean(5) by simp
    qed
  qed (use p in \<open>simp add: finishClose_def\<close>)
qed

lemma permit_finally:
  assumes p: "permit None Y s" shows "permit None Y (capture_finally ca i tok keep s)"
proof -
  define s2 where "s2 = (if keep then releaseStage i tok s else releaseReservation i tok (releaseStage i tok s))"
  let ?s3 = "s2\<lparr>as_discardedInflight := as_discardedInflight s2 - {i}, as_inflight := as_inflight s2 - {i},
                  as_activeCaptures := as_activeCaptures s2 - 1\<rparr>"
  have "same_permit s s2" using same_trans [OF same_ledger(2) same_ledger(1)] by (simp add: s2_def)
  moreover have "same_permit s2 ?s3" by (simp add: same_permit_def)
  ultimately have p3: "permit None Y ?s3" using permit_same [OF same_trans p] by blast
  moreover have "capture_finally ca i tok keep s =
      (if as_closeRequested ?s3 \<and> as_activeCaptures ?s3 = 0 then finishClose ca ?s3 else ?s3)"
    by (simp add: capture_finally_def Let_def s2_def)
  ultimately show ?thesis using p3 permit_finishClose [OF p3, of ca] by presburger
qed

lemma permit_capture_failed:
  assumes p: "permit None Y s" shows "permit None Y (snd (capture_failed fa ca names i tok s))"
proof -
  obtain ok t where t: "strictDelete fa names s = (ok, t)" by (meson surj_pair)
  have "permit None Y t" by (rule permit_same [OF same_strictDelete [OF t] p])
  then show ?thesis using t permit_finally permit_poisoned0 by (cases ok) (simp_all add: capture_failed_def)
qed

lemma permit_body:
  assumes p: "permit None Y s" shows "permit None Y (snd (capture_body sha src sa i cid ttl tok s))"
proof -
  have s1: "permit None Y (shrinkReservation i tok n s)" for n by (rule permit_same [OF same_ledger(3) p])
  have id: "identityProven (sa_identity sa) (shrinkReservation i tok n s) = (ok, t) \<Longrightarrow> permit None Y t" for n ok t
    using permit_identity [OF s1] s1 by blast
  have disk: "permit None Y t \<Longrightarrow> permit None Y (t\<lparr>as_disk := D\<rparr>)" for t D
    by (erule permit_same [rotated]) (simp add: same_permit_def)
  have await: "permit None Y t \<Longrightarrow> permit None Y (t\<lparr>as_disk := D, as_captures := cs\<rparr>)" for t D cs
    by (erule permit_same [rotated]) (simp add: same_permit_def)
  show ?thesis
    using p s1 id disk await
    by (auto simp: capture_body_def Let_def permit_finally permit_capture_failed split: option.split prod.split bool.split)
qed

lemma permit_capture:
  assumes p: "permit None Y s" shows "permit None Y (snd (capture_artifact sha now fa src sa opts s))"
proof -
  have reap: "permit None Y (reapExpired now fa s)" by (rule permit_reap [OF p])
  have res: "permit None Y (t\<lparr>as_inflight := F, as_activeCaptures := n\<rparr>)"
    if "reserve i cid (reapExpired now fa s) = (r, t)" for i cid r t F n
    by (rule permit_same [OF same_trans [OF same_reserve [OF that]] reap]) (simp add: same_permit_def)
  have none: "permit None Y t" if "reserve i cid (reapExpired now fa s) = (None, t)" for i cid t
    using reserve_None [OF that] reap by simp
  show ?thesis
    using p reap none permit_body [OF res] by (auto simp: capture_artifact_def Let_def split: option.split prod.split)
qed

lemma permit_resume_capture: "permit None Y s \<Longrightarrow> permit None Y (resume_capture cp s)"
  by (erule permit_same [rotated]) (simp add: same_permit_def resume_capture_def)

lemma permit_link:
  assumes p: "permit None Y s" shows "permit None Y (snd (capture_link ma cp s))"
proof -
  note r = permit_resume_capture [OF p, of cp]
  have id: "identityProven ids (resume_capture cp s) = (ok, t) \<Longrightarrow> permit None Y t" for ids ok t
    using permit_identity [OF r] r by blast
  have disk: "permit None Y t \<Longrightarrow> permit None Y (t\<lparr>as_disk := D\<rparr>)" for t D
    by (erule permit_same [rotated]) (simp add: same_permit_def)
  have await: "permit None Y t \<Longrightarrow> permit None Y (t\<lparr>as_disk := D, as_captures := cs\<rparr>)" for t D cs
    by (erule permit_same [rotated]) (simp add: same_permit_def)
  show ?thesis
    using r id disk await
    by (auto simp: capture_link_def Let_def permit_finally permit_capture_failed split: prod.split bool.split)
qed

lemma permit_commit:
  assumes p: "permit None Y s" and new: "map_of (as_records (resume_capture cp s)) (cp_id cp) = None"
  shows "permit None Y (snd (capture_commit now ma cp s))"
proof -
  note r = permit_resume_capture [OF p, of cp]
  let ?r = "resume_capture cp s"
  obtain ok t where t: "identityProven (ma_identity ma) ?r = (ok, t)" by (meson surj_pair)
  have pt: "permit None Y t" using permit_identity [OF r t] r by auto
  have same: "map_of (as_records t) (cp_id cp) = None"
    using kept_identityProven [OF t] new by (simp add: kept_books_def)
  have del: "strictDelete fa names t = (ok', u) \<Longrightarrow> permit None Y u" for fa names ok' u
    by (rule permit_same [OF same_strictDelete pt])
  have rec: "permit None Y (t\<lparr>as_records := alist_put (cp_id cp) q (as_records t)\<rparr>)" if "\<not> sr_consuming q" for q
  proof (rule permit_records [OF pt])
    show "same_permit t (t\<lparr>as_records := alist_put (cp_id cp) q (as_records t), as_records := as_records t\<rparr>)"
      by (simp add: same_permit_def)
  next
    fix k l assume "\<not> shut t" "live t k l"
    then have "map_of (as_records t) (le_id l) = Some (le_record l)" using permit_live [OF pt] by blast
    then have "le_id l \<noteq> cp_id cp" using same by auto
    then show "map_of (as_records (t\<lparr>as_records := alist_put (cp_id cp) q (as_records t)\<rparr>)) (le_id l) =
        map_of (as_records t) (le_id l)" by simp
  qed (use that in \<open>auto split: if_splits\<close>)
  show ?thesis
    using r t pt del rec
    by (auto simp: capture_commit_def Let_def permit_finally permit_capture_failed permit_poisoned0 split: prod.split bool.split)
qed

section \<open>Leases\<close>

lemma tokens_cong:
  assumes "tokens s" "as_leases t = as_leases s" "as_responseWaiters t = as_responseWaiters s" "as_woken t = as_woken s"
    "as_waiting t = as_waiting s" "as_next s \<le> as_next t" "set (as_timers t) \<subseteq> set (as_timers s)"
  shows "tokens t"
  using assms unfolding tokens_def by (auto intro: less_le_trans)

lemma flow_granted:
  assumes "flow X Y s" and eqs: "as_cfg t = as_cfg s" "as_identityLost t = as_identityLost s" "as_unhealthy t = as_unhealthy s"
      "as_closeRequested t = as_closeRequested s" "as_responseHolder t = as_responseHolder s" "granted t = granted s"
      "as_responseWaiters t = as_responseWaiters s" "as_responseBusy t = as_responseBusy s"
    and X: "shut s \<Longrightarrow> Z = X"
  shows "flow Z Y t"
proof (cases "shut s")
  case True
  then show ?thesis using assms(1) X unfolding flow_def eqs by blast
next
  case False
  then show ?thesis using assms(1) unfolding flow_def eqs by metis
qed

lemma flow_cong:
  assumes "flow X Y s" and "as_cfg t = as_cfg s" "as_identityLost t = as_identityLost s" "as_unhealthy t = as_unhealthy s"
      "as_closeRequested t = as_closeRequested s" "as_responseHolder t = as_responseHolder s" "as_woken t = as_woken s"
      "as_responseWaiters t = as_responseWaiters s" "as_responseBusy t = as_responseBusy s"
    and "shut s \<Longrightarrow> Z = X"
  shows "flow Z Y t"
  using assms by (intro flow_granted [OF assms(1)]) (simp_all add: granted_def)

lemma permit_empty:
  assumes p: "permit (Some tok) False s" and h: "as_responseHolder s = Some tok"
    and none: "\<And>i r. \<not> shut s \<Longrightarrow> map_of (as_records s) i = Some r \<Longrightarrow> \<not> sr_consuming r"
  shows "permit None True (s\<lparr>as_responseHolder := None, as_responseId := None, as_responseSettle := None\<rparr>)" (is "permit _ _ ?t")
proof -
  have dead: "\<not> live s k l" for k l using permit_live [OF p, of k l] h by auto
  note f = permit_flow [OF p]
  have "granted s = []" using flow_count [OF f] h by simp
  then have "flow None True ?t"
    using flow_env [OF f] flow_shut [OF f] flow_open [OF f] h by (auto simp: flow_def granted_def)
  moreover have "held None ?t"
    by (rule heldI) (use dead none in \<open>auto simp: live_def\<close>)
  moreover have "tokens ?t" by (rule tokens_cong [OF permit_tokens [OF p]]) simp_all
  ultimately show ?thesis by (simp add: permit_def)
qed

lemma permit_given_back:
  assumes p: "permit None True s" shows "permit None False (releaseResponse s)"
proof -
  note f = permit_flow [OF p] and tk = permit_tokens [OF p]
  have h: "as_responseHolder s = None" "granted s = []" using flow_count [OF f] by (auto split: if_splits)
  have dead: "\<not> live s k l" for k l using permit_live [OF p, of k l] h by auto
  note idle = permit_idle [OF p h(1)]
  let ?t = "releaseResponse s"
  have sel: "as_cfg ?t = as_cfg s" "as_identityLost ?t = as_identityLost s" "shut ?t = shut s" "as_responseHolder ?t = None"
    "as_responseId ?t = None" "as_responseSettle ?t = None" "as_leases ?t = as_leases s" "as_waiting ?t = as_waiting s"
    "as_next ?t = as_next s" "as_timers ?t = as_timers s" "as_records ?t = as_records s"
    "as_unhealthy ?t = as_unhealthy s"
    using h idle by (auto simp: releaseResponse_def split: prod.split)
  have live: "\<not> live ?t k l" for k l using dead sel(7) by (simp add: live_def)
  have held: "held None ?t"
    by (rule heldI) (use live sel idle permit_consuming [OF p] in auto)
  show ?thesis
  proof (cases "shut s")
    case True
    have w: "as_responseWaiters s = []" using flow_shut [OF f True] by simp
    then have "?t = s\<lparr>as_responseBytes := 0, as_responseBusy := False\<rparr>"
      using releaseResponse_shut [OF True] by simp
    then have "flow None False ?t" "tokens ?t"
      using flow_env [OF f] True h w tk by (auto simp: flow_def granted_def intro: tokens_cong)
    then show ?thesis using held by (simp add: permit_def)
  next
    case False
    show ?thesis
    proof (cases "as_responseWaiters s")
      case Nil
      then have "?t = s\<lparr>as_responseBytes := 0, as_responseBusy := False\<rparr>"
        using releaseResponse_open [OF False] by simp
      then have "flow None False ?t" "tokens ?t"
        using flow_env [OF f] False h Nil tk by (auto simp: flow_def granted_def intro: tokens_cong)
      then show ?thesis using held by (simp add: permit_def)
    next
      case (Cons w ws)
      then have t: "?t = s\<lparr>as_responseBytes := 0, as_responseWaiters := ws, as_woken := as_woken s @ [(w, True)], as_responseBusy := True\<rparr>"
        using releaseResponse_open [OF False] by simp
      have "flow None False ?t"
        using flow_env [OF f] False h unfolding t by (simp add: flow_def granted_def)
      moreover have "tokens ?t"
        using tk Cons unfolding t tokens_def by (simp add: insert_commute)
      ultimately show ?thesis using held by (simp add: permit_def)
    qed
  qed
qed

lemma permit_yield:
  assumes p: "permit (Some tok) False s" and h: "as_responseHolder s = Some tok"
    and none: "\<And>i r. \<not> shut s \<Longrightarrow> map_of (as_records s) i = Some r \<Longrightarrow> \<not> sr_consuming r"
  shows "permit None False (yieldPermit tok s)"
  using permit_given_back [OF permit_empty [OF assms]] h by (simp add: yieldPermit_def)

lemma permit_end_lease:
  assumes p: "permit (Some tok) False s" and h: "as_responseHolder s = Some tok" "as_responseId s = Some i"
  shows "permit None False (end_lease fa i tok s)"
proof -
  let ?u = "s\<lparr>as_responseSettle := None\<rparr>"
  have detach: "detachResponseSettle i s = ?u" using h by (simp add: detachResponseSettle_def)
  have dead: "\<not> live s k l" for k l using permit_live [OF p, of k l] h by auto
  have "flow (Some tok) False ?u" by (rule flow_cong [OF permit_flow [OF p]]) simp_all
  moreover have "held (Some tok) ?u"
    by (rule heldI) (use h dead permit_consuming [OF p] in \<open>auto simp: live_def\<close>)
  moreover have "tokens ?u" by (rule tokens_cong [OF permit_tokens [OF p]]) simp_all
  ultimately have pu: "permit (Some tok) False ?u" by (simp add: permit_def)
  obtain ok t where t: "discardOwned fa i ?u = (ok, t)" by (meson surj_pair)
  have deadu: "\<forall>k l. live ?u k l \<longrightarrow> le_id l \<noteq> i" using dead unfolding live_def by auto
  have settle: "as_responseId ?u = Some i \<longrightarrow> as_responseSettle ?u = None" by simp
  note d = permit_discardOwned [OF pu settle deadu t]
  show ?thesis
  proof (cases ok)
    case True
    have h': "as_responseHolder t = Some tok" "map_of (as_records t) i = None" using d(2) [OF True] h by auto
    have "permit None False (yieldPermit tok t)"
    proof (rule permit_yield [OF d(1) h'(1)])
      fix j r assume *: "\<not> shut t" "map_of (as_records t) j = Some r"
      show "\<not> sr_consuming r"
      proof
        assume "sr_consuming r"
        then have "as_responseId t = Some j" using permit_consuming [OF d(1) *] by simp
        moreover have "as_responseId t = Some i"
        proof -
          obtain x u where x: "deletePhysical fa i ?u = (Some x, u)" and tu: "t = releaseDiscarded i x False u"
            using t True by (auto simp: discardOwned_def split: prod.splits option.splits)
          have "same_permit ?u u" using permit_deletePhysical [OF pu settle x] by simp
          then have "as_responseId u = Some i" using h by (simp add: same_permit_def)
          then show ?thesis
            by (cases x) (simp add: tu releaseDiscarded_def Let_def releaseReservation_def split: option.split)
        qed
        ultimately show False using * h'(2) by simp
      qed
    qed
    then show ?thesis using True t by (simp add: end_lease_def detach)
  next
    case False
    have pm: "permit None False (markUnhealthy t)" by (rule permit_poisoned [OF d(1)])
    then have "as_responseHolder (markUnhealthy t) = None" using shut_idle(1) [OF pm] by simp
    then show ?thesis using False t pm by (simp add: end_lease_def detach yieldPermit_def)
  qed
qed

lemma permit_finish:
  assumes p: "permit None False s" and l: "live s tok l"
  shows "permit (Some tok) False (finish_lease tok s)" (is "permit _ _ ?t")
    and "as_responseHolder (finish_lease tok s) = Some tok" "as_responseId (finish_lease tok s) = Some (le_id l)"
proof -
  note lv = permit_live [OF p l]
  show "as_responseHolder ?t = Some tok" "as_responseId ?t = Some (le_id l)" using lv by (simp_all add: finish_lease_marked)
  have dead: "\<not> live ?t k m" for k m
  proof
    assume "live ?t k m"
    then have "k \<noteq> tok" "live s k m"
      using live_marked [of k m "Some tok" "as_leases s"] by (simp_all add: live_def finish_lease_marked)
    then show False using permit_live [OF p, of k m] lv by simp
  qed
  have open_: "\<not> shut s" using shut_idle(4) [OF p] l by blast
  have "flow (Some tok) False ?t"
    by (rule flow_cong [OF permit_flow [OF p]]) (use open_ in \<open>simp_all add: finish_lease_marked\<close>)
  moreover have "held (Some tok) ?t"
    by (rule heldI) (use dead lv permit_consuming [OF p] permit_settle [OF p] in \<open>auto simp: finish_lease_marked\<close>)
  moreover have "tokens ?t"
  proof -
    have "fst ` set (marked k ls) = fst ` set ls" for k ls by (metis set_map map_fst_marked)
    moreover have "(k, m) \<in> set (marked q ls) \<Longrightarrow> \<exists>l'. (k, l') \<in> set ls \<and> le_id l' = le_id m" for k m q ls
      by (auto simp: marked_def)
    ultimately show ?thesis using permit_tokens [OF p] unfolding tokens_def finish_lease_marked
      by simp (metis (no_types, lifting))
  qed
  ultimately show "permit (Some tok) False ?t" by (simp add: permit_def)
qed

lemma leased_live: "tokens s \<Longrightarrow> map_of (as_leases s) tok = Some l \<Longrightarrow> \<not> le_done l \<Longrightarrow> live s tok l"
  by (auto simp: live_def dest: map_of_SomeD)

lemma permit_complete:
  assumes p: "permit None False s" shows "permit None False (complete_lease fa tok s)"
proof (cases "map_of (as_leases s) tok")
  case None
  then show ?thesis using p by (simp add: complete_lease_def)
next
  case (Some l)
  show ?thesis
  proof (cases "le_done l")
    case True
    then show ?thesis using Some p by (simp add: complete_lease_def)
  next
    case False
    have l: "live s tok l" using leased_live [OF permit_tokens [OF p] Some False] .
    let ?t = "clearTimer (le_id l) (finish_lease tok s)"
    have "permit (Some tok) False ?t" by (rule permit_same [OF same_clearTimer permit_finish(1) [OF p l]])
    moreover have "as_responseHolder ?t = Some tok" "as_responseId ?t = Some (le_id l)"
      using permit_finish(2,3) [OF p l] by (simp_all add: clearTimer_def)
    moreover have "\<not> shut ?t" using shut_idle(4) [OF p] l by (auto simp: clearTimer_def finish_lease_def)
    ultimately show ?thesis using Some False permit_end_lease by (simp add: complete_lease_def Let_def)
  qed
qed

lemma permit_timeout:
  assumes p: "permit None False s" shows "permit None False (response_timeout fa i s)"
proof (cases "map_of (as_timers s) i")
  case None
  then show ?thesis using p by (simp add: response_timeout_def)
next
  case (Some tok)
  have p1: "permit None False (clearTimer i s)" by (rule permit_same [OF same_clearTimer p])
  have ls: "as_leases (clearTimer i s) = as_leases s" by (simp add: clearTimer_def)
  show ?thesis
  proof (cases "case map_of (as_leases s) tok of None \<Rightarrow> True | Some l \<Rightarrow> le_done l \<or> shut s")
    case True
    then show ?thesis using Some p1 ls by (auto simp: response_timeout_def Let_def clearTimer_def split: option.splits)
  next
    case False
    then obtain l where l: "map_of (as_leases s) tok = Some l" "\<not> le_done l" "\<not> shut s" by (auto split: option.splits)
    have lv: "live (clearTimer i s) tok l" using leased_live [OF permit_tokens [OF p1]] l ls by simp
    have "le_id l = i" using tokens_timer [OF permit_tokens [OF p] map_of_SomeD [OF Some], of l] map_of_SomeD [OF l(1)] by simp
    then show ?thesis
      using Some l permit_end_lease [OF permit_finish [OF p1 lv]]
      by (simp add: response_timeout_def Let_def ls) (simp add: clearTimer_def)
  qed
qed

lemma permit_leasable:
  assumes "permit None Y s" "leasable now fa i cid s = (ok, t)"
  shows "permit None Y t"
    and "ok \<Longrightarrow> \<not> shut t \<and> (\<exists>rec. map_of (as_records t) i = Some rec \<and> sr_consumerId rec = cid \<and> \<not> sr_consuming rec)"
  using assms permit_reap [OF assms(1), of now fa] by (auto simp: leasable_def Let_def split: if_splits option.splits)

lemma permit_spent: "permit None True s \<Longrightarrow> shut s \<Longrightarrow> permit None False s"
proof -
  assume p: "permit None True s" and shut: "shut s"
  have "flow None False s"
    using permit_flow [OF p] flow_count [OF permit_flow [OF p]] shut flow_shut [OF permit_flow [OF p] shut]
      flow_env [OF permit_flow [OF p]]
    unfolding flow_def by simp
  then show ?thesis using p by (simp add: permit_def)
qed

lemma permit_admitted:
  assumes p: "permit None True s" and rec: "map_of (as_records s) i = Some rec" "\<not> sr_consuming rec" and sh: "\<not> shut s"
  shows "permit None False (snd (admitted sha now later qa i s))"
proof -
  obtain proven s1 where s1: "identityProven (qa_identity qa) s = (proven, s1)" by (meson surj_pair)
  show ?thesis
  proof (cases proven)
    case False
    then have p1: "permit None True s1" "shut s1" using permit_identity [OF p s1] by auto
    then show ?thesis using False s1 permit_given_back [OF p1(1)] permit_spent [OF p1] by (simp add: admitted_def)
  next
    case True
    then have s: "s1 = s" using identityProven_True [of _ s s1] s1 by simp
    note f = permit_flow [OF p] and tk = permit_tokens [OF p]
    have h: "as_responseHolder s = None" "granted s = []" using flow_count [OF f] by (auto split: if_splits)
    have dead: "\<not> live s k l" for k l using permit_live [OF p, of k l] h by auto
    have quiet: "\<not> shut s \<Longrightarrow> map_of (as_records s) j = Some r \<Longrightarrow> \<not> sr_consuming r" for j r
      using permit_consuming [OF p, of j r] permit_idle [OF p h(1)] by auto
    define tok where "tok = as_next s"
    define s2 where "s2 = s\<lparr>as_next := tok + 1, as_responseHolder := Some tok, as_responseId := Some i,
                     as_responseSettle := Some tok,
                     as_records := alist_put i (rec\<lparr>sr_consuming := True\<rparr>) (as_records s),
                     as_timers := alist_put i tok (as_timers s)\<rparr>"
    have open2: "flow (Some tok) False s2"
      using flow_env [OF f] flow_shut [OF f] flow_open [OF f] h by (auto simp: flow_def granted_def s2_def)
    have timers: "set (alist_put i tok xs) \<subseteq> insert (i, tok) (set xs)" for xs :: "(string \<times> nat) list"
      by (induction i tok xs rule: alist_put.induct) auto
    have new: "tok \<notin> fst ` set (as_leases s)" using tk by (auto simp: tokens_def tok_def)
    have fresh: "q \<in> set (as_timers s2) \<Longrightarrow> snd q < Suc tok \<and> (\<forall>l. (snd q, l) \<in> set (as_leases s) \<longrightarrow> le_id l = fst q)" for q
      using subsetD [OF timers, of q "as_timers s"] tk new unfolding tokens_def s2_def
      by (fastforce simp: tok_def less_Suc_eq rev_image_eqI)
    have tokens2: "tokens s2"
      using tk fresh unfolding tokens_def by (auto simp: s2_def tok_def less_Suc_eq)
    have held2: "held (Some tok) s2"
      by (rule heldI) (use dead quiet in \<open>auto simp: s2_def live_def split: if_splits\<close>)
    have p2: "permit (Some tok) False s2" using open2 tokens2 held2 by (simp add: permit_def)
    have ended: "permit None False (end_lease (qa_fs qa) i tok (clearTimer i s2))"
      by (rule permit_end_lease [OF permit_same [OF same_clearTimer p2]]) (simp_all add: s2_def clearTimer_def)
    have leased: "permit None False (s2\<lparr>as_responseBytes := n, as_leases := as_leases s @ [(tok, l)]\<rparr>)" (is "permit _ _ ?t")
      if l: "le_id l = i" "le_record l = rec\<lparr>sr_consuming := True\<rparr>" "\<not> le_done l" for l n
    proof -
      have lv: "live ?t k m \<longleftrightarrow> k = tok \<and> m = l" for k m using dead [of k m] l by (auto simp: live_def)
      have "flow None False ?t" by (rule flow_cong [OF open2]) (use sh in \<open>auto simp: s2_def\<close>)
      moreover have "held None ?t"
        by (rule heldI) (use lv l quiet in \<open>auto simp: s2_def split: if_splits\<close>)
      moreover have "tokens ?t"
      proof -
        have "q \<in> set (as_timers s2) \<Longrightarrow> (snd q, l) \<in> {(tok, l)} \<Longrightarrow> fst q = i" for q
          using subsetD [OF timers, of q "as_timers s"] tk by (auto simp: s2_def tokens_def tok_def)
        then show ?thesis using tokens2 new fresh l(1) unfolding tokens_def by (auto simp: s2_def)
      qed
      ultimately show ?thesis by (simp add: permit_def)
    qed
    have "admitted sha now later qa i s = (let deadline = now + RESPONSE_LEASE_MS
       in case read_verified sha (cf_uid (as_cfg s2)) rec (qa_file qa) of
            None \<Rightarrow> (Returns None, end_lease (qa_fs qa) i tok (clearTimer i s2))
          | Some buf \<Rightarrow> if later \<ge> deadline then (Returns None, end_lease (qa_fs qa) i tok (clearTimer i s2))
              else (let l = \<lparr>le_id = i, le_record = rec\<lparr>sr_consuming := True\<rparr>, le_buffer = buf,
                             le_deadline = deadline, le_done = False, le_claimed = False\<rparr>
                    in (Returns (Some l), s2\<lparr>as_responseBytes := length buf, as_leases := as_leases s2 @ [(tok, l)]\<rparr>)))"
      using True s1 s rec(1) by (simp add: admitted_def Let_def tok_def s2_def split: option.split)
    then show ?thesis
      using ended leased by (simp add: Let_def s2_def split: option.split)
  qed
qed

lemma permit_acquire:
  assumes p: "permit None False s" shows "permit None False (snd (acquire_artifact sha now later fa qa i cid s))"
proof -
  obtain ok t where t: "leasable now fa i cid s = (ok, t)" by (meson surj_pair)
  note l = permit_leasable [OF p t]
  note f = permit_flow [OF l(1)] and tk = permit_tokens [OF l(1)]
  let ?w = "t\<lparr>as_next := as_next t + 1, as_responseWaiters := as_responseWaiters t @ [as_next t],
              as_waiting := as_waiting t @ [(as_next t, i, cid)]\<rparr>"
  have wait: "permit None False ?w" if ok "as_responseBusy t"
  proof -
    have "flow None False ?w" using f l(2) [OF that(1)] that(2) flow_env [OF f] flow_count [OF f] flow_open [OF f]
      by (simp add: flow_def granted_def)
    moreover have "held None ?w" by (rule held_cong [OF permit_held [OF l(1)]]) simp_all
    moreover have "tokens ?w"
    proof (rule tokensI)
      note q = tokens_queue [OF tk]
      have new: "as_next t \<notin> fst ` set (as_waiting t)" using q(6) by blast
      then have out: "as_next t \<notin> set (as_responseWaiters t)" "as_next t \<notin> fst ` set (as_woken t)" using q(4) by auto
      show "distinct (as_responseWaiters ?w)" using q(1) out by simp
      show "set (as_responseWaiters ?w) \<inter> fst ` set (as_woken ?w) = {}" using q(3) out by simp
      show "set (as_responseWaiters ?w) \<union> fst ` set (as_woken ?w) = fst ` set (as_waiting ?w)" using q(4) by simp
      show "distinct (map fst (as_waiting ?w))" using q(5) new by simp
      show "k \<in> fst ` set (as_waiting ?w) \<Longrightarrow> k < as_next ?w" for k using q(6) [of k] by (auto simp: rev_image_eqI)
    qed (use tokens_leases [OF tk] tokens_timers [OF tk] tokens_queue(2) [OF tk] in \<open>auto simp: less_Suc_eq\<close>)
    ultimately show ?thesis by (simp add: permit_def)
  qed
  have busy: "permit None True (t\<lparr>as_responseBusy := True\<rparr>)" if ok "\<not> as_responseBusy t"
  proof -
    have fo: "as_responseHolder t = None" "granted t = []" using flow_open [OF f] l(2) [OF that(1)] that(2) by auto
    then have "flow None True (t\<lparr>as_responseBusy := True\<rparr>)"
      using l(2) [OF that(1)] flow_env [OF f] by (simp add: flow_def granted_def)
    moreover have "held None (t\<lparr>as_responseBusy := True\<rparr>)" by (rule held_cong [OF permit_held [OF l(1)]]) simp_all
    moreover have "tokens (t\<lparr>as_responseBusy := True\<rparr>)" by (rule tokens_cong [OF tk]) simp_all
    ultimately show ?thesis by (simp add: permit_def)
  qed
  show ?thesis
    using p t l wait permit_admitted [OF busy] by (cases ok) (auto simp: acquire_artifact_def)
qed

lemma fst_filter: "fst ` {p \<in> set xs. fst p \<noteq> w} = fst ` set xs - {w}"
  by auto

lemma permit_taken:
  assumes p: "permit None False s" and w: "(w, go) \<in> set (as_woken s)" "(w, i, cid) \<in> set (as_waiting s)"
  shows "permit None go (s\<lparr>as_woken := filter (\<lambda>q. fst q \<noteq> w) (as_woken s), as_waiting := filter (\<lambda>q. fst q \<noteq> w) (as_waiting s)\<rparr>)"
    (is "permit None go ?s1")
proof -
  note f = permit_flow [OF p] and tk = permit_tokens [OF p]
  have held1: "held None ?s1" by (rule held_cong [OF permit_held [OF p]]) simp_all
  note q = tokens_queue [OF tk]
  have out: "w \<notin> set (as_responseWaiters s)" using q(3) w(1) by force
  have tokens1: "tokens ?s1"
  proof (rule tokensI)
    show "set (as_responseWaiters ?s1) \<union> fst ` set (as_woken ?s1) = fst ` set (as_waiting ?s1)"
      using q(4) out by (simp add: fst_filter) blast
    show "set (as_responseWaiters ?s1) \<inter> fst ` set (as_woken ?s1) = {}" using q(3) by auto
    show "k \<in> fst ` set (as_waiting ?s1) \<Longrightarrow> k < as_next ?s1" for k using q(6) [of k] by auto
  qed (use tokens_leases [OF tk] tokens_timers [OF tk] q in \<open>simp_all add: distinct_map_filter\<close>)
  have mem: "go \<Longrightarrow> w \<in> set (granted s)" using w(1) by (force simp: granted_def)
  have sub: "granted ?s1 = filter (\<lambda>k. k \<noteq> w) (granted s)"
    by (simp add: granted_def filter_map comp_def conj_commute)
  have le: "length (granted s) \<le> 1" using flow_count [OF f] by (simp split: if_splits)
  have "flow None go ?s1"
  proof (cases go)
    case False
    have "w \<notin> set (granted s)"
      using w(1) False eq_key_imp_eq_value [OF q(2), of w True False] by (auto simp: granted_def)
    then have "granted ?s1 = granted s" by (simp add: sub filter_id_conv) metis
    then have "flow None False ?s1" by (intro flow_granted [OF f]) simp_all
    then show ?thesis using False by simp
  next
    case True
    then have g: "granted s = [w]" using mem le by (cases "granted s") auto
    then have h: "as_responseHolder s = None" using flow_count [OF f] by (simp split: if_splits)
    show ?thesis
      using True flow_env [OF f] flow_shut [OF f] flow_open [OF f] g h sub by (auto simp: flow_def)
  qed
  then show ?thesis using held1 tokens1 by (simp add: permit_def)
qed

lemma permit_lease_resumed:
  assumes p: "permit None False s" and w: "(w, go) \<in> set (as_woken s)" "(w, i, cid) \<in> set (as_waiting s)"
  shows "permit None False (snd (lease_resumed sha now later fa qa w go i cid s))"
proof -
  let ?s1 = "s\<lparr>as_woken := filter (\<lambda>q. fst q \<noteq> w) (as_woken s), as_waiting := filter (\<lambda>q. fst q \<noteq> w) (as_waiting s)\<rparr>"
  note p1 = permit_taken [OF p w]
  show ?thesis
  proof (cases go)
    case False
    then show ?thesis using p1 by (simp add: lease_resumed_def)
  next
    case True
    then have p1: "permit None True ?s1" using p1 by simp
    obtain ok t where t: "leasable now fa i cid ?s1 = (ok, t)" by (meson surj_pair)
    note l = permit_leasable [OF p1 t]
    show ?thesis
      using True t l permit_given_back [OF l(1)] permit_admitted [OF l(1)]
      by (cases ok) (auto simp: lease_resumed_def)
  qed
qed

lemma permit_claim:
  assumes p: "permit None False s" shows "permit None False (claimTimeout tok s)"
proof (cases "\<exists>l. map_of (as_leases s) tok = Some l \<and> \<not> le_claimed l")
  case False
  then show ?thesis using p by (auto simp: claimTimeout_def split: option.split)
next
  case True
  then obtain l where l: "map_of (as_leases s) tok = Some l" "\<not> le_claimed l" by auto
  note f = permit_flow [OF p] and tk = permit_tokens [OF p]
  let ?l = "l\<lparr>le_claimed := True\<rparr>" and ?s1 = "s\<lparr>as_leases := alist_put tok (l\<lparr>le_claimed := True\<rparr>) (as_leases s)\<rparr>"
  have dist: "distinct (map fst (as_leases s))" using tokens_leases [OF tk] by simp
  have mem: "(k, m) \<in> set (as_leases ?s1) \<Longrightarrow> \<exists>m'. (k, m') \<in> set (as_leases s) \<and> le_id m' = le_id m \<and>
      le_record m' = le_record m \<and> le_done m' = le_done m" for k m
    using map_of_SomeD [OF l(1)] by (simp add: in_alist_put [OF dist] split: if_splits) (metis lease.select_convs lease.simps)+
  have lv: "live ?s1 k m \<Longrightarrow> \<exists>m'. live s k m' \<and> le_id m' = le_id m \<and> le_record m' = le_record m" for k m
    using mem [of k m] by (auto simp: live_def)
  have lv': "live s k m \<Longrightarrow> \<exists>m'. live ?s1 k m'" for k m
  proof (cases "k = tok")
    case True
    assume "live s k m"
    then have "\<not> le_done l" using True l(1) map_of_eq_Some_iff [OF dist, of k m] by (auto simp: live_def)
    then have "live ?s1 k ?l" using True by (simp add: live_def in_alist_put [OF dist])
    then show ?thesis by blast
  next
    case False
    assume "live s k m"
    then have "live ?s1 k m" using False by (simp add: live_def in_alist_put [OF dist])
    then show ?thesis by blast
  qed
  have "flow None False ?s1" by (rule flow_cong [OF f]) simp_all
  moreover have "held None ?s1"
  proof (rule heldI)
    show "as_responseHolder ?s1 = Some k \<Longrightarrow> None \<noteq> Some k \<Longrightarrow> as_responseSettle ?s1 = Some k \<and> (\<exists>l. live ?s1 k l)" for k
      using permit_holder [OF p, of k] lv' [of k] by auto
    show "live ?s1 k m \<Longrightarrow> as_responseHolder ?s1 = Some k \<and> None \<noteq> Some k \<and> as_responseId ?s1 = Some (le_id m) \<and>
        sr_consuming (le_record m) \<and> (\<not> shut ?s1 \<longrightarrow> map_of (as_records ?s1) (le_id m) = Some (le_record m))" for k m
      using lv [of k m] permit_live [OF p, of k] by fastforce
  qed (use permit_idle [OF p] permit_settle [OF p] permit_consuming [OF p] in auto)
  moreover have "tokens ?s1"
  proof (rule tokensI)
    show "distinct (map fst (as_leases ?s1)) \<and> (\<forall>k \<in> fst ` set (as_leases ?s1). k < as_next ?s1)"
      using tokens_leases [OF tk] map_of_SomeD [OF l(1)] by (auto simp: distinct_alist_put rev_image_eqI)
    show "\<forall>q \<in> set (as_timers ?s1). snd q < as_next ?s1 \<and> (\<forall>m. (snd q, m) \<in> set (as_leases ?s1) \<longrightarrow> le_id m = fst q)"
      using tokens_timers [OF tk] mem by fastforce
  qed (use tokens_queue [OF tk] in auto)
  ultimately have "permit None False ?s1" by (simp add: permit_def)
  then show ?thesis using l permit_same [OF same_clearTimer] by (simp add: claimTimeout_def)
qed

lemma permit_close:
  assumes p: "permit None False s" shows "permit None False (close_store ca s)"
proof (cases "as_closeRequested s")
  case True
  then show ?thesis using p by (simp add: close_store_def)
next
  case open_: False
  let ?c = "cancelTimers s"
  have pc: "permit None False ?c" by (rule permit_same [OF same_cancelTimers p])
  note f = permit_flow [OF pc]
  have enabled: "cf_enabled (as_cfg s)" using flow_env [OF permit_flow [OF p]] by simp
  define W where "W = (case as_responseSettle ?c of None \<Rightarrow> map (\<lambda>w. (w, False)) (as_responseWaiters ?c)
    | Some k \<Rightarrow> (case as_responseWaiters ?c of [] \<Rightarrow> [] | w # ws \<Rightarrow> (w, True) # map (\<lambda>w. (w, False)) ws))"
  have settle: "settleResponses ?c = (if shut s then settled ?c (map (\<lambda>w. (w, False)) (as_responseWaiters ?c)) else settled ?c W)"
  proof (cases "shut s")
    case True
    then show ?thesis using settleResponses_shut [of ?c] permit_settle [OF pc] by (simp add: cancelTimers_def)
  next
    case False
    then have open_c: "\<not> shut ?c" by (simp add: cancelTimers_def)
    show ?thesis
    proof (cases "as_responseSettle ?c")
      case None
      then show ?thesis using False by (simp add: settleResponses_def settled_def run_settle_def Let_def W_def)
    next
      case (Some k)
      then have "as_responseHolder ?c = Some k" using permit_settle [OF pc] by simp
      then show ?thesis using Some False open_c
        by (cases "as_responseWaiters ?c")
          (simp_all add: settleResponses_def settled_def run_settle_def Let_def W_def yieldPermit_def finish_lease_marked
            releaseResponse_def)
    qed
  qed
  have few: "length (filter snd W) + length (granted ?c) \<le> 1"
  proof (cases "as_responseSettle ?c")
    case None
    then show ?thesis using flow_count [OF f] by (simp add: W_def comp_def filter_map split: if_splits)
  next
    case (Some k)
    then show ?thesis using flow_count [OF f] permit_settle [OF pc Some]
      by (simp add: W_def comp_def filter_map split: list.split)
  qed
  have W: "map fst W = as_responseWaiters ?c" if "as_responseSettle ?c = None \<or> True"
    by (simp add: W_def comp_def split: option.split list.split)
  have closed: "permit None False (settleResponses ?c\<lparr>as_closeRequested := True\<rparr>)"
  proof (cases "shut s")
    case True
    have "length (granted ?c) \<le> 1" using flow_count [OF f] by simp
    then show ?thesis using True settle flow_env [OF f]
      by (intro permit_settled [OF pc, of "map (\<lambda>w. (w, False)) (as_responseWaiters ?c)"])
        (simp_all add: settled_def comp_def filter_map)
  next
    case False
    then show ?thesis using settle few W flow_env [OF f]
      by (intro permit_settled [OF pc, of W]) (simp_all add: settled_def)
  qed
  then show ?thesis using open_ enabled permit_finishClose [OF closed] by (simp add: close_store_def)
qed

lemma permit_step:
  assumes b: "books sha None s" and p: "permit None False s" and e: "astep sha s e s'"
  shows "permit None False s'"
proof (cases e)
  case (Commit now ma cp)
  then show ?thesis using e permit_commit [OF p books_resume(3) [OF b]] by (simp add: astep_def)
qed (use e p in \<open>simp_all add: astep_def permit_capture permit_link permit_acquire permit_lease_resumed
      permit_claim permit_complete permit_timeout permit_discard permit_cleanup permit_close\<close>)

section \<open>The store's invariant\<close>

definition store_inv :: "(octets \<Rightarrow> string) \<Rightarrow> artifact_store \<Rightarrow> bool" where
  "store_inv sha s \<longleftrightarrow> books sha None s \<and> permit None False s"

lemma store_inv_init: "fresh_store s \<Longrightarrow> store_inv sha s"
proof -
  assume f: "fresh_store s"
  then obtain cfg where s: "s = new_store cfg" and cfg: "cf_enabled cfg" "valid_config cfg"
    by (auto simp: fresh_store_def)
  have "books sha None s"
    using cfg(2) by (simp add: s new_store_def books_def ledger_ok_def quotas_ok_def billed_def bill_def valid_config_def
        MAX_STAGE_COPIES_def)
  moreover have "permit None False s"
    using cfg(1) by (simp add: s new_store_def permit_def flow_def held_def tokens_def granted_def live_def)
  ultimately show ?thesis by (simp add: store_inv_def)
qed

lemma store_inv_step: "store_inv sha s \<Longrightarrow> astep sha s e s' \<Longrightarrow> store_inv sha s'"
  using books_step permit_step unfolding store_inv_def by blast

interpretation artifact: inductive_invariant fresh_store "astep sha" "store_inv sha"
  by unfold_locales (auto intro: store_inv_init store_inv_step)

end
