(* ===== verification/Artifact_Claims.thy ===== *)
theory Artifact_Claims
  imports Artifact_Safety
begin

text \<open>
  The claims about the artifact store, and a run of it that the witnesses use: two captures, one lease
  in progress and a second caller waiting for the permit.
\<close>

section \<open>A run\<close>

definition demo_dir :: dir_identity where
  "demo_dir = \<lparr>di_dev = 1, di_ino = 1, di_uid = 1000, di_mode = 0x1C0, di_directory = True\<rparr>"

definition demo_config :: store_config where
  "demo_config = \<lparr>cf_enabled = True, cf_uid = 1000, cf_ttlMs = 600000, cf_maxBytes = 67108864, cf_maxCount = 16,
     cf_perConsumerBytes = 16777216, cf_perConsumerCount = 4, cf_root = demo_dir, cf_data = demo_dir\<rparr>"

definition demo_fs :: fs_answers where
  "demo_fs = \<lparr>fa_identity = (\<lambda>_ _. Some demo_dir), fa_unlink = (\<lambda>_. Unlinked), fa_fsync = True\<rparr>"

definition demo_close :: close_answers where
  "demo_close = \<lparr>ca_fs = (\<lambda>_. demo_fs), ca_identity = (\<lambda>_ _. Some demo_dir), ca_entries = Some [], ca_sweep = demo_fs,
     ca_fails = (\<lambda>_. False), ca_lockOwned = True, ca_restored = False\<rparr>"

definition demo_stat :: file_stat where
  "demo_stat = \<lparr>st_isFile = True, st_size = 5, st_uid = 1000, st_mode = 0x8180, st_dev = 1, st_ino = 7\<rparr>"

definition demo_source :: source_file where
  "demo_source = \<lparr>so_open = Some (True, 5), so_content = PDF_MAGIC, so_end = Some 5\<rparr>"

definition demo_stage :: stage_answers where
  "demo_stage = \<lparr>sa_identity = (\<lambda>_ _. Some demo_dir), sa_created = True, sa_written = True, sa_stat = demo_stat,
     sa_undo = demo_fs, sa_close = demo_close\<rparr>"

definition demo_commit :: commit_answers where
  "demo_commit = \<lparr>ma_identity = (\<lambda>_ _. Some demo_dir), ma_linked = True, ma_unlinked = True, ma_stat = Some demo_stat,
     ma_fsync = True, ma_undo = demo_fs, ma_close = demo_close\<rparr>"

definition demo_consume :: consume_answers where
  "demo_consume = \<lparr>qa_identity = (\<lambda>_ _. Some demo_dir), qa_file = Some (demo_stat, PDF_MAGIC, demo_stat), qa_fs = demo_fs\<rparr>"

definition demo_sha :: "octets \<Rightarrow> string" where
  "demo_sha b = (if b = PDF_MAGIC then ''digest'' else ''other'')"

definition demo_id :: "char \<Rightarrow> string" where
  "demo_id c = replicate 22 c"

definition demo_capture :: "char \<Rightarrow> nat \<Rightarrow> capture_phase \<Rightarrow> capture" where
  "demo_capture c tok ph = \<lparr>cp_id = demo_id c, cp_consumerId = ''owner'', cp_ttlMs = None, cp_token = tok, cp_phase = ph,
     cp_bytes = PDF_MAGIC, cp_sha256 = ''digest'', cp_dev = 1, cp_ino = 7\<rparr>"

definition demo_options :: "char \<Rightarrow> capture_options" where
  "demo_options c = \<lparr>co_id = Some (demo_id c), co_consumerId = Some ''owner'', co_ttlMs = None\<rparr>"

definition demo_exec :: "store_event \<Rightarrow> artifact_store \<Rightarrow> artifact_store option" where
  "demo_exec e s = (if able e s then Some (after demo_sha e s) else None)"

definition demo_captures :: "store_event list" where
  "demo_captures =
     [Capture 0 (\<lambda>_. demo_fs) demo_source demo_stage (demo_options CHR ''a''),
      Link demo_commit (demo_capture CHR ''a'' 0 Staged), Commit 1 demo_commit (demo_capture CHR ''a'' 0 Linked),
      Capture 2 (\<lambda>_. demo_fs) demo_source demo_stage (demo_options CHR ''b''),
      Link demo_commit (demo_capture CHR ''b'' 1 Staged), Commit 3 demo_commit (demo_capture CHR ''b'' 1 Linked)]"

definition demo_store :: artifact_store where
  "demo_store = the (run demo_exec demo_captures (new_store demo_config))"

definition demo_leased :: artifact_store where
  "demo_leased = the (run demo_exec
     [Lease 4 5 (\<lambda>_. demo_fs) demo_consume (demo_id CHR ''a'') ''owner'',
      Lease 6 7 (\<lambda>_. demo_fs) demo_consume (demo_id CHR ''b'') ''owner''] demo_store)"

lemma demo_step: "demo_exec e s = Some s' \<Longrightarrow> astep demo_sha s e s'"
  by (auto simp: demo_exec_def astep_def split: if_splits)

lemma demo_ids:
  "ARTIFACT_ID (demo_id CHR ''a'')" "ARTIFACT_ID (demo_id CHR ''b'')" "demo_id CHR ''a'' \<noteq> demo_id CHR ''b''"
  "demo_id CHR ''b'' \<noteq> demo_id CHR ''a''"
  by (simp_all add: demo_id_def ARTIFACT_ID_def id_char_def is_lower_def code_def list_all_iff)

lemmas demo_values =
  demo_dir_def demo_config_def demo_fs_def demo_close_def demo_stat_def demo_source_def demo_stage_def
  demo_commit_def demo_consume_def demo_sha_def demo_capture_def demo_options_def

lemmas demo_operations =
  capture_artifact_def capture_body_def capture_link_def capture_commit_def capture_finally_def resume_capture_def
  reapExpired_def reserve_def reserved_def shrinkReservation_def releaseStage_def source_bytes_def
  identityProven_def identityHolds_def recorded_identity_def privateDirectory_def sameDirectory_def
  provenFileStat_def proveLinked_def MAX_ARTIFACT_BYTES_def MAX_STAGE_COPIES_def PDF_MAGIC_def new_store_def
  acquire_artifact_def leasable_def admitted_def read_verified_def provenRecordFile_def RESPONSE_LEASE_MS_def

definition demo_record :: "int \<Rightarrow> stored_record" where
  "demo_record t = \<lparr>sr_consumerId = ''owner'', sr_bytes = 5, sr_sha256 = ''digest'', sr_createdAt = t,
     sr_expiresAt = t + 600000, sr_consuming = False, sr_dev = 1, sr_ino = 7\<rparr>"

definition demo_reservation :: "nat \<Rightarrow> bool \<Rightarrow> reservation" where
  "demo_reservation tok staging = \<lparr>rv_token = tok, rv_consumerId = ''owner'', rv_bytes = 5, rv_staging = staging\<rparr>"

definition demo_one :: artifact_store where
  "demo_one = (new_store demo_config)\<lparr>as_next := 1, as_records := [(demo_id CHR ''a'', demo_record 1)],
     as_reservations := [(demo_id CHR ''a'', demo_reservation 0 False)], as_consumerLedger := [''owner'' \<mapsto> (1, 5)],
     as_ledgerCount := 1, as_ledgerBytes := 5, as_disk := {(demo_id CHR ''a'', Pdf)}\<rparr>"

lemma demo_first: "run demo_exec (take 3 demo_captures) (new_store demo_config) = Some demo_one"
  by (simp add: demo_captures_def demo_exec_def demo_values demo_operations demo_ids Let_def demo_one_def demo_record_def
      demo_reservation_def insert_Diff_if)

definition demo_two :: artifact_store where
  "demo_two = demo_one\<lparr>as_next := 2,
     as_records := [(demo_id CHR ''a'', demo_record 1), (demo_id CHR ''b'', demo_record 3)],
     as_reservations := [(demo_id CHR ''a'', demo_reservation 0 False), (demo_id CHR ''b'', demo_reservation 1 False)],
     as_consumerLedger := [''owner'' \<mapsto> (2, 10)], as_ledgerCount := 2, as_ledgerBytes := 10,
     as_disk := {(demo_id CHR ''b'', Pdf), (demo_id CHR ''a'', Pdf)}\<rparr>"

lemma demo_second: "run demo_exec (drop 3 demo_captures) demo_one = Some demo_two"
  by (simp add: demo_captures_def demo_exec_def demo_values demo_operations demo_ids Let_def demo_one_def demo_two_def
      demo_record_def demo_reservation_def insert_Diff_if)

definition demo_lease :: lease where
  "demo_lease = \<lparr>le_id = demo_id CHR ''a'', le_record = (demo_record 1)\<lparr>sr_consuming := True\<rparr>, le_buffer = PDF_MAGIC,
     le_deadline = 15004, le_done = False, le_claimed = False\<rparr>"

definition demo_waiting :: artifact_store where
  "demo_waiting = demo_two\<lparr>as_next := 4,
     as_records := [(demo_id CHR ''a'', (demo_record 1)\<lparr>sr_consuming := True\<rparr>), (demo_id CHR ''b'', demo_record 3)],
     as_timers := [(demo_id CHR ''a'', 2)], as_responseBusy := True, as_responseHolder := Some 2,
     as_responseId := Some (demo_id CHR ''a''), as_responseBytes := 5, as_responseSettle := Some 2,
     as_responseWaiters := [3], as_waiting := [(3, demo_id CHR ''b'', ''owner'')], as_leases := [(2, demo_lease)]\<rparr>"

lemma demo_third:
  "run demo_exec
     [Lease 4 5 (\<lambda>_. demo_fs) demo_consume (demo_id CHR ''a'') ''owner'',
      Lease 6 7 (\<lambda>_. demo_fs) demo_consume (demo_id CHR ''b'') ''owner''] demo_two = Some demo_waiting"
  by (simp add: demo_exec_def demo_values demo_operations demo_ids Let_def demo_one_def demo_two_def demo_waiting_def
      demo_lease_def demo_record_def demo_reservation_def)

lemma store_demo_reachable:
  "reachable fresh_store (astep demo_sha) demo_two" "reachable fresh_store (astep demo_sha) demo_waiting"
proof -
  have go: "run demo_exec es s = Some s' \<Longrightarrow> reachable fresh_store (astep demo_sha) s \<Longrightarrow>
      reachable fresh_store (astep demo_sha) s'" for es s s'
    by (rule run_reachable [of demo_exec]) (rule demo_step)
  have "fresh_store (new_store demo_config)"
    by (simp add: fresh_store_def new_store_def valid_config_def demo_config_def)
  then have "reachable fresh_store (astep demo_sha) demo_one" by (intro go [OF demo_first] reachable.start)
  then show two: "reachable fresh_store (astep demo_sha) demo_two" by (rule go [OF demo_second])
  show "reachable fresh_store (astep demo_sha) demo_waiting" by (rule go [OF demo_third two])
qed

section \<open>Accounting\<close>



text \<open>C25: While the artifact store is open and healthy, every file it left in its directory and every record is backed by
  a reservation, the record's by one of its own consumer and size: capacity is never given back before the bytes are gone.\<close>

theorem artifact_bytes_billed:
  assumes "reachable fresh_store (astep sha) s" "\<not> as_closeRequested s" "\<not> as_unhealthy s"
  shows "(\<forall>(i, x) \<in> as_disk s. \<exists>rv. map_of (as_reservations s) i = Some rv) \<and>
    (\<forall>i r. map_of (as_records s) i = Some r \<longrightarrow>
       (\<exists>rv. map_of (as_reservations s) i = Some rv \<and> rv_consumerId rv = sr_consumerId r \<and> rv_bytes rv = sr_bytes r))"
proof -
  have b: "books sha None s" using artifact.always [OF assms(1)] by (simp add: store_inv_def)
  show ?thesis
    using books_billed [OF b] assms(2,3) books_record [OF b map_of_SomeD]
    by (fastforce simp: billed_def record_ok_def)
qed

lemma artifact_bytes_billed_witness:
  "(demo_id CHR ''b'', Pdf) \<in> as_disk demo_waiting \<and> (\<exists>rv. map_of (as_reservations demo_waiting) (demo_id CHR ''b'') = Some rv)"
proof -
  have "\<forall>(i, x) \<in> as_disk demo_waiting. \<exists>rv. map_of (as_reservations demo_waiting) i = Some rv"
    using artifact_bytes_billed [OF store_demo_reachable(2)]
    by (simp add: demo_waiting_def demo_two_def demo_one_def new_store_def)
  moreover have "(demo_id CHR ''b'', Pdf) \<in> as_disk demo_waiting" by (simp add: demo_waiting_def demo_two_def)
  ultimately show ?thesis by auto
qed


section \<open>The response permit\<close>

text \<open>C26: At most one response lease is ever in progress, and while the store is open and healthy its artifact is still
  recorded, marked as being consumed.\<close>

theorem one_response_at_a_time:
  assumes "reachable fresh_store (astep sha) s"
    and "(k, l) \<in> set (as_leases s)" "\<not> le_done l"
    and "(k', l') \<in> set (as_leases s)" "\<not> le_done l'"
  shows "k' = k \<and> l' = l \<and> as_responseHolder s = Some k \<and> sr_consuming (le_record l) \<and>
    (as_closeRequested s \<or> as_unhealthy s \<or> map_of (as_records s) (le_id l) = Some (le_record l))"
proof -
  have p: "permit None False s" using artifact.always [OF assms(1)] by (simp add: store_inv_def)
  have "live s k l" "live s k' l'" using assms by (simp_all add: live_def)
  note lv = permit_live [OF p this(1)] permit_live [OF p this(2)]
  have "distinct (map fst (as_leases s))" using tokens_leases [OF permit_tokens [OF p]] by simp
  then show ?thesis using lv assms(2,4) by (auto dest: eq_key_imp_eq_value)
qed

lemma one_response_at_a_time_witness:
  "as_responseHolder demo_waiting = Some 2 \<and> sr_consuming (le_record demo_lease)"
  using one_response_at_a_time [OF store_demo_reachable(2), of 2 demo_lease 2 demo_lease]
  by (simp add: demo_waiting_def demo_lease_def)

lemma waiting_kept [simp]:
  "as_waiting (releaseResponse s) = as_waiting s" "as_waiting (finish_lease k s) = as_waiting s"
  "as_waiting (yieldPermit k s) = as_waiting s" "as_waiting (run_settle x s) = as_waiting s"
  "as_waiting (settleResponses s) = as_waiting s" "as_waiting (markUnhealthy s) = as_waiting s"
  "as_waiting (clearTimer i s) = as_waiting s" "as_waiting (detachResponseSettle i s) = as_waiting s"
  "as_waiting (releaseDiscarded i d c s) = as_waiting s"
proof -
  show r: "as_waiting (releaseResponse s) = as_waiting s" for s by (simp add: releaseResponse_def split: prod.split)
  show f: "as_waiting (finish_lease k s) = as_waiting s" for s k by (simp add: finish_lease_def)
  show y: "as_waiting (yieldPermit k s) = as_waiting s" for s k by (simp add: yieldPermit_def r)
  show u: "as_waiting (run_settle x s) = as_waiting s" for x s by (simp add: run_settle_def y f split: option.split)
  show t: "as_waiting (settleResponses s) = as_waiting s" for s by (simp add: settleResponses_def Let_def u)
  show "as_waiting (markUnhealthy s) = as_waiting s" by (simp add: markUnhealthy_def cancelTimers_def t)
  show "as_waiting (clearTimer i s) = as_waiting s" by (simp add: clearTimer_def)
  show "as_waiting (detachResponseSettle i s) = as_waiting s" by (simp add: detachResponseSettle_def)
  show "as_waiting (releaseDiscarded i d c s) = as_waiting s"
    by (cases d) (simp add: releaseDiscarded_def Let_def releaseReservation_def split: option.split)
qed

lemma waiting_identity: "identityProven ids s = (ok, t) \<Longrightarrow> as_waiting t = as_waiting s"
  by (auto simp: identityProven_def split: if_splits)

lemma waiting_delete: "deletePhysical fa i s = (r, t) \<Longrightarrow> as_waiting t = as_waiting s"
  by (auto simp: deletePhysical_def Let_def split: if_splits prod.splits bool.splits
      dest!: waiting_identity same_strictDelete simp: same_permit_def)

lemma waiting_discard: "discardOwned fa i s = (ok, t) \<Longrightarrow> as_waiting t = as_waiting s"
  by (auto simp: discardOwned_def split: prod.splits option.splits dest: waiting_delete)

lemma waiters_discard:
  assumes p: "permit X Y s" and i: "as_responseId s = Some i \<longrightarrow> as_responseSettle s = None"
    and d: "discardOwned fa i s = (True, t)"
  shows "as_responseWaiters t = as_responseWaiters s \<and> as_responseHolder t = as_responseHolder s \<and> shut t = shut s"
proof -
  obtain x u where x: "deletePhysical fa i s = (Some x, u)" and t: "t = releaseDiscarded i x False u"
    using d by (auto simp: discardOwned_def split: prod.splits option.splits)
  have "same_permit s u" using permit_deletePhysical [OF p i x] by simp
  then show ?thesis
    by (cases x) (auto simp: t releaseDiscarded_def Let_def releaseReservation_def same_permit_def split: option.split)
qed

lemma completed_wakes:
  assumes p: "permit None False s" and l: "live s k l" and w: "as_responseWaiters s = w # ws"
  shows "w \<in> fst ` set (as_woken (complete_lease fa k s))" (is "w \<in> fst ` set (as_woken ?t)")
proof -
  have pt: "permit None False ?t" by (rule permit_complete [OF p])
  have open_: "\<not> shut s" using shut_idle(4) [OF p] l by blast
  have lk: "map_of (as_leases s) k = Some l" "\<not> le_done l"
    using l tokens_leases [OF permit_tokens [OF p]] by (simp_all add: live_def)
  let ?u = "clearTimer (le_id l) (finish_lease k s)"
  have t: "?t = end_lease fa (le_id l) k ?u"
    using lk open_ by (simp add: complete_lease_def Let_def clearTimer_def finish_lease_def)
  have u: "permit (Some k) False ?u" "as_responseHolder ?u = Some k" "as_responseId ?u = Some (le_id l)"
    using permit_same [OF same_clearTimer permit_finish(1) [OF p l]] permit_finish(2,3) [OF p l]
    by (simp_all add: clearTimer_def)
  let ?v = "?u\<lparr>as_responseSettle := None\<rparr>"
  have detach: "detachResponseSettle (le_id l) ?u = ?v" using u by (simp add: detachResponseSettle_def)
  have pv: "permit (Some k) False ?v"
  proof -
    have "flow (Some k) False ?v" by (rule flow_cong [OF permit_flow [OF u(1)]]) simp_all
    moreover have "held (Some k) ?v"
      by (rule heldI) (use u(2) permit_live [OF u(1)] permit_consuming [OF u(1)] in \<open>auto simp: live_def\<close>)
    moreover have "tokens ?v" by (rule tokens_cong [OF permit_tokens [OF u(1)]]) simp_all
    ultimately show ?thesis by (simp add: permit_def)
  qed
  obtain ok d where d: "discardOwned fa (le_id l) ?v = (ok, d)" by (meson surj_pair)
  have wait: "as_waiting ?t = as_waiting s"
    using waiting_discard [OF d] by (simp add: t end_lease_def detach d)
  have in_queue: "w \<in> fst ` set (as_waiting ?t)" using tokens_queue(4) [OF permit_tokens [OF p]] w wait by auto
  have "w \<notin> set (as_responseWaiters ?t)"
  proof (cases ok)
    case False
    have "permit None False (markUnhealthy d)"
      using permit_discardOwned(1) [OF pv _ _ d] permit_live [OF u(1)] u(2) by (intro permit_poisoned) (fastforce simp: live_def)
    then have m: "as_responseHolder (markUnhealthy d) = None" "as_responseWaiters (markUnhealthy d) = []"
      using shut_idle(1) flow_shut [OF permit_flow] by auto
    have "?t = markUnhealthy d" using False by (simp add: t end_lease_def detach d yieldPermit_def m)
    then show ?thesis using m by simp
  next
    case True
    then have d': "discardOwned fa (le_id l) ?v = (True, d)" using d by simp
    have q: "as_responseWaiters d = w # ws" "as_responseHolder d = Some k" "\<not> shut d"
      using waiters_discard [OF pv _ d'] w u(2) open_ by (auto simp: clearTimer_def finish_lease_def)
    have "?t = yieldPermit k d" using True by (simp add: t end_lease_def detach d)
    then have "as_responseWaiters ?t = ws" using q by (simp add: yieldPermit_def releaseResponse_open)
    then show ?thesis using tokens_queue(1) [OF permit_tokens [OF p]] w by simp
  qed
  then show ?thesis using tokens_queue(4) [OF permit_tokens [OF pt]] in_queue by auto
qed

text \<open>C27: No caller waits for the response permit in vain: while one waits, either a woken caller is about to take its turn
  or a lease is in progress, and completing that lease wakes the first in line, with the permit or, when the store is
  poisoned on the way, with a refusal.\<close>

theorem permit_never_lost:
  assumes "reachable fresh_store (astep sha) s" "as_responseWaiters s = w # ws"
  shows "(\<exists>v i cid. (v, True) \<in> set (as_woken s) \<and> (v, i, cid) \<in> set (as_waiting s)) \<or>
    (\<exists>k l. (k, l) \<in> set (as_leases s) \<and> \<not> le_done l \<and> (\<forall>fa. w \<in> fst ` set (as_woken (complete_lease fa k s))))"
proof -
  have p: "permit None False s" using artifact.always [OF assms(1)] by (simp add: store_inv_def)
  note f = permit_flow [OF p] and q = tokens_queue [OF permit_tokens [OF p]]
  have open_: "\<not> shut s" using flow_shut [OF f] assms(2) by auto
  then have busy: "as_responseHolder s \<noteq> None \<or> granted s \<noteq> []" using flow_open [OF f] assms(2) by auto
  show ?thesis
  proof (cases "granted s")
    case Nil
    then obtain k where "as_responseHolder s = Some k" using busy by auto
    then obtain l where l: "live s k l" using permit_holder [OF p] by blast
    then have "(k, l) \<in> set (as_leases s) \<and> \<not> le_done l \<and> (\<forall>fa. w \<in> fst ` set (as_woken (complete_lease fa k s)))"
      using completed_wakes [OF p l assms(2)] by (simp add: live_def)
    then show ?thesis by blast
  next
    case (Cons v vs)
    then have "v \<in> set (granted s)" by simp
    then have v: "(v, True) \<in> set (as_woken s)" by (auto simp: granted_def)
    then have "v \<in> fst ` set (as_waiting s)" using q(4) by force
    then show ?thesis using v by force
  qed
qed

lemma permit_never_lost_witness:
  "\<exists>k l. (k, l) \<in> set (as_leases demo_waiting) \<and> \<not> le_done l \<and>
     (\<forall>fa. 3 \<in> fst ` set (as_woken (complete_lease fa k demo_waiting)))"
proof -
  have "as_responseWaiters demo_waiting = [3]" "as_woken demo_waiting = []"
    by (simp_all add: demo_waiting_def demo_two_def demo_one_def new_store_def)
  then show ?thesis using permit_never_lost [OF store_demo_reachable(2), of 3 "[]"] by simp
qed

end
