(* ===== verification/Artifact_Close.thy ===== *)
theory Artifact_Close
  imports Artifact_Claims
begin

text \<open>
  How far the artifact store has closed, in every reachable state, and what a close leaves behind: either
  nothing at all, lock included, or everything the books listed.
\<close>

section \<open>The progress of a close\<close>

definition closing :: "artifact_store \<Rightarrow> bool \<times> bool \<times> artifact_code option option \<times> bool" where
  "closing s = (as_disposed s, as_teardownStarted s, as_closeResult s, as_closeRequested s)"

definition closing_ok :: "artifact_store \<Rightarrow> bool" where
  "closing_ok s \<longleftrightarrow> (as_disposed s \<or> as_teardownStarted s \<or> as_closeResult s \<noteq> None \<longrightarrow> as_closeRequested s)"

lemma closing_okI: "closing_ok s \<Longrightarrow> closing t = closing s \<Longrightarrow> closing_ok t"
  by (simp add: closing_def closing_ok_def)

lemma closing_upd [simp]:
  "closing (s\<lparr>as_cfg := x0\<rparr>) = closing s" "closing (s\<lparr>as_unhealthy := x1\<rparr>) = closing s"
  "closing (s\<lparr>as_identityLost := x2\<rparr>) = closing s" "closing (s\<lparr>as_rootOpen := x3\<rparr>) = closing s"
  "closing (s\<lparr>as_dataOpen := x4\<rparr>) = closing s" "closing (s\<lparr>as_locked := x5\<rparr>) = closing s"
  "closing (s\<lparr>as_activeCaptures := x6\<rparr>) = closing s" "closing (s\<lparr>as_inflight := x7\<rparr>) = closing s"
  "closing (s\<lparr>as_discardedInflight := x8\<rparr>) = closing s" "closing (s\<lparr>as_records := x9\<rparr>) = closing s"
  "closing (s\<lparr>as_timers := x10\<rparr>) = closing s" "closing (s\<lparr>as_cleanupTimer := x11\<rparr>) = closing s"
  "closing (s\<lparr>as_reservations := x12\<rparr>) = closing s" "closing (s\<lparr>as_consumerLedger := x13\<rparr>) = closing s"
  "closing (s\<lparr>as_ledgerCount := x14\<rparr>) = closing s" "closing (s\<lparr>as_ledgerBytes := x15\<rparr>) = closing s"
  "closing (s\<lparr>as_stagePermits := x16\<rparr>) = closing s" "closing (s\<lparr>as_responseBusy := x17\<rparr>) = closing s"
  "closing (s\<lparr>as_responseHolder := x18\<rparr>) = closing s" "closing (s\<lparr>as_responseId := x19\<rparr>) = closing s"
  "closing (s\<lparr>as_responseBytes := x20\<rparr>) = closing s" "closing (s\<lparr>as_responseSettle := x21\<rparr>) = closing s"
  "closing (s\<lparr>as_responseWaiters := x22\<rparr>) = closing s" "closing (s\<lparr>as_next := x23\<rparr>) = closing s"
  "closing (s\<lparr>as_captures := x24\<rparr>) = closing s" "closing (s\<lparr>as_waiting := x25\<rparr>) = closing s"
  "closing (s\<lparr>as_woken := x26\<rparr>) = closing s" "closing (s\<lparr>as_leases := x27\<rparr>) = closing s"
  "closing (s\<lparr>as_notified := x28\<rparr>) = closing s" "closing (s\<lparr>as_disk := x29\<rparr>) = closing s"
  by (simp_all add: closing_def)

lemma closing_same [simp]:
  "closing (releaseResponse s) = closing s" "closing (finish_lease k s) = closing s"
  "closing (yieldPermit k s) = closing s" "closing (run_settle x s) = closing s"
  "closing (settleResponses s) = closing s" "closing (cancelTimers s) = closing s" "closing (markUnhealthy s) = closing s"
  "closing (clearTimer i s) = closing s" "closing (detachResponseSettle i s) = closing s"
  "closing (releaseStage i k s) = closing s" "closing (releaseReservation i k s) = closing s"
  "closing (shrinkReservation i k n s) = closing s" "closing (resume_capture cp s) = closing s"
  "closing (releaseDiscarded i d c s) = closing s"
proof -
  show r [simp]: "closing (releaseResponse s) = closing s" for s by (simp add: releaseResponse_def split: prod.split)
  show f [simp]: "closing (finish_lease k s) = closing s" for s k by (simp add: finish_lease_def)
  show y [simp]: "closing (yieldPermit k s) = closing s" for s k by (simp add: yieldPermit_def)
  show u [simp]: "closing (run_settle x s) = closing s" for s x by (simp add: run_settle_def split: option.split)
  show t [simp]: "closing (settleResponses s) = closing s" for s by (simp add: settleResponses_def Let_def)
  show c [simp]: "closing (cancelTimers s) = closing s" for s by (simp add: cancelTimers_def)
  show "closing (markUnhealthy s) = closing s" by (simp add: markUnhealthy_def)
  show "closing (clearTimer i s) = closing s" by (simp add: clearTimer_def)
  show "closing (detachResponseSettle i s) = closing s" by (simp add: detachResponseSettle_def)
  show "closing (releaseStage i k s) = closing s" by (simp add: releaseStage_def split: option.split)
  show e [simp]: "closing (releaseReservation i k s) = closing s" for i k s
    by (simp add: releaseReservation_def Let_def split: option.split)
  show "closing (shrinkReservation i k n s) = closing s" by (simp add: shrinkReservation_def Let_def split: option.split)
  show "closing (resume_capture cp s) = closing s" by (simp add: resume_capture_def)
  show "closing (releaseDiscarded i d c s) = closing s"
    by (cases d; cases "fst d"; cases "snd d"; simp add: releaseDiscarded_def Let_def split: option.split)
qed

lemma closing_identity: "identityProven ids s = (ok, t) \<Longrightarrow> closing t = closing s"
  by (auto simp: identityProven_def split: if_splits)

lemma closing_unlink: "fold (unlink_name fa) names (ok0, ch0, s) = (ok, ch, t) \<Longrightarrow> closing t = closing s"
proof (induction names arbitrary: ok0 ch0 s)
  case (Cons n names)
  then show ?case
    by (cases "fa_unlink fa n") (auto simp: unlink_name_def closing_def dest!: Cons.IH)
qed simp

lemma closing_delete: "strictDelete fa names s = (ok, t) \<Longrightarrow> closing t = closing s"
  by (auto simp: strictDelete_def split: if_splits prod.splits dest: closing_unlink)

lemma closing_physical: "deletePhysical fa i s = (r, t) \<Longrightarrow> closing t = closing s"
proof -
  assume d: "deletePhysical fa i s = (r, t)"
  let ?u = "if as_responseId s = Some i then run_settle (as_responseSettle s) (clearTimer i s\<lparr>as_responseSettle := None\<rparr>) else clearTimer i s"
  have u: "closing ?u = closing s" by simp
  obtain ok v where v: "identityProven (fa_identity fa) ?u = (ok, v)" by (meson surj_pair)
  obtain c w where w: "strictDelete fa [(i, Pdf), (i, Part)] v = (c, w)" by (meson surj_pair)
  have "t = v \<or> t = markUnhealthy w \<or> t = w"
    using d v w by (cases ok; cases c) (simp_all add: deletePhysical_def Let_def clearTimer_def split: if_splits)
  then show "closing t = closing s" using closing_identity [OF v] closing_delete [OF w] u by auto
qed

lemma closing_discard: "closing (snd (discardOwned fa i s)) = closing s" "closing (snd (discardArtifactDetailed fa i s)) = closing s"
proof -
  show o: "closing (snd (discardOwned fa i s)) = closing s"
    by (cases "deletePhysical fa i s") (auto simp: discardOwned_def closing_physical split: option.split)
  then show "closing (snd (discardArtifactDetailed fa i s)) = closing s"
    by (cases "discardOwned fa i s") (simp add: discardArtifactDetailed_def)
qed

lemma closing_reap: "closing (reapExpired now fa s) = closing s"
proof -
  have "closing (fold (\<lambda>(i, rec) t. if now \<ge> sr_expiresAt rec then snd (discardArtifactDetailed (fa i) i t) else t) xs s) = closing s"
    for xs s by (induction xs arbitrary: s) (auto simp: closing_discard)
  then show ?thesis by (simp add: reapExpired_def)
qed

lemma closing_cleanup: "closing (runCleanupPass now fa s) = closing s"
  by (simp add: runCleanupPass_def Let_def closing_reap)

lemma closing_release_all: "closing (fold (\<lambda>(i, d). releaseDiscarded i d c) swept s) = closing s"
  by (induction swept arbitrary: s) auto

lemma finishClose_closes:
  assumes "as_closeRequested s" shows "as_closeRequested (finishClose ca s)"
proof -
  have m: "kept_books u v \<Longrightarrow> as_closeRequested u \<Longrightarrow> as_closeRequested v" for u v by (simp add: kept_books_def)
  have c1: "as_closeRequested s1" if "identityProven (ca_identity ca) (s\<lparr>as_teardownStarted := True\<rparr>) = (ok, s1)" for ok s1
    using m [OF kept_identityProven [OF that]] assms by simp
  have sw: "as_closeRequested v" if "sweep_records fa js u = (ok, swept, v)" "as_closeRequested u" for fa js u ok swept v
    using that
  proof (induction js arbitrary: u ok swept)
    case (Cons i js)
    then show ?case using m [OF deletePhysical_kept(1)] by (auto split: prod.splits option.splits)
  qed simp
  show ?thesis
  proof (cases rule: finishClose_cases [of s ca])
    case idle
    then show ?thesis using assms by simp
  next
    case (lost s1)
    then show ?thesis using m [OF kept_close_end c1 [OF lost(1)]] by simp
  next
    case (failed s1 c swept s2 u v)
    have c2: "as_closeRequested s2" by (rule sw [OF failed(2) c1 [OF failed(1)]])
    have c3: "as_closeRequested u" using failed(3) c2 m [OF kept_strictDelete(1)] by (metis swept_to_def surjective_pairing)
    have "as_closeRequested v" using failed(4) c3 m [OF conjunct1 [OF kept_teardown [OF prod.collapse [symmetric]]]] by auto
    then show ?thesis using m [OF kept_close_failed] failed(5) by simp
  next
    case (clean s1 swept s2 names s3 s4)
    have "as_closeRequested s4"
      by (rule m [OF conjunct1 [OF kept_teardown [OF clean(4)]]], rule m [OF kept_strictDelete(1) [OF clean(3)]],
          rule sw [OF clean(2) c1 [OF clean(1)]])
    then have "as_closeRequested (fold (\<lambda>(i, d). releaseDiscarded i d True) swept s4)"
      using closing_release_all [of True swept s4] by (simp add: closing_def)
    then show ?thesis using m [OF kept_close_end] clean(5) by simp
  qed
qed

lemma closing_finish: "closing_ok s \<Longrightarrow> closing_ok (finishClose ca s)"
  using finishClose_closes [of s ca] by (cases "as_closeRequested s") (simp_all add: closing_ok_def, simp add: finishClose_def)

lemma closing_finally: "closing_ok s \<Longrightarrow> closing_ok (capture_finally ca i tok keep s)"
proof -
  assume c: "closing_ok s"
  let ?s2 = "if keep then releaseStage i tok s else releaseReservation i tok (releaseStage i tok s)"
  have "closing_ok (?s2\<lparr>as_discardedInflight := D, as_inflight := F, as_activeCaptures := n\<rparr>)" for D F n
    by (rule closing_okI [OF c]) simp
  then show ?thesis using closing_finish by (simp add: capture_finally_def Let_def)
qed

lemma closing_failed: "closing_ok s \<Longrightarrow> closing_ok (snd (capture_failed fa ca names i tok s))"
proof -
  assume c: "closing_ok s"
  obtain ok t where t: "strictDelete fa names s = (ok, t)" by (meson surj_pair)
  have "closing_ok t" "closing_ok (markUnhealthy t)" by (rule closing_okI [OF c], simp add: closing_delete [OF t])+
  then show ?thesis using t closing_finally by (cases ok) (simp_all add: capture_failed_def)
qed

lemma closing_proven: "closing_ok s \<Longrightarrow> identityProven ids s = (ok, t) \<Longrightarrow> closing_ok t"
  by (erule closing_okI) (rule closing_identity)

lemma closing_capture: "closing_ok s \<Longrightarrow> closing_ok (snd (capture_artifact sha now fa src sa opts s))"
proof -
  assume c: "closing_ok s"
  have r: "closing_ok (reapExpired now fa s)" by (rule closing_okI [OF c closing_reap])
  have upd: "closing_ok t \<Longrightarrow> closing_ok (t\<lparr>as_disk := D\<rparr>)" "closing_ok t \<Longrightarrow> closing_ok (t\<lparr>as_disk := D, as_captures := cs\<rparr>)"
    for t D cs by (erule closing_okI, simp)+
  have body: "closing_ok (snd (capture_body sha src sa i cid ttl tok t))" if "closing_ok t" for i cid ttl tok t
  proof -
    have s1: "closing_ok (shrinkReservation i tok n t)" for n by (rule closing_okI [OF that]) simp
    show ?thesis
      using that s1 closing_proven [OF s1] upd
      by (auto simp: capture_body_def Let_def closing_finally closing_failed split: option.split prod.split bool.split)
  qed
  have "closing t = closing u" if "reserve i cid u = (x, t)" for i cid x t u
    using that by (auto simp: reserve_def Let_def closing_def split: prod.splits if_splits)
  then have res: "reserve i cid (reapExpired now fa s) = (x, t) \<Longrightarrow> closing_ok t" for i cid x t
    using closing_okI [OF r] by blast
  have "reserve i cid (reapExpired now fa s) = (x, t) \<Longrightarrow> closing_ok (t\<lparr>as_inflight := F, as_activeCaptures := n\<rparr>)" for i cid x t F n
    by (rule closing_okI [OF res]) simp_all
  then show ?thesis using c r res body
    by (auto simp: capture_artifact_def Let_def split: option.split prod.split)
qed

lemma closing_link: "closing_ok s \<Longrightarrow> closing_ok (snd (capture_link ma cp s))"
proof -
  assume c: "closing_ok s"
  have s1: "closing_ok (resume_capture cp s)" by (rule closing_okI [OF c]) simp
  have upd: "closing_ok t \<Longrightarrow> closing_ok (t\<lparr>as_disk := D\<rparr>)" "closing_ok t \<Longrightarrow> closing_ok (t\<lparr>as_disk := D, as_captures := cs\<rparr>)"
    for t D cs by (erule closing_okI, simp)+
  show ?thesis
    using s1 closing_proven [OF s1] upd
    by (auto simp: capture_link_def Let_def closing_finally closing_failed split: prod.split bool.split)
qed

lemma closing_commit: "closing_ok s \<Longrightarrow> closing_ok (snd (capture_commit now ma cp s))"
proof -
  assume c: "closing_ok s"
  have s1: "closing_ok (resume_capture cp s)" by (rule closing_okI [OF c]) simp
  have put: "closing_ok t \<Longrightarrow> closing_ok (t\<lparr>as_records := R\<rparr>)" "closing_ok t \<Longrightarrow> closing_ok (markUnhealthy t)"
    "closing_ok t \<Longrightarrow> strictDelete fa ns t = (ok, u) \<Longrightarrow> closing_ok u" for t R fa ns ok u
    by (erule closing_okI, simp add: closing_delete)+
  obtain ok t where t: "identityProven (ma_identity ma) (resume_capture cp s) = (ok, t)" by (meson surj_pair)
  have pt: "closing_ok t" by (rule closing_proven [OF s1 t])
  obtain d u where u: "strictDelete (ma_undo ma) [(cp_id cp, Pdf)] t = (d, u)" by (meson surj_pair)
  show ?thesis
    using s1 t pt u put(3) [OF pt u]
    by (cases ok; cases d) (auto simp: capture_commit_def Let_def closing_finally closing_failed put)
qed

lemma closing_end_lease: "closing (end_lease fa i tok s) = closing s"
  using closing_discard(1) [of fa i "detachResponseSettle i s"]
  by (cases "discardOwned fa i (detachResponseSettle i s)") (simp add: end_lease_def)

lemma closing_admitted: "closing (snd (admitted sha now later qa i s)) = closing s"
proof -
  obtain ok t where t: "identityProven (qa_identity qa) s = (ok, t)" by (meson surj_pair)
  show ?thesis
    using t closing_identity [OF t] by (cases ok) (simp_all add: admitted_def Let_def closing_end_lease split: option.split)
qed

lemma closing_leasable: "leasable now fa i cid s = (ok, t) \<Longrightarrow> closing t = closing s"
  by (auto simp: leasable_def Let_def closing_reap split: if_splits option.splits)

lemma closing_acquire: "closing (snd (acquire_artifact sha now later fa qa i cid s)) = closing s"
proof -
  obtain ok t where t: "leasable now fa i cid s = (ok, t)" by (meson surj_pair)
  show ?thesis using t closing_leasable [OF t]
    by (cases ok) (simp_all add: acquire_artifact_def closing_admitted)
qed

lemma closing_resumed: "closing (snd (lease_resumed sha now later fa qa w go i cid s)) = closing s"
proof -
  let ?s1 = "s\<lparr>as_woken := filter (\<lambda>q. fst q \<noteq> w) (as_woken s), as_waiting := filter (\<lambda>q. fst q \<noteq> w) (as_waiting s)\<rparr>"
  have s1: "closing ?s1 = closing s" by simp
  obtain ok t where t: "leasable now fa i cid ?s1 = (ok, t)" by (meson surj_pair)
  show ?thesis using t closing_leasable [OF t] s1
    by (cases ok) (simp_all add: lease_resumed_def Let_def closing_admitted)
qed

lemma closing_turns:
  "closing (claimTimeout tok s) = closing s" "closing (complete_lease fa tok s) = closing s"
  "closing (response_timeout fa i s) = closing s"
  by (simp_all add: claimTimeout_def complete_lease_def response_timeout_def Let_def closing_end_lease split: option.split)

lemma closing_step:
  assumes "closing_ok s" "cf_enabled (as_cfg s)" "astep sha s e s'" shows "closing_ok s'"
proof (cases e)
  case (CloseStore ca)
  have "closing_ok (settleResponses (cancelTimers s)\<lparr>as_closeRequested := True\<rparr>)" by (simp add: closing_ok_def)
  then show ?thesis using CloseStore assms closing_finish by (simp add: astep_def close_store_def)
qed (use assms in \<open>auto simp: astep_def closing_capture closing_link closing_commit closing_acquire closing_resumed
       closing_turns closing_discard closing_cleanup elim!: closing_okI\<close>)

lemma closing_always:
  "reachable fresh_store (astep sha) s \<Longrightarrow> books sha None s \<and> permit None False s \<and> closing_ok s"
proof (induction rule: reachable.induct)
  case (start s)
  then have "closing_ok s" unfolding fresh_store_def by (metis closing_ok_def new_store_def artifact_store.select_convs(2-6,10) option.distinct(1))
  then show ?case using store_inv_init [OF start] by (simp add: store_inv_def)
next
  case (more s e s')
  have "store_inv sha s'" by (rule store_inv_step [OF _ more(2)]) (use more.IH in \<open>simp add: store_inv_def\<close>)
  moreover have "closing_ok s'"
    by (rule closing_step [OF _ _ more(2)]) (use more.IH flow_env [OF permit_flow] in blast)+
  ultimately show ?case by (simp add: store_inv_def)
qed

section \<open>What a close leaves\<close>

lemma release_all_sel:
  "as_disk (fold (\<lambda>(i, d). releaseDiscarded i d c) swept s) = as_disk s \<and>
   as_locked (fold (\<lambda>(i, d). releaseDiscarded i d c) swept s) = as_locked s"
proof (induction swept arbitrary: s)
  case (Cons p swept)
  have "as_locked (releaseDiscarded i d c s) = as_locked s" for i d
    by (cases d) (simp add: releaseDiscarded_def releaseReservation_def Let_def split: option.split)
  then show ?case using Cons.IH by (cases p) (simp add: releaseDiscarded_sel)
qed simp

lemma release_all_gone:
  "k \<in> fst ` set (as_records (fold (\<lambda>(i, d). releaseDiscarded i d c) swept s)) \<Longrightarrow>
     k \<in> fst ` set (as_records s) \<and> (\<forall>d. (k, d) \<in> set swept \<longrightarrow> \<not> fst d)"
proof (induction swept arbitrary: s)
  case (Cons p swept)
  obtain i d where p: "p = (i, d)" by (cases p)
  have ih: "k \<in> fst ` set (as_records (releaseDiscarded i d c s)) \<and> (\<forall>d. (k, d) \<in> set swept \<longrightarrow> \<not> fst d)"
    by (rule Cons.IH) (use Cons.prems p in simp)
  have "k \<in> fst ` set (as_records s) \<and> (k = i \<longrightarrow> \<not> fst d)"
    using conjunct1 [OF ih] by (auto simp: releaseDiscarded_sel alist_del_def split: if_splits)
  then show ?case using conjunct2 [OF ih] unfolding p list.set by blast
qed simp

lemma sweep_all:
  "sweep_records fa js s = (ok, swept, t) \<Longrightarrow> closing t = closing s \<and> (ok \<longrightarrow> map fst swept = js)"
proof (induction js arbitrary: s ok swept)
  case (Cons i js)
  obtain r s1 where d: "deletePhysical (fa i) i s = (r, s1)" by (meson surj_pair)
  obtain ok' swept' s2 where rest: "sweep_records fa js s1 = (ok', swept', s2)" by (metis prod_cases3)
  have t: "t = s2" using Cons.prems d rest by (auto split: option.splits)
  show ?case using Cons.prems d rest Cons.IH [OF rest [folded t]] closing_physical [OF d] by (auto split: option.splits)
qed simp

lemma kept_sweep: "sweep_records fa js s = (ok, swept, t) \<Longrightarrow> kept_books s t"
proof (induction js arbitrary: s ok swept)
  case (Cons i js)
  obtain r s1 where d: "deletePhysical (fa i) i s = (r, s1)" by (meson surj_pair)
  obtain ok' swept' s2 where rest: "sweep_records fa js s1 = (ok', swept', s2)" by (metis prod_cases3)
  have t: "t = s2" using Cons.prems d rest by (auto split: option.splits)
  show ?case by (rule kept_trans [OF deletePhysical_kept(1) [OF d] Cons.IH [OF rest [folded t]]])
qed simp

lemma closing_teardown: "store_teardown ca s = (ok, t) \<Longrightarrow> closing t = closing s \<and> (ok \<longrightarrow> \<not> as_locked t)"
  by (auto simp: store_teardown_def Let_def closing_def split: if_splits)

lemma close_resolved:
  "as_closeResult u = None \<Longrightarrow> as_closeResult (resolve_close r (closeDescriptors u)) = Some r"
  "as_records (resolve_close r (closeDescriptors u)) = as_records u" "as_disk (resolve_close r (closeDescriptors u)) = as_disk u"
  "as_locked (resolve_close r (closeDescriptors u)) = as_locked u"
  "as_disposed (resolve_close r (closeDescriptors u))" "\<not> as_dataOpen (resolve_close r (closeDescriptors u))"
  "\<not> as_rootOpen (resolve_close r (closeDescriptors u))"
  by (simp_all add: resolve_close_def closeDescriptors_def)


end
