(* ===== verification/Artifact_Leases.thy ===== *)
theory Artifact_Leases
  imports Artifact_Close
begin

text \<open>
  What happens to the records: only a commit publishes one and only a lease takes one, so a taken
  artifact is never available again; and what whoever is handed a response can rely on.
\<close>

section \<open>Records only leave\<close>

text \<open>The contract of a property of the records that survives whatever does not publish or lease: it does not look at the
  rest of the state, and it survives a discard.\<close>

locale records_frame =
  fixes P :: "artifact_store \<Rightarrow> bool"
  assumes same: "P s \<Longrightarrow> as_records t = as_records s \<Longrightarrow> P t"
    and release: "P s \<Longrightarrow> P (releaseDiscarded i d c s)"
begin

lemma kept: "P s \<Longrightarrow> kept_books s t \<Longrightarrow> P t"
  by (rule same) (simp_all add: kept_books_def)

lemma discard_owned: "P s \<Longrightarrow> P (snd (discardOwned fa i s))"
  by (auto simp: discardOwned_def split: prod.split option.split dest: deletePhysical_kept(1) intro: kept release)

lemma discard: "P s \<Longrightarrow> P (snd (discardArtifactDetailed fa i s))"
  using discard_owned [of s fa i] by (auto simp: discardArtifactDetailed_def split: prod.split)

lemma reap: "P s \<Longrightarrow> P (reapExpired now fa s)"
proof -
  have "P s \<Longrightarrow> P (fold (\<lambda>(i, rec) t. if now \<ge> sr_expiresAt rec then snd (discardArtifactDetailed (fa i) i t) else t) xs s)"
    for xs s by (induction xs arbitrary: s) (auto simp: discard)
  then show "P s \<Longrightarrow> ?thesis" by (simp add: reapExpired_def)
qed

lemma cleanup: "P s \<Longrightarrow> P (runCleanupPass now fa s)"
proof -
  assume p: "P s"
  have "P (reapExpired now fa (s\<lparr>as_cleanupTimer := False\<rparr>))" by (rule reap [OF same [OF p]]) simp
  then have "P (reapExpired now fa (s\<lparr>as_cleanupTimer := False\<rparr>)\<lparr>as_cleanupTimer := True\<rparr>)" by (rule same) simp
  then show ?thesis using \<open>P (reapExpired now fa (s\<lparr>as_cleanupTimer := False\<rparr>))\<close> same [OF p, of "s\<lparr>as_cleanupTimer := False\<rparr>"]
    by (simp add: runCleanupPass_def Let_def)
qed

lemma release_all: "P s \<Longrightarrow> P (fold (\<lambda>(i, d). releaseDiscarded i d c) swept s)"
  by (induction swept arbitrary: s) (auto simp: release)

lemma sweep: "P s \<Longrightarrow> sweep_records fa js s = (ok, swept, t) \<Longrightarrow> P t"
proof (induction js arbitrary: s ok swept)
  case (Cons i js)
  obtain r s1 where d: "deletePhysical (fa i) i s = (r, s1)" by (meson surj_pair)
  obtain ok' swept' s2 where rest: "sweep_records fa js s1 = (ok', swept', s2)" by (metis prod_cases3)
  have "t = s2" using Cons.prems(2) d rest by (auto split: option.splits)
  then show ?case using Cons.IH [OF kept [OF Cons.prems(1) deletePhysical_kept(1) [OF d]]] rest by blast
qed simp

lemma finish: "P s \<Longrightarrow> P (finishClose ca s)"
proof -
  assume p: "P s"
  have p1: "P s1" if "identityProven (ca_identity ca) (s\<lparr>as_teardownStarted := True\<rparr>) = (ok, s1)" for ok s1
    by (rule kept [OF same [OF p] kept_identityProven [OF that]]) simp
  show ?thesis
  proof (cases rule: finishClose_cases [of s ca])
    case idle
    then show ?thesis using p by simp
  next
    case (lost s1)
    then show ?thesis using kept [OF p1 [OF lost(1)] kept_close_end] by simp
  next
    case (failed s1 c swept s2 u v)
    have p2: "P s2" by (rule sweep [OF p1 [OF failed(1)] failed(2)])
    have p3: "P u" using failed(3) p2 kept [OF p2 kept_strictDelete(1)] by (metis swept_to_def surjective_pairing)
    have "P v" using failed(4) p3 kept [OF p3] kept_teardown by (metis surjective_pairing)
    then show ?thesis using kept [OF _ kept_close_failed] failed(5) by simp
  next
    case (clean s1 swept s2 names s3 s4)
    have "P s4" using kept [OF kept [OF sweep [OF p1 [OF clean(1)] clean(2)] kept_strictDelete(1) [OF clean(3)]]] kept_teardown [OF clean(4)] by blast
    then show ?thesis using kept [OF release_all kept_close_end] clean(5) by simp
  qed
qed

lemma ends_capture: "P s \<Longrightarrow> P (capture_finally ca i tok keep s)"
proof -
  assume p: "P s"
  let ?s2 = "if keep then releaseStage i tok s else releaseReservation i tok (releaseStage i tok s)"
  have "P (?s2\<lparr>as_discardedInflight := D, as_inflight := F, as_activeCaptures := n\<rparr>)" for D F n
    by (rule same [OF p]) simp
  then show ?thesis using finish by (simp add: capture_finally_def Let_def)
qed

lemma failed: "P s \<Longrightarrow> P (snd (capture_failed fa ca names i tok s))"
proof -
  assume p: "P s"
  obtain ok t where t: "strictDelete fa names s = (ok, t)" by (meson surj_pair)
  have "P t" "P (markUnhealthy t)" using kept [OF p kept_strictDelete(1) [OF t]] kept kept_markUnhealthy by blast+
  then show ?thesis using t ends_capture by (cases ok) (simp_all add: capture_failed_def)
qed

lemma identity: "P s \<Longrightarrow> identityProven ids s = (ok, t) \<Longrightarrow> P t"
  using kept kept_identityProven by blast

lemma body: "P s \<Longrightarrow> P (snd (capture_body sha src sa i cid ttl tok s))"
proof -
  assume p: "P s"
  have s1: "P (shrinkReservation i tok n s)" for n by (rule same [OF p]) simp
  have disk: "P t \<Longrightarrow> P (t\<lparr>as_disk := D\<rparr>)" and await: "P t \<Longrightarrow> P (t\<lparr>as_disk := D, as_captures := cs\<rparr>)" for t D cs
    by (erule same, simp)+
  show ?thesis
    using p s1 identity [OF s1] disk await
    by (auto simp: capture_body_def Let_def ends_capture failed split: option.split prod.split bool.split)
qed

lemma capture: "P s \<Longrightarrow> P (snd (capture_artifact sha now fa src sa opts s))"
proof -
  assume p: "P s"
  have r: "P (reapExpired now fa s)" by (rule reap [OF p])
  have res: "reserve i cid (reapExpired now fa s) = (x, t) \<Longrightarrow> P t" for i cid x t
    by (rule same [OF r]) (simp add: reserve_sel)
  have "reserve i cid (reapExpired now fa s) = (x, t) \<Longrightarrow> P (t\<lparr>as_inflight := F, as_activeCaptures := n\<rparr>)" for i cid x t F n
    by (rule same [OF res]) simp_all
  then show ?thesis using p r res body
    by (auto simp: capture_artifact_def Let_def split: option.split prod.split)
qed

lemma link: "P s \<Longrightarrow> P (snd (capture_link ma cp s))"
proof -
  assume p: "P s"
  have s1: "P (resume_capture cp s)" by (rule same [OF p]) (simp add: resume_capture_def)
  have disk: "P t \<Longrightarrow> P (t\<lparr>as_disk := D\<rparr>)" and await: "P t \<Longrightarrow> P (t\<lparr>as_disk := D, as_captures := cs\<rparr>)" for t D cs
    by (erule same, simp)+
  show ?thesis
    using s1 identity [OF s1] disk await
    by (auto simp: capture_link_def Let_def ends_capture failed split: prod.split bool.split)
qed

lemma ended: "P s \<Longrightarrow> P (end_lease fa i tok s)"
proof -
  assume "P s"
  then have "P (snd (discardOwned fa i (detachResponseSettle i s)))" by (intro discard_owned kept [OF _ kept_detach])
  moreover from this have "P (markUnhealthy (snd (discardOwned fa i (detachResponseSettle i s))))"
    by (rule kept) (rule kept_markUnhealthy)
  ultimately show ?thesis
    by (cases "discardOwned fa i (detachResponseSettle i s)")
      (auto simp: end_lease_def intro: kept [OF _ kept_yieldPermit])
qed

lemma claim: "P s \<Longrightarrow> P (claimTimeout tok s)"
  by (erule same) (simp add: claimTimeout_def clearTimer_def split: option.split)

lemma complete: "P s \<Longrightarrow> P (complete_lease fa tok s)"
proof -
  assume p: "P s"
  have "P (clearTimer i (finish_lease tok s))" for i by (rule same [OF p]) (simp add: clearTimer_def finish_lease_def)
  then show ?thesis using p ended kept [OF _ kept_yieldPermit]
    by (auto simp: complete_lease_def Let_def split: option.split)
qed

lemma timeout: "P s \<Longrightarrow> P (response_timeout fa i s)"
proof -
  assume p: "P s"
  have "P (clearTimer i s)" "P (finish_lease tok (clearTimer i s))" for tok
    by (rule same [OF p], simp add: clearTimer_def finish_lease_def)+
  then show ?thesis using p ended by (auto simp: response_timeout_def Let_def split: option.split)
qed

lemma close: "P s \<Longrightarrow> P (close_store ca s)"
proof -
  assume p: "P s"
  have "P (settleResponses (cancelTimers s))" by (rule kept [OF p kept_settled_close])
  then have "P (settleResponses (cancelTimers s)\<lparr>as_closeRequested := x\<rparr>)" "P (settleResponses (cancelTimers s)\<lparr>as_closeResult := y\<rparr>)"
    for x y by (auto elim: same)
  then show ?thesis using p finish by (simp add: close_store_def)
qed

end

definition takenAs :: "string \<Rightarrow> stored_record \<Rightarrow> artifact_store \<Rightarrow> bool" where
  "takenAs i r s \<longleftrightarrow> map_of (as_records s) i = None \<or> map_of (as_records s) i = Some r"

definition unavailable :: "string \<Rightarrow> artifact_store \<Rightarrow> bool" where
  "unavailable i s \<longleftrightarrow> (\<forall>r. map_of (as_records s) i = Some r \<longrightarrow> sr_consuming r)"

lemma map_of_releaseDiscarded:
  "map_of (as_records (releaseDiscarded i d c s)) j = None \<or>
   map_of (as_records (releaseDiscarded i d c s)) j = map_of (as_records s) j"
  by (cases d) (simp add: releaseDiscarded_def Let_def split: option.split)

interpretation taken: records_frame "takenAs i r" for i r
proof unfold_locales
  show "takenAs i r s \<Longrightarrow> takenAs i r (releaseDiscarded j d c s)" for s j d c
    using map_of_releaseDiscarded [of j d c s i] by (auto simp: takenAs_def)
qed (simp add: takenAs_def)

interpretation unavailable: records_frame "unavailable i" for i
proof unfold_locales
  show "unavailable i s \<Longrightarrow> unavailable i (releaseDiscarded j d c s)" for s j d c
    using map_of_releaseDiscarded [of j d c s i] by (auto simp: unavailable_def)
qed (simp add: unavailable_def)

lemma taken_commit:
  assumes p: "takenAs i r s" and i: "cp_id cp \<noteq> i"
  shows "takenAs i r (snd (capture_commit now ma cp s))"
proof -
  have s1: "takenAs i r (resume_capture cp s)" by (rule taken.same [OF p]) (simp add: resume_capture_def)
  have put: "takenAs i r t \<Longrightarrow> takenAs i r (t\<lparr>as_records := alist_put (cp_id cp) x (as_records t)\<rparr>)" for t x
    using i by (simp add: takenAs_def)
  have undone: "takenAs i r u" "takenAs i r (markUnhealthy u)"
    if "strictDelete (ma_undo ma) names t = (ok, u)" "takenAs i r t" for names t u ok
    using taken.kept [OF that(2) kept_strictDelete(1) [OF that(1)]] taken.kept [OF _ kept_markUnhealthy] by auto
  obtain ok t where t: "identityProven (ma_identity ma) (resume_capture cp s) = (ok, t)" by (meson surj_pair)
  have pt: "takenAs i r t" by (rule taken.identity [OF s1 t])
  obtain c u where u: "strictDelete (ma_undo ma) [(cp_id cp, Pdf)] t = (c, u)" by (meson surj_pair)
  show ?thesis
    using s1 t pt u undone [OF u pt]
    by (cases ok; cases c) (auto simp: capture_commit_def Let_def taken.ends_capture taken.failed put)
qed

lemma taken_admitted:
  assumes p: "takenAs i r s" and j: "j \<noteq> i"
  shows "takenAs i r (snd (admitted sha now later qa j s))"
proof -
  obtain ok t where t: "identityProven (qa_identity qa) s = (ok, t)" by (meson surj_pair)
  have pt: "takenAs i r t" by (rule taken.identity [OF p t])
  have rel: "takenAs i r (releaseResponse t)" by (rule taken.kept [OF pt kept_releaseResponse])
  define s2 where "s2 = t\<lparr>as_next := as_next t + 1, as_responseHolder := Some (as_next t), as_responseId := Some j,
                     as_responseSettle := Some (as_next t),
                     as_records := alist_put j (the (map_of (as_records t) j)\<lparr>sr_consuming := True\<rparr>) (as_records t),
                     as_timers := alist_put j (as_next t) (as_timers t)\<rparr>"
  have p2: "takenAs i r s2" using pt j by (simp add: takenAs_def s2_def)
  have "takenAs i r (end_lease (qa_fs qa) j (as_next t) (clearTimer j s2))"
    by (rule taken.ended) (rule taken.kept [OF p2 kept_clearTimer])
  moreover have "takenAs i r (s2\<lparr>as_responseBytes := n, as_leases := ls\<rparr>)" for n ls by (rule taken.same [OF p2]) simp
  ultimately show ?thesis
    using t pt rel by (cases ok) (simp_all add: admitted_def Let_def s2_def split: option.split)
qed

lemma taken_leasable:
  assumes p: "takenAs i r s" and r: "sr_consuming r" and l: "leasable now fa j cid s = (ok, t)"
  shows "takenAs i r t" and "ok \<Longrightarrow> j \<noteq> i"
proof -
  show t: "takenAs i r t" using taken.reap [OF p, of now fa] l
    by (auto simp: leasable_def Let_def split: if_splits option.splits)
  show "ok \<Longrightarrow> j \<noteq> i" using t l r by (auto simp: leasable_def Let_def takenAs_def split: if_splits option.splits)
qed

lemma taken_acquire:
  assumes p: "takenAs i r s" and r: "sr_consuming r"
  shows "takenAs i r (snd (acquire_artifact sha now later fa qa j cid s))"
proof -
  obtain ok t where l: "leasable now fa j cid s = (ok, t)" by (meson surj_pair)
  note t = taken_leasable [OF p r l]
  have "takenAs i r (t\<lparr>as_next := n, as_responseWaiters := ws, as_waiting := q\<rparr>)" "takenAs i r (t\<lparr>as_responseBusy := True\<rparr>)" for n ws q
    by (rule taken.same [OF t(1)], simp)+
  then show ?thesis using p l t taken_admitted by (cases ok) (simp_all add: acquire_artifact_def)
qed

lemma taken_resumed:
  assumes p: "takenAs i r s" and r: "sr_consuming r"
  shows "takenAs i r (snd (lease_resumed sha now later fa qa w go j cid s))"
proof -
  let ?s1 = "s\<lparr>as_woken := filter (\<lambda>q. fst q \<noteq> w) (as_woken s), as_waiting := filter (\<lambda>q. fst q \<noteq> w) (as_waiting s)\<rparr>"
  have p1: "takenAs i r ?s1" by (rule taken.same [OF p]) simp
  obtain ok t where l: "leasable now fa j cid ?s1 = (ok, t)" by (meson surj_pair)
  note t = taken_leasable [OF p1 r l]
  have "takenAs i r (releaseResponse t)" by (rule taken.kept [OF t(1) kept_releaseResponse])
  then show ?thesis using p1 l t taken_admitted by (cases ok) (simp_all add: lease_resumed_def Let_def)
qed

lemma taken_step:
  assumes b: "books sha None s" and r: "map_of (as_records s) i = Some r" "sr_consuming r" and step: "astep sha s e s'"
  shows "takenAs i r s'"
proof -
  have p: "takenAs i r s" using r by (simp add: takenAs_def)
  have other: "cp_id cp \<noteq> i" if "cp \<in> set (as_captures s)" for cp
    using books_record [OF b map_of_SomeD [OF r(1)]] that by (auto simp: record_ok_def)
  show ?thesis
    using step p r(2) other
    by (cases e) (auto simp: astep_def taken.capture taken.link taken_commit taken_acquire taken_resumed taken.claim
        taken.complete taken.timeout taken.discard taken.cleanup taken.close)
qed

text \<open>C28: A document is handed out at most once: a record that a lease has taken is, after any step whatever, either still
  taken or gone. No step makes it available again.\<close>

theorem artifact_consumed_once:
  assumes "reachable fresh_store (astep sha) s" "map_of (as_records s) i = Some r" "sr_consuming r" "astep sha s e s'"
  shows "map_of (as_records s') i = None \<or> map_of (as_records s') i = Some r"
  using taken_step [OF _ assms(2-4)] artifact.always [OF assms(1)] by (simp add: store_inv_def takenAs_def)

lemma artifact_consumed_once_witness:
  "map_of (as_records (complete_lease demo_fs 2 demo_waiting)) (demo_id CHR ''a'') = None \<or>
   map_of (as_records (complete_lease demo_fs 2 demo_waiting)) (demo_id CHR ''a'') = Some ((demo_record 1)\<lparr>sr_consuming := True\<rparr>)"
proof (rule artifact_consumed_once [OF store_demo_reachable(2)])
  show "map_of (as_records demo_waiting) (demo_id CHR ''a'') = Some ((demo_record 1)\<lparr>sr_consuming := True\<rparr>)"
    by (simp add: demo_waiting_def)
  show "astep demo_sha demo_waiting (Complete demo_fs 2) (complete_lease demo_fs 2 demo_waiting)" by (simp add: astep_def)
qed simp

section \<open>What a lease hands out\<close>

lemma shut_discard: "shut s \<Longrightarrow> snd (discardArtifactDetailed fa i s) = s"
  by (auto simp: discardArtifactDetailed_def)

lemma expired_discarded:
  assumes p: "permit None Y s" and i: "ARTIFACT_ID i" and c: "closing_ok s"
  shows "shut (snd (discardArtifactDetailed fa i s)) \<or> unavailable i (snd (discardArtifactDetailed fa i s))"
proof (cases "shut s \<or> unavailable i s")
  case True
  then show ?thesis using unavailable.discard by (auto simp: shut_discard)
next
  case False
  then obtain r where r: "map_of (as_records s) i = Some r" "\<not> sr_consuming r" by (auto simp: unavailable_def)
  obtain ok t where t: "discardOwned fa i s = (ok, t)" by (meson surj_pair)
  have d: "as_unhealthy t \<or> map_of (as_records t) i = None"
    using permit_discardOwned(2,3) [OF p permit_discardable(2,1) [OF p _ refl] t] False r by (cases ok) auto
  have "snd (discardArtifactDetailed fa i s) = t"
    using i c t r False flow_env [OF permit_flow [OF p]] by (auto simp: discardArtifactDetailed_def closing_ok_def)
  then show ?thesis using d by (auto simp: unavailable_def)
qed

lemma reaped:
  fixes fa :: "string \<Rightarrow> fs_answers" and now :: int
  assumes "permit None Y s" "closing_ok s" "\<forall>p \<in> set xs. ARTIFACT_ID (fst p)" "(i, rec) \<in> set xs" "sr_expiresAt rec \<le> now"
  defines "f \<equiv> \<lambda>(i, rec) t. if now \<ge> sr_expiresAt rec then snd (discardArtifactDetailed (fa i) i t) else t"
  shows "shut (fold f xs s) \<or> unavailable i (fold f xs s)"
  using assms(1-4)
proof (induction xs arbitrary: s)
  case (Cons x xs)
  obtain j q where x: "x = (j, q)" by (cases x)
  have stays: "shut t \<or> unavailable i t \<Longrightarrow> shut (fold f ys t) \<or> unavailable i (fold f ys t)" for ys t
  proof (induction ys arbitrary: t)
    case (Cons y ys)
    have "shut (f y t) \<or> unavailable i (f y t)"
      using Cons.prems unavailable.discard by (auto simp: f_def shut_discard split: prod.split)
    then show ?case using Cons.IH by simp
  qed simp
  have next_: "permit None Y (f x s)" "closing_ok (f x s)"
    using permit_discard [OF Cons.prems(1)] closing_okI [OF Cons.prems(2) closing_discard(2)] Cons.prems(1,2) by (simp_all add: x f_def)
  show ?case
  proof (cases "x = (i, rec)")
    case True
    then have "shut (f x s) \<or> unavailable i (f x s)"
      using expired_discarded [OF Cons.prems(1) _ Cons.prems(2)] Cons.prems(3) assms(5) by (simp add: f_def)
    then show ?thesis using stays [of "f x s" xs] by simp
  next
    case False
    then show ?thesis using Cons.IH [OF next_] Cons.prems(3,4) by simp
  qed
qed simp

lemma leasable_fresh:
  assumes b: "books sha None s" and p: "permit None Y s" and c: "closing_ok s" and l: "leasable now fa i cid s = (True, t)"
  shows "\<exists>r. map_of (as_records s) i = Some r \<and> map_of (as_records t) i = Some r \<and> sr_consumerId r = cid \<and>
    \<not> sr_consuming r \<and> now < sr_expiresAt r"
proof -
  have t: "t = reapExpired now fa s" and open_: "\<not> shut t"
    using l by (auto simp: leasable_def Let_def split: if_splits option.splits)
  obtain q where q: "map_of (as_records t) i = Some q" "sr_consumerId q = cid" "\<not> sr_consuming q"
    using l by (auto simp: leasable_def Let_def split: if_splits option.splits)
  then have "\<not> unavailable i s" using unavailable.reap [of i s now fa] t by (auto simp: unavailable_def)
  then obtain r where r: "map_of (as_records s) i = Some r" by (auto simp: unavailable_def)
  have "takenAs i r t" unfolding t by (rule taken.reap) (simp add: takenAs_def r)
  then have "q = r" using q by (simp add: takenAs_def)
  moreover have "now < sr_expiresAt r"
  proof (rule ccontr)
    assume "\<not> now < sr_expiresAt r"
    moreover have "\<forall>p \<in> set (as_records s). ARTIFACT_ID (fst p)" using books_record [OF b] by (fastforce simp: record_ok_def)
    ultimately have "shut t \<or> unavailable i t"
      using reaped [OF p c _ map_of_SomeD [OF r], of now fa] by (simp add: t reapExpired_def)
    then show False using open_ q by (simp add: unavailable_def)
  qed
  ultimately show ?thesis using q r by auto
qed

lemma admitted_lease:
  assumes a: "admitted sha now later qa i s = (Returns (Some l), t)" and r: "map_of (as_records s) i = Some r"
  shows "le_id l = i \<and> length (le_buffer l) = sr_bytes r \<and> sha (le_buffer l) = sr_sha256 r \<and> later < now + RESPONSE_LEASE_MS \<and>
    map_of (as_records t) i = Some (r\<lparr>sr_consuming := True\<rparr>) \<and> as_responseId t = Some i \<and> (as_next s, l) \<in> set (as_leases t)"
proof -
  obtain ok s1 where s1: "identityProven (qa_identity qa) s = (ok, s1)" by (meson surj_pair)
  have ok: ok using a s1 by (cases ok) (auto simp: admitted_def)
  then have "s1 = s" using s1 identityProven_True [of _ s s1] by simp
  then show ?thesis
    using a s1 ok r by (auto simp: admitted_def Let_def read_verified_def split: option.splits if_splits prod.splits)
qed

text \<open>C29: Whoever is handed a response, at once or after waiting for the permit, owns an artifact that nobody had taken and
  that had not expired; the bytes are as many as were captured and have the digest recorded then; the response was
  ready before its deadline; and from that moment the artifact is taken and the permit is the caller's.\<close>

theorem lease_verified:
  assumes "reachable fresh_store (astep sha) s"
    and "acquire_artifact sha now later fa qa i cid s = (Returns (Some l), t) \<or>
      able (Resume now later fa qa w go i cid) s \<and> lease_resumed sha now later fa qa w go i cid s = (Returns (Some l), t)"
  shows "\<exists>r. map_of (as_records s) i = Some r \<and> sr_consumerId r = cid \<and> \<not> sr_consuming r \<and> now < sr_expiresAt r \<and>
    length (le_buffer l) = sr_bytes r \<and> sha (le_buffer l) = sr_sha256 r \<and> later < now + RESPONSE_LEASE_MS \<and>
    map_of (as_records t) i = Some (r\<lparr>sr_consuming := True\<rparr>) \<and> as_responseId t = Some i \<and> l \<in> snd ` set (as_leases t)"
proof -
  have inv: "books sha None s" "permit None False s" "closing_ok s" using closing_always [OF assms(1)] by auto
  have done_: ?thesis if l: "leasable now fa i cid u = (True, v)" and inv: "books sha None u" "permit None Y u" "closing_ok u"
    and u: "as_records u = as_records s" and a: "admitted sha now later qa i v' = (Returns (Some l), t)" and v: "as_records v' = as_records v" for u v v' Y
  proof -
    obtain r where r: "map_of (as_records u) i = Some r" "map_of (as_records v) i = Some r" "sr_consumerId r = cid"
        "\<not> sr_consuming r" "now < sr_expiresAt r" using leasable_fresh [OF inv l] by auto
    then have "map_of (as_records v') i = Some r" using v by simp
    from admitted_lease [OF a this] show ?thesis using r u by (intro exI [of _ r]) (auto intro!: rev_image_eqI)
  qed
  show ?thesis
  proof (cases "acquire_artifact sha now later fa qa i cid s = (Returns (Some l), t)")
    case True
    then obtain v where "leasable now fa i cid s = (True, v)" "admitted sha now later qa i (v\<lparr>as_responseBusy := True\<rparr>) = (Returns (Some l), t)"
      by (auto simp: acquire_artifact_def split: if_splits prod.splits bool.splits)
    then show ?thesis using done_ [OF _ inv refl, of v "v\<lparr>as_responseBusy := True\<rparr>"] by simp
  next
    case False
    then have w: "(w, go) \<in> set (as_woken s)" "(w, i, cid) \<in> set (as_waiting s)"
      and res: "lease_resumed sha now later fa qa w go i cid s = (Returns (Some l), t)" using assms(2) by auto
    let ?u = "s\<lparr>as_woken := filter (\<lambda>q. fst q \<noteq> w) (as_woken s), as_waiting := filter (\<lambda>q. fst q \<noteq> w) (as_waiting s)\<rparr>"
    have go: go using res by (cases go) (auto simp: lease_resumed_def Let_def)
    obtain v where v: "leasable now fa i cid ?u = (True, v)" "admitted sha now later qa i v = (Returns (Some l), t)"
      using res by (auto simp: lease_resumed_def Let_def split: if_splits prod.splits bool.splits)
    have "books sha None ?u" by (rule books_cong [OF inv(1)]) simp_all
    moreover have "permit None True ?u" using permit_taken [OF inv(2) w] go by simp
    moreover have "closing_ok ?u" by (rule closing_okI [OF inv(3)]) (simp add: closing_def)
    ultimately show ?thesis using done_ [OF v(1) _ _ _ _ v(2)] by simp
  qed
qed

lemma lease_verified_witness:
  "\<exists>r. map_of (as_records demo_two) (demo_id CHR ''a'') = Some r \<and> sr_consumerId r = ''owner'' \<and>
     length (le_buffer demo_lease) = sr_bytes r \<and> demo_sha (le_buffer demo_lease) = sr_sha256 r"
proof -
  let ?a = "acquire_artifact demo_sha 4 5 (\<lambda>_. demo_fs) demo_consume (demo_id CHR ''a'') ''owner'' demo_two"
  have "fst ?a = Returns (Some demo_lease)"
    by (simp add: demo_values demo_operations demo_ids Let_def demo_one_def demo_two_def demo_lease_def demo_record_def
        demo_reservation_def)
  then have "?a = (Returns (Some demo_lease), snd ?a)" by (metis prod.collapse)
  from lease_verified [OF store_demo_reachable(1) disjI1 [OF this]] show ?thesis by blast
qed

end
