(* ===== verification/Artifact_Operation.thy ===== *)
theory Artifact_Operation
  imports Artifact_Leases
begin

text \<open>
  One capture operation (class \<open>ArtifactOperation\<close> of \<open>src/artifacts/index.ts\<close>): the state machine
  \<open>open \<rightarrow> sealing \<rightarrow> committed | invalidated\<close> over a staging job that awaits two untrusted driver
  accessors and the store's capture, the disposal of the driver's copy, and the release of the reserved
  identity. The staging job is cut at its awaits; what the driver, the file system and the store answer
  is an argument of the step. A synchronous re-entry from a driver's getter is a step before the one
  that reads it. The store's answer to a discard comes with whether it notified this operation first.
\<close>

section \<open>Data\<close>

record metadata =
  md_artifactId :: string
  md_sizeBytes :: nat
  md_sha256 :: string
  md_createdAt :: int      \<comment> \<open>the instant; its ISO text is a function of it\<close>
  md_expiresAt :: int
  md_sourceHost :: string

datatype op_result = AvailableResult metadata | InlinePdf | NoArtifact | CaptureFailedResult artifact_code

datatype op_state = OpOpen | OpSealing | OpCommitted op_result | OpInvalidated artifact_code

datatype stage_phase =
    NoJob | Queued | AwaitFailure | AwaitPath | AwaitCapture
  | Finishing   \<comment> \<open>the job's own promise has settled, its \<open>finally\<close> has not run\<close>
  | Ended

datatype disposal_state = CleanupIdle | CleanupRunning | CleanupConfirmed | CleanupLost

record operation =
  op_id :: string
  op_host :: string
  op_state :: op_state
  op_events :: nat
  op_active :: nat
  op_phase :: stage_phase
  op_provisional :: "stored_record option"
  op_status :: "int option"
  op_contentType :: "string option"
  op_cleanupFailed :: bool
  op_released :: bool
  op_waiting :: bool                \<comment> \<open>\<open>#waitingForArtifact\<close>\<close>
  op_refusal :: bool                \<comment> \<open>\<open>#refusalPending\<close>\<close>
  op_storeClose :: "bool option"    \<comment> \<open>the settled result: failed or not\<close>
  op_download :: bool               \<comment> \<open>the driver's copy is this operation's to dispose of\<close>
  op_stagedPath :: "string option"
  op_cleanup :: disposal_state
  op_cleanupUnconfirmed :: bool
  op_deadlineAt :: "int option"
  op_deadlineTimer :: bool
  op_stop :: bool                   \<comment> \<open>the signal of the accessor waits exists\<close>
  op_seals :: nat                   \<comment> \<open>calls of \<open>seal\<close> that await the jobs\<close>
  op_releases :: nat                \<comment> \<open>calls of the runtime's release, disposal and poison hooks\<close>
  op_disposals :: nat
  op_poisons :: nat
  op_published :: "metadata list"

definition SETTLEMENT_BUDGET_MS :: int where
  "SETTLEMENT_BUDGET_MS = 5000"

definition MAX_TIME_VALUE :: int where
  "MAX_TIME_VALUE = 8640000000000000"

definition new_operation :: "string \<Rightarrow> string \<Rightarrow> operation" where
  "new_operation i h =
     \<lparr>op_id = i, op_host = h, op_state = OpOpen, op_events = 0, op_active = 0, op_phase = NoJob, op_provisional = None,
      op_status = None, op_contentType = None, op_cleanupFailed = False, op_released = False, op_waiting = False,
      op_refusal = False, op_storeClose = None, op_download = False, op_stagedPath = None, op_cleanup = CleanupIdle,
      op_cleanupUnconfirmed = False, op_deadlineAt = None, op_deadlineTimer = False, op_stop = False, op_seals = 0,
      op_releases = 0, op_disposals = 0, op_poisons = 0, op_published = []\<rparr>"

text \<open>A discard's answer, and whether the store notified this operation on the way.\<close>

type_synonym discard_answer = "discard_result \<times> bool"

definition isoInstant :: "int \<Rightarrow> int option" where
  "isoInstant t = (if \<bar>t\<bar> > MAX_TIME_VALUE then None else Some t)"

definition projectMetadata :: "string \<Rightarrow> stored_record \<Rightarrow> string \<Rightarrow> metadata option" where
  "projectMetadata i rec host =
     (case (isoInstant (sr_createdAt rec), isoInstant (sr_expiresAt rec)) of
        (Some c, Some e) \<Rightarrow>
          Some \<lparr>md_artifactId = i, md_sizeBytes = sr_bytes rec, md_sha256 = sr_sha256 rec, md_createdAt = c,
                md_expiresAt = e, md_sourceHost = host\<rparr>
      | _ \<Rightarrow> None)"

section \<open>Terminal states and release\<close>

definition isTerminal :: "operation \<Rightarrow> bool" where
  "isTerminal s = (case op_state s of OpCommitted _ \<Rightarrow> True | OpInvalidated _ \<Rightarrow> True | _ \<Rightarrow> False)"

definition tryRelease :: "operation \<Rightarrow> operation" where
  "tryRelease s =
     (if op_released s then s
      else if \<not> isTerminal s then s
      else if op_active s > 0 \<or> op_cleanupFailed s \<or> op_waiting s \<or> op_refusal s then s
      else if op_cleanup s = CleanupRunning \<or> op_cleanupUnconfirmed s then s
      else s\<lparr>op_released := True, op_releases := op_releases s + 1\<rparr>)"

definition openDeadline :: "int \<Rightarrow> operation \<Rightarrow> operation" where
  "openDeadline now s =
     (if op_deadlineAt s = None then s\<lparr>op_deadlineAt := Some (now + SETTLEMENT_BUDGET_MS)\<rparr> else s)"

definition armDeadline :: "operation \<Rightarrow> operation" where
  "armDeadline s =
     (if op_deadlineAt s = None \<or> op_deadlineTimer s then s
      else if \<not> op_stop s \<or> isTerminal s then s
      else s\<lparr>op_deadlineTimer := True\<rparr>)"

definition clearDeadline :: "operation \<Rightarrow> operation" where
  "clearDeadline s =
     (if \<not> op_deadlineTimer s \<or> \<not> isTerminal s \<or> op_active s > 0 then s else s\<lparr>op_deadlineTimer := False\<rparr>)"

definition signal :: "operation \<Rightarrow> operation" where
  "signal s = armDeadline (s\<lparr>op_stop := True\<rparr>)"

definition startCleanup :: "operation \<Rightarrow> operation" where
  \<comment> \<open>the claim; both disposal calls are made in the same turn\<close>
  "startCleanup s =
     (if op_cleanup s \<noteq> CleanupIdle \<or> \<not> op_download s then s
      else s\<lparr>op_cleanup := CleanupRunning, op_download := False, op_disposals := op_disposals s + 1\<rparr>)"

definition resolved_discard :: "bool \<Rightarrow> operation \<Rightarrow> operation" where
  \<comment> \<open>the tail of \<open>#noteArtifactDiscarded\<close>\<close>
  "resolved_discard closeOwned s =
     (let s1 = s\<lparr>op_waiting := False\<rparr>
      in tryRelease
           (if closeOwned
            then (case op_storeClose s1 of
                    Some failed \<Rightarrow> if failed then s1\<lparr>op_cleanupFailed := True\<rparr> else s1
                  | None \<Rightarrow> s1\<lparr>op_refusal := True\<rparr>)
            else s1\<lparr>op_refusal := False\<rparr>))"

definition noteDecided :: "bool \<Rightarrow> operation \<Rightarrow> operation" where
  \<comment> \<open>\<open>#noteArtifactDiscarded\<close> of an operation that is decided\<close>
  "noteDecided closeOwned s = (if op_waiting s then resolved_discard closeOwned s else s)"

definition discardStaged :: "discard_answer \<Rightarrow> operation \<Rightarrow> operation" where
  "discardStaged ans s0 =
     (let s = s0\<lparr>op_provisional := None\<rparr>
      in case ans of
           (Failed, _) \<Rightarrow> s\<lparr>op_cleanupFailed := True\<rparr>
         | (Clean, notified) \<Rightarrow> if notified then noteDecided False s else s
         | (Refused, _) \<Rightarrow>
             (case op_storeClose s of
                Some failed \<Rightarrow> if failed then s\<lparr>op_cleanupFailed := True\<rparr> else s
              | None \<Rightarrow> s\<lparr>op_waiting := True, op_refusal := True\<rparr>))"

definition invalidate :: "artifact_code option \<Rightarrow> int \<Rightarrow> discard_answer \<Rightarrow> operation \<Rightarrow> operation" where
  \<comment> \<open>\<open>None\<close>: a value outside the closed vocabulary\<close>
  "invalidate reason now ans s =
     (if isTerminal s then s
      else (let closed = (case reason of Some c \<Rightarrow> c | None \<Rightarrow> ConfigInvalid);
                s1 = (openDeadline now s)\<lparr>op_state := OpInvalidated closed\<rparr>
            in tryRelease (clearDeadline (discardStaged ans (startCleanup s1)))))"

definition noteArtifactDiscarded :: "bool \<Rightarrow> int \<Rightarrow> discard_answer \<Rightarrow> operation \<Rightarrow> operation" where
  "noteArtifactDiscarded closeOwned now ans s =
     (if isTerminal s then noteDecided closeOwned s
      else resolved_discard closeOwned
             (invalidate (Some (if closeOwned then RuntimeInvalidated else LifecycleRace)) now ans
               (s\<lparr>op_provisional := None\<rparr>)))"

definition settleStoreClose :: "bool \<Rightarrow> operation \<Rightarrow> operation" where
  "settleStoreClose failed s0 =
     (let s = s0\<lparr>op_storeClose := Some failed\<rparr>
      in if \<not> op_refusal s then s
         else tryRelease
           (if failed then s\<lparr>op_refusal := False, op_cleanupFailed := True\<rparr>
            else s\<lparr>op_refusal := False, op_waiting := False\<rparr>))"

section \<open>The disposal of the driver's copy\<close>

text \<open>What one of the two disposal capabilities did: it is missing, its getter or call threw, the call
  returned no promise, its promise settled, or it never does.\<close>

datatype attempt = Missing | Threw | Returned | Fulfilled | Rejected

definition invokeDisposal :: "attempt \<Rightarrow> bool" where
  "invokeDisposal a = (a = Returned \<or> a = Fulfilled)"

definition stagedBytesGone :: "bool option \<Rightarrow> operation \<Rightarrow> bool" where
  \<comment> \<open>what \<open>existsSync\<close> answers now; \<open>None\<close>: it throws\<close>
  "stagedBytesGone there s \<longleftrightarrow> op_stagedPath s \<noteq> None \<and> there = Some False"

definition finishCleanup :: "bool \<Rightarrow> operation \<Rightarrow> operation" where
  "finishCleanup confirmed s =
     (if op_cleanup s \<noteq> CleanupRunning then s
      else if confirmed then tryRelease (s\<lparr>op_cleanup := CleanupConfirmed\<rparr>)
      else s\<lparr>op_cleanup := CleanupLost, op_cleanupUnconfirmed := True, op_poisons := op_poisons s + 1\<rparr>)"

definition disposal_settled :: "(attempt \<times> attempt) option \<Rightarrow> bool option \<Rightarrow> operation \<Rightarrow> operation" where
  \<comment> \<open>both attempts have an answer, or (\<open>None\<close>) the confirmation budget is spent\<close>
  "disposal_settled attempts there s =
     (let reported = (case attempts of None \<Rightarrow> False | Some (c, d) \<Rightarrow> invokeDisposal c \<and> invokeDisposal d)
      in finishCleanup (reported \<or> stagedBytesGone there s) s)"

section \<open>Observations and staging\<close>

datatype observation = BadObservation | Observed "int option" "string option"

definition noteMainResponseContentType :: "observation \<Rightarrow> int \<Rightarrow> discard_answer \<Rightarrow> operation \<Rightarrow> operation" where
  \<comment> \<open>\<open>BadObservation\<close>: no object, a throwing getter, a status that is no integer, a content type that is no string\<close>
  "noteMainResponseContentType ob now ans s =
     (if op_state s \<noteq> OpOpen then s
      else (case ob of
              BadObservation \<Rightarrow> invalidate (Some ConfigInvalid) now ans s
            | Observed status ct \<Rightarrow>
                if (case status of None \<Rightarrow> False | Some n \<Rightarrow> n < 100 \<or> n > 599)
                then invalidate (Some ConfigInvalid) now ans s
                else s\<lparr>op_status := status, op_contentType := ct\<rparr>))"

definition registerDownload :: "int \<Rightarrow> discard_answer \<Rightarrow> operation \<Rightarrow> bool \<times> operation" where
  "registerDownload now ans s0 =
     (if op_state s0 \<noteq> OpOpen then (False, s0)
      else (let s = s0\<lparr>op_events := op_events s0 + 1\<rparr>
            in if op_events s > 1 then (False, invalidate (Some MultipleArtifacts) now ans s)
               else (True, signal (s\<lparr>op_active := op_active s + 1, op_download := True, op_phase := Queued\<rparr>))))"

definition stage_end :: "operation \<Rightarrow> operation" where
  \<comment> \<open>the \<open>finally\<close> of \<open>#stage\<close>\<close>
  "stage_end s = s\<lparr>op_download := False, op_phase := Finishing\<rparr>"

definition stage_begin :: "operation \<Rightarrow> operation" where
  "stage_begin s = (if isTerminal s then s\<lparr>op_phase := Finishing\<rparr> else s\<lparr>op_phase := AwaitFailure\<rparr>)"

datatype failure_answer = FailureStopped | FailureThrew | FailureValue bool

definition stage_failure :: "failure_answer \<Rightarrow> int \<Rightarrow> discard_answer \<Rightarrow> operation \<Rightarrow> operation" where
  "stage_failure a now ans s =
     (if a = FailureStopped \<or> isTerminal s then stage_end s
      else if a = FailureThrew \<or> a = FailureValue True
        then stage_end (invalidate (Some CaptureFailedCode) now ans s)
      else s\<lparr>op_phase := AwaitPath\<rparr>)"

datatype path_answer = PathStopped | PathThrew | PathFalsy | PathOther | PathString string "bool option"

definition stage_path :: "path_answer \<Rightarrow> int \<Rightarrow> discard_answer \<Rightarrow> operation \<Rightarrow> operation" where
  \<comment> \<open>a string comes with what \<open>existsSync\<close> says of it; then the store is asked to capture\<close>
  "stage_path a now ans s =
     (if a = PathStopped \<or> isTerminal s then stage_end s
      else if a = PathThrew \<or> a = PathFalsy
        then stage_end (invalidate (Some CaptureFailedCode) now ans s)
      else (case a of
              PathString p there \<Rightarrow>
                (if there = Some True then s\<lparr>op_stagedPath := Some p\<rparr> else s)\<lparr>op_phase := AwaitCapture\<rparr>
            | _ \<Rightarrow> s\<lparr>op_phase := AwaitCapture\<rparr>))"

definition stage_capture :: "capture_result option \<Rightarrow> int \<Rightarrow> discard_answer \<Rightarrow> operation \<Rightarrow> operation" where
  \<comment> \<open>\<open>None\<close>: the capture throws\<close>
  "stage_capture r now ans s =
     (case r of
        None \<Rightarrow> stage_end (invalidate (Some CaptureFailedCode) now ans s)
      | Some (Available i rec) \<Rightarrow>
          stage_end (if isTerminal s then discardStaged ans s else s\<lparr>op_provisional := Some rec\<rparr>)
      | Some (NotCaptured c) \<Rightarrow>
          stage_end (if isTerminal s then s else invalidate (Some c) now ans s))"

definition stage_settled :: "operation \<Rightarrow> operation" where
  \<comment> \<open>the \<open>finally\<close> of the job\<close>
  "stage_settled s = tryRelease (clearDeadline (s\<lparr>op_active := op_active s - 1, op_phase := Ended\<rparr>))"

definition deadline_fired :: "int \<Rightarrow> discard_answer \<Rightarrow> operation \<Rightarrow> operation" where
  "deadline_fired now ans s = invalidate (Some SettleTimeout) now ans (s\<lparr>op_deadlineTimer := False\<rparr>)"

section \<open>Sealing\<close>

definition invalidatedResult :: "artifact_code \<Rightarrow> operation \<Rightarrow> op_result" where
  "invalidatedResult reason s = CaptureFailedResult (if op_cleanupFailed s then CleanupFailed else reason)"

definition commit :: "op_result \<Rightarrow> operation \<Rightarrow> op_result \<times> operation" where
  "commit result s =
     (case op_state s of
        OpCommitted r \<Rightarrow> (r, s)
      | _ \<Rightarrow>
        (let s1 = s\<lparr>op_state := OpCommitted result\<rparr>;
             s2 = (case result of AvailableResult md \<Rightarrow> s1\<lparr>op_published := op_published s1 @ [md]\<rparr> | _ \<Rightarrow> s1);
             s3 = clearDeadline s2
         in (result, tryRelease
               (s3\<lparr>op_waiting := (case result of AvailableResult _ \<Rightarrow> True | _ \<Rightarrow> False)\<rparr>))))"

definition essence :: "string option \<Rightarrow> string" where
  "essence ct =
     (case ct of None \<Rightarrow> '''' | Some t \<Rightarrow> js_trim (take_until (CHR '';'') (js_lower (js_trim t))))"

definition seal_begin :: "int \<Rightarrow> operation \<Rightarrow> op_result option \<times> operation" where
  "seal_begin now s =
     (case op_state s of
        OpCommitted r \<Rightarrow> (Some r, s)
      | OpInvalidated c \<Rightarrow> (Some (invalidatedResult c s), s)
      | _ \<Rightarrow> (None, (armDeadline (openDeadline now s))\<lparr>op_state := OpSealing, op_seals := op_seals s + 1\<rparr>))"

definition seal_settled :: "int \<Rightarrow> discard_answer \<Rightarrow> operation \<Rightarrow> op_result \<times> operation" where
  \<comment> \<open>the jobs the call waited for have settled\<close>
  "seal_settled now ans s0 =
     (let s = s0\<lparr>op_seals := op_seals s0 - 1\<rparr>
      in case op_state s of
           OpInvalidated c \<Rightarrow> (invalidatedResult c s, s)
         | _ \<Rightarrow>
           (case op_provisional s of
              Some rec \<Rightarrow>
                (case projectMetadata (op_id s) rec (op_host s) of
                   None \<Rightarrow> (let s1 = invalidate (Some ConfigInvalid) now ans s in (invalidatedResult ConfigInvalid s1, s1))
                 | Some md \<Rightarrow> commit (AvailableResult md) s)
            | None \<Rightarrow>
                if op_events s = 0 \<and> op_status s = Some 200 \<and> essence (op_contentType s) = ''application/pdf''
                then commit InlinePdf s else commit NoArtifact s))"

section \<open>The operation as a transition system\<close>

datatype op_event =
    Observe observation int discard_answer
  | Register int discard_answer
  | StageBegin | StageFailure failure_answer int discard_answer | StagePath path_answer int discard_answer
  | StageCapture "capture_result option" int discard_answer | StageSettled
  | DeadlineFires int discard_answer
  | SealBegin int | SealSettled int discard_answer
  | Invalidate "artifact_code option" int discard_answer
  | DisposalSettled "(attempt \<times> attempt) option" "bool option"
  | Discarded bool int discard_answer | StoreClosed bool

fun op_able :: "op_event \<Rightarrow> operation \<Rightarrow> bool" where
  "op_able StageBegin s = (op_phase s = Queued)"
| "op_able (StageFailure a now ans) s = (op_phase s = AwaitFailure \<and> (a = FailureStopped \<longrightarrow> isTerminal s))"
  \<comment> \<open>only terminalization wakes the waits\<close>
| "op_able (StagePath a now ans) s = (op_phase s = AwaitPath \<and> (a = PathStopped \<longrightarrow> isTerminal s))"
| "op_able (StageCapture r now ans) s = (op_phase s = AwaitCapture)"
| "op_able StageSettled s = (op_phase s = Finishing)"
| "op_able (DeadlineFires now ans) s = op_deadlineTimer s"
| "op_able (SealSettled now ans) s = (op_seals s > 0 \<and> op_active s = 0)"
| "op_able (Discarded closeOwned now ans) s = (closeOwned \<longrightarrow> fst ans = Refused)"
  \<comment> \<open>a closing store refuses every discard: \<open>discard_while_closing\<close>\<close>
| "op_able _ s = True"

fun op_after :: "op_event \<Rightarrow> operation \<Rightarrow> operation" where
  "op_after (Observe ob now ans) s = noteMainResponseContentType ob now ans s"
| "op_after (Register now ans) s = snd (registerDownload now ans s)"
| "op_after StageBegin s = stage_begin s"
| "op_after (StageFailure a now ans) s = stage_failure a now ans s"
| "op_after (StagePath a now ans) s = stage_path a now ans s"
| "op_after (StageCapture r now ans) s = stage_capture r now ans s"
| "op_after StageSettled s = stage_settled s"
| "op_after (DeadlineFires now ans) s = deadline_fired now ans s"
| "op_after (SealBegin now) s = snd (seal_begin now s)"
| "op_after (SealSettled now ans) s = snd (seal_settled now ans s)"
| "op_after (Invalidate reason now ans) s = invalidate reason now ans s"
| "op_after (DisposalSettled attempts there) s = disposal_settled attempts there s"
| "op_after (Discarded closeOwned now ans) s = noteArtifactDiscarded closeOwned now ans s"
| "op_after (StoreClosed failed) s = settleStoreClose failed s"

definition ostep :: "operation \<Rightarrow> op_event \<Rightarrow> operation \<Rightarrow> bool" where
  "ostep s e s' \<longleftrightarrow> op_able e s \<and> s' = op_after e s"

definition fresh_operation :: "operation \<Rightarrow> bool" where
  "fresh_operation s \<longleftrightarrow> s = new_operation (op_id s) (op_host s)"

end
