(* ===== verification/Artifact_Operation_Safety.thy ===== *)
theory Artifact_Operation_Safety
  imports Artifact_Operation
begin

section \<open>The invariant\<close>

text \<open>Each part is a predicate of the fields it reads, so that an update of other fields leaves it alone.\<close>

definition blocked :: "nat \<Rightarrow> bool \<Rightarrow> bool \<Rightarrow> bool \<Rightarrow> disposal_state \<Rightarrow> bool" where
  \<comment> \<open>some condition of a release is open\<close>
  "blocked active failed waiting refusal cl \<longleftrightarrow>
     active > 0 \<or> failed \<or> waiting \<or> refusal \<or> cl = CleanupRunning \<or> cl = CleanupLost"

abbreviation unsafe :: "operation \<Rightarrow> bool" where
  "unsafe s \<equiv> blocked (op_active s) (op_cleanupFailed s) (op_waiting s) (op_refusal s) (op_cleanup s)"

definition staging :: "stage_phase \<Rightarrow> bool" where
  "staging ph \<longleftrightarrow> ph = Queued \<or> ph = AwaitFailure \<or> ph = AwaitPath \<or> ph = AwaitCapture"

definition job_ok :: "nat \<Rightarrow> stage_phase \<Rightarrow> nat \<Rightarrow> bool \<Rightarrow> bool \<Rightarrow> bool \<Rightarrow> bool" where
  "job_ok active ph events stop download terminal \<longleftrightarrow>
     active = (if staging ph \<or> ph = Finishing then 1 else 0) \<and> (events = 0 \<longleftrightarrow> ph = NoJob) \<and> (stop \<longleftrightarrow> ph \<noteq> NoJob) \<and>
     (download \<longrightarrow> staging ph \<and> \<not> terminal)"

definition timer_ok :: "bool \<Rightarrow> bool \<Rightarrow> op_state \<Rightarrow> bool \<Rightarrow> nat \<Rightarrow> bool" where
  "timer_ok timer opened st stop seals \<longleftrightarrow>
     (timer \<longrightarrow> opened) \<and> (opened \<longleftrightarrow> st \<noteq> OpOpen) \<and>
     (st = OpSealing \<and> stop \<longrightarrow> timer) \<and> (seals > 0 \<longrightarrow> st \<noteq> OpOpen)"

definition hooks_ok :: "nat \<Rightarrow> bool \<Rightarrow> nat \<Rightarrow> nat \<Rightarrow> disposal_state \<Rightarrow> bool \<Rightarrow> bool" where
  "hooks_ok releases released disposals poisons cl unconfirmed \<longleftrightarrow>
     releases = (if released then 1 else 0) \<and> disposals = (if cl = CleanupIdle then 0 else 1) \<and>
     poisons = (if cl = CleanupLost then 1 else 0) \<and> (unconfirmed \<longleftrightarrow> cl = CleanupLost)"

definition published_ok :: "op_state \<Rightarrow> metadata list \<Rightarrow> bool" where
  "published_ok st ms \<longleftrightarrow> ms = (case st of OpCommitted (AvailableResult md) \<Rightarrow> [md] | _ \<Rightarrow> [])"

definition release_ok :: "bool \<Rightarrow> bool \<Rightarrow> bool \<Rightarrow> bool \<Rightarrow> bool \<Rightarrow> disposal_state \<Rightarrow> nat \<Rightarrow> bool" where
  "release_ok terminal released failed waiting refusal cl active \<longleftrightarrow>
     (\<not> terminal \<longrightarrow> cl = CleanupIdle \<and> \<not> failed \<and> \<not> waiting \<and> \<not> refusal \<and> \<not> released) \<and>
     (released \<longrightarrow> \<not> blocked active failed waiting refusal cl)"

definition core_ok :: "operation \<Rightarrow> bool" where
  "core_ok s \<longleftrightarrow>
     job_ok (op_active s) (op_phase s) (op_events s) (op_stop s) (op_download s) (isTerminal s) \<and>
     timer_ok (op_deadlineTimer s) (op_deadlineAt s \<noteq> None) (op_state s) (op_stop s) (op_seals s) \<and>
     hooks_ok (op_releases s) (op_released s) (op_disposals s) (op_poisons s) (op_cleanup s) (op_cleanupUnconfirmed s) \<and>
     published_ok (op_state s) (op_published s) \<and>
     release_ok (isTerminal s) (op_released s) (op_cleanupFailed s) (op_waiting s) (op_refusal s) (op_cleanup s) (op_active s)"

definition settled_ok :: "operation \<Rightarrow> bool" where
  \<comment> \<open>no release is missed\<close>
  "settled_ok s \<longleftrightarrow> (isTerminal s \<and> \<not> unsafe s \<longrightarrow> op_released s)"

definition quiet_ok :: "operation \<Rightarrow> bool" where
  \<comment> \<open>no timer outlives the operation\<close>
  "quiet_ok s \<longleftrightarrow> (op_deadlineTimer s \<longrightarrow> \<not> isTerminal s \<or> op_active s > 0)"

definition op_inv :: "operation \<Rightarrow> bool" where
  "op_inv s \<longleftrightarrow> core_ok s \<and> settled_ok s \<and> quiet_ok s"

lemma isTerminal_upd [simp]:
  "isTerminal (s\<lparr>op_events := x0\<rparr>) = isTerminal s" "isTerminal (s\<lparr>op_active := x1\<rparr>) = isTerminal s"
  "isTerminal (s\<lparr>op_phase := x2\<rparr>) = isTerminal s" "isTerminal (s\<lparr>op_provisional := x3\<rparr>) = isTerminal s"
  "isTerminal (s\<lparr>op_status := x4\<rparr>) = isTerminal s" "isTerminal (s\<lparr>op_contentType := x5\<rparr>) = isTerminal s"
  "isTerminal (s\<lparr>op_cleanupFailed := x6\<rparr>) = isTerminal s" "isTerminal (s\<lparr>op_released := x7\<rparr>) = isTerminal s"
  "isTerminal (s\<lparr>op_waiting := x8\<rparr>) = isTerminal s" "isTerminal (s\<lparr>op_refusal := x9\<rparr>) = isTerminal s"
  "isTerminal (s\<lparr>op_storeClose := x10\<rparr>) = isTerminal s" "isTerminal (s\<lparr>op_download := x11\<rparr>) = isTerminal s"
  "isTerminal (s\<lparr>op_stagedPath := x12\<rparr>) = isTerminal s" "isTerminal (s\<lparr>op_cleanup := x13\<rparr>) = isTerminal s"
  "isTerminal (s\<lparr>op_cleanupUnconfirmed := x14\<rparr>) = isTerminal s" "isTerminal (s\<lparr>op_deadlineAt := x15\<rparr>) = isTerminal s"
  "isTerminal (s\<lparr>op_deadlineTimer := x16\<rparr>) = isTerminal s" "isTerminal (s\<lparr>op_stop := x17\<rparr>) = isTerminal s"
  "isTerminal (s\<lparr>op_seals := x18\<rparr>) = isTerminal s" "isTerminal (s\<lparr>op_releases := x19\<rparr>) = isTerminal s"
  "isTerminal (s\<lparr>op_disposals := x20\<rparr>) = isTerminal s" "isTerminal (s\<lparr>op_poisons := x21\<rparr>) = isTerminal s"
  "isTerminal (s\<lparr>op_published := x22\<rparr>) = isTerminal s"
  by (simp_all add: isTerminal_def)

lemma isTerminal_state [simp]:
  "isTerminal (s\<lparr>op_state := OpInvalidated c\<rparr>)" "isTerminal (s\<lparr>op_state := OpCommitted r\<rparr>)"
  "\<not> isTerminal (s\<lparr>op_state := OpOpen\<rparr>)" "\<not> isTerminal (s\<lparr>op_state := OpSealing\<rparr>)"
  by (simp_all add: isTerminal_def)

lemma not_terminal: "\<not> isTerminal s \<longleftrightarrow> op_state s = OpOpen \<or> op_state s = OpSealing"
  by (simp add: isTerminal_def split: op_state.split)

lemma deadline_frame [simp]:
  "op_events (armDeadline s) = op_events s" "op_events (openDeadline now s) = op_events s" "op_events (clearDeadline s) = op_events s"
  "op_active (armDeadline s) = op_active s" "op_active (openDeadline now s) = op_active s" "op_active (clearDeadline s) = op_active s"
  "op_phase (armDeadline s) = op_phase s" "op_phase (openDeadline now s) = op_phase s" "op_phase (clearDeadline s) = op_phase s"
  "op_provisional (armDeadline s) = op_provisional s" "op_provisional (openDeadline now s) = op_provisional s" "op_provisional (clearDeadline s) = op_provisional s"
  "op_status (armDeadline s) = op_status s" "op_status (openDeadline now s) = op_status s" "op_status (clearDeadline s) = op_status s"
  "op_contentType (armDeadline s) = op_contentType s" "op_contentType (openDeadline now s) = op_contentType s" "op_contentType (clearDeadline s) = op_contentType s"
  "op_cleanupFailed (armDeadline s) = op_cleanupFailed s" "op_cleanupFailed (openDeadline now s) = op_cleanupFailed s" "op_cleanupFailed (clearDeadline s) = op_cleanupFailed s"
  "op_released (armDeadline s) = op_released s" "op_released (openDeadline now s) = op_released s" "op_released (clearDeadline s) = op_released s"
  "op_waiting (armDeadline s) = op_waiting s" "op_waiting (openDeadline now s) = op_waiting s" "op_waiting (clearDeadline s) = op_waiting s"
  "op_refusal (armDeadline s) = op_refusal s" "op_refusal (openDeadline now s) = op_refusal s" "op_refusal (clearDeadline s) = op_refusal s"
  "op_storeClose (armDeadline s) = op_storeClose s" "op_storeClose (openDeadline now s) = op_storeClose s" "op_storeClose (clearDeadline s) = op_storeClose s"
  "op_download (armDeadline s) = op_download s" "op_download (openDeadline now s) = op_download s" "op_download (clearDeadline s) = op_download s"
  "op_stagedPath (armDeadline s) = op_stagedPath s" "op_stagedPath (openDeadline now s) = op_stagedPath s" "op_stagedPath (clearDeadline s) = op_stagedPath s"
  "op_cleanup (armDeadline s) = op_cleanup s" "op_cleanup (openDeadline now s) = op_cleanup s" "op_cleanup (clearDeadline s) = op_cleanup s"
  "op_cleanupUnconfirmed (armDeadline s) = op_cleanupUnconfirmed s" "op_cleanupUnconfirmed (openDeadline now s) = op_cleanupUnconfirmed s" "op_cleanupUnconfirmed (clearDeadline s) = op_cleanupUnconfirmed s"
  "op_stop (armDeadline s) = op_stop s" "op_stop (openDeadline now s) = op_stop s" "op_stop (clearDeadline s) = op_stop s"
  "op_seals (armDeadline s) = op_seals s" "op_seals (openDeadline now s) = op_seals s" "op_seals (clearDeadline s) = op_seals s"
  "op_releases (armDeadline s) = op_releases s" "op_releases (openDeadline now s) = op_releases s" "op_releases (clearDeadline s) = op_releases s"
  "op_disposals (armDeadline s) = op_disposals s" "op_disposals (openDeadline now s) = op_disposals s" "op_disposals (clearDeadline s) = op_disposals s"
  "op_poisons (armDeadline s) = op_poisons s" "op_poisons (openDeadline now s) = op_poisons s" "op_poisons (clearDeadline s) = op_poisons s"
  "op_published (armDeadline s) = op_published s" "op_published (openDeadline now s) = op_published s" "op_published (clearDeadline s) = op_published s"
  "op_id (armDeadline s) = op_id s" "op_id (openDeadline now s) = op_id s" "op_id (clearDeadline s) = op_id s"
  "op_host (armDeadline s) = op_host s" "op_host (openDeadline now s) = op_host s" "op_host (clearDeadline s) = op_host s"
  by (simp_all add: armDeadline_def openDeadline_def clearDeadline_def)

lemma core_tryRelease: "core_ok s \<Longrightarrow> core_ok (tryRelease s) \<and> settled_ok (tryRelease s)"
  by (auto simp: core_ok_def settled_ok_def tryRelease_def hooks_ok_def release_ok_def blocked_def)

lemma quiet_tryRelease [simp]: "quiet_ok (tryRelease s) = quiet_ok s"
  by (simp add: quiet_ok_def tryRelease_def)

lemma quiet_clearDeadline: "quiet_ok (clearDeadline s)"
  by (simp add: quiet_ok_def clearDeadline_def)

lemma op_inv_tryRelease: "core_ok s \<Longrightarrow> quiet_ok s \<Longrightarrow> op_inv (tryRelease s)"
  using core_tryRelease by (simp add: op_inv_def)

lemma op_inv_core: "op_inv s \<Longrightarrow> core_ok s"
  by (simp add: op_inv_def)

lemma core_parts:
  assumes "core_ok s"
  shows "job_ok (op_active s) (op_phase s) (op_events s) (op_stop s) (op_download s) (isTerminal s)"
    and "timer_ok (op_deadlineTimer s) (op_deadlineAt s \<noteq> None) (op_state s) (op_stop s) (op_seals s)"
    and "hooks_ok (op_releases s) (op_released s) (op_disposals s) (op_poisons s) (op_cleanup s) (op_cleanupUnconfirmed s)"
    and "published_ok (op_state s) (op_published s)"
    and "release_ok (isTerminal s) (op_released s) (op_cleanupFailed s) (op_waiting s) (op_refusal s) (op_cleanup s) (op_active s)"
  using assms by (simp_all add: core_ok_def)

lemma undecided:
  assumes "core_ok s" "\<not> isTerminal s"
  shows "op_cleanup s = CleanupIdle" "\<not> op_cleanupFailed s" "\<not> op_waiting s" "\<not> op_refusal s" "\<not> op_released s"
    "op_state s = OpOpen \<or> op_state s = OpSealing" "op_published s = []"
  using core_parts(4,5) [OF assms(1)] assms(2) by (auto simp: release_ok_def published_ok_def not_terminal)

lemma core_clearDeadline: "core_ok s \<Longrightarrow> core_ok (clearDeadline s)"
  by (auto simp: core_ok_def clearDeadline_def timer_ok_def isTerminal_def)

section \<open>Every step keeps it\<close>

lemmas core_simps = core_ok_def isTerminal_upd isTerminal_state

lemma core_resolved:
  assumes "core_ok s" "isTerminal s" "closeOwned \<longrightarrow> \<not> op_released s \<or> op_storeClose s = Some False"
  shows "core_ok (resolved_discard closeOwned s) \<and> settled_ok (resolved_discard closeOwned s)"
    and "quiet_ok (resolved_discard closeOwned s) = quiet_ok s"
proof -
  have "core_ok (if closeOwned
      then (case op_storeClose s of Some failed \<Rightarrow> if failed then s\<lparr>op_waiting := False, op_cleanupFailed := True\<rparr> else s\<lparr>op_waiting := False\<rparr>
            | None \<Rightarrow> s\<lparr>op_waiting := False, op_refusal := True\<rparr>)
      else s\<lparr>op_waiting := False, op_refusal := False\<rparr>)"
    using assms by (auto simp: core_ok_def release_ok_def blocked_def split: option.split)
  then show "core_ok (resolved_discard closeOwned s) \<and> settled_ok (resolved_discard closeOwned s)"
    unfolding resolved_discard_def Let_def
    by (intro core_tryRelease) (auto split: if_splits option.splits)
  show "quiet_ok (resolved_discard closeOwned s) = quiet_ok s"
    by (simp add: resolved_discard_def Let_def) (simp add: quiet_ok_def split: option.split)
qed

lemma waiting_unreleased: "core_ok s \<Longrightarrow> op_waiting s \<Longrightarrow> \<not> op_released s"
  by (auto simp: core_ok_def release_ok_def blocked_def)

lemma inv_noteDecided:
  assumes "op_inv s" "isTerminal s" shows "op_inv (noteDecided closeOwned s)"
proof (cases "op_waiting s")
  case True
  have c: "core_ok s" and q: "quiet_ok s" using assms(1) by (simp_all add: op_inv_def)
  then show ?thesis
    using True core_resolved [OF c assms(2)] waiting_unreleased [OF c] by (simp add: noteDecided_def op_inv_def)
qed (use assms in \<open>simp add: noteDecided_def\<close>)

lemma core_discardStaged:
  assumes "core_ok s" "isTerminal s" "\<not> op_released s"
  shows "core_ok (discardStaged ans s)" and "quiet_ok (discardStaged ans s) = quiet_ok s"
proof -
  let ?p = "s\<lparr>op_provisional := None\<rparr>"
  have p: "core_ok ?p" using assms(1) by (simp add: core_ok_def)
  then have "core_ok (noteDecided False ?p)" "quiet_ok (noteDecided False ?p) = quiet_ok s"
    using core_resolved [OF p] assms(2) by (simp_all add: noteDecided_def) (simp_all add: quiet_ok_def)
  then show "core_ok (discardStaged ans s)" "quiet_ok (discardStaged ans s) = quiet_ok s"
    using p assms by (auto simp: discardStaged_def Let_def core_ok_def release_ok_def blocked_def quiet_ok_def
        split: discard_result.split option.split prod.split)
qed

lemma inv_invalidate_open:
  assumes parts: "job_ok (op_active s) (op_phase s) (op_events s) (op_stop s) (op_download s) (isTerminal s)"
    "hooks_ok (op_releases s) (op_released s) (op_disposals s) (op_poisons s) (op_cleanup s) (op_cleanupUnconfirmed s)"
    "published_ok (op_state s) (op_published s)"
    "release_ok (isTerminal s) (op_released s) (op_cleanupFailed s) (op_waiting s) (op_refusal s) (op_cleanup s) (op_active s)"
    and open_: "\<not> isTerminal s"
  shows "op_inv (invalidate reason now ans s)"
proof -
  define u where "u = startCleanup ((openDeadline now s)\<lparr>op_state := OpInvalidated (case reason of Some c \<Rightarrow> c | None \<Rightarrow> ConfigInvalid)\<rparr>)"
  have sel: "op_released u = op_released s" "isTerminal u"
    by (auto simp: u_def startCleanup_def openDeadline_def isTerminal_def)
  have un: "op_cleanup s = CleanupIdle" "\<not> op_cleanupFailed s" "\<not> op_waiting s" "\<not> op_refusal s" "\<not> op_released s"
    "op_published s = []"
    using parts(3,4) open_ by (auto simp: release_ok_def published_ok_def not_terminal)
  define d where "d = (if op_download s then 1 else 0 :: nat)"
  have fields: "op_active u = op_active s" "op_phase u = op_phase s" "op_events u = op_events s" "op_stop u = op_stop s"
    "\<not> op_download u" "op_deadlineTimer u = op_deadlineTimer s" "op_deadlineAt u \<noteq> None"
    "op_seals u = op_seals s" "op_releases u = op_releases s" "op_cleanupUnconfirmed u = op_cleanupUnconfirmed s"
    "op_poisons u = op_poisons s" "op_published u = op_published s" "op_cleanupFailed u = op_cleanupFailed s"
    "op_waiting u = op_waiting s" "op_refusal u = op_refusal s" "op_disposals u = op_disposals s + d"
    "op_cleanup u = (if op_download s then CleanupRunning else CleanupIdle)"
    "\<exists>c. op_state u = OpInvalidated c"
    by (auto simp: u_def startCleanup_def openDeadline_def un(1) d_def)
  have "timer_ok (op_deadlineTimer u) (op_deadlineAt u \<noteq> None) (op_state u) (op_stop u) (op_seals u)"
    using fields(7,18) by (auto simp: timer_ok_def)
  moreover have "job_ok (op_active u) (op_phase u) (op_events u) (op_stop u) (op_download u) (isTerminal u)"
    using parts(1) fields(5) by (simp add: fields job_ok_def)
  moreover have "hooks_ok (op_releases u) (op_released u) (op_disposals u) (op_poisons u) (op_cleanup u) (op_cleanupUnconfirmed u)"
    using parts(2) un by (auto simp: fields sel hooks_ok_def d_def)
  moreover have "published_ok (op_state u) (op_published u)" using fields(18) un by (auto simp: published_ok_def fields(12))
  moreover have "release_ok (isTerminal u) (op_released u) (op_cleanupFailed u) (op_waiting u) (op_refusal u) (op_cleanup u) (op_active u)"
    using un sel by (simp add: release_ok_def)
  ultimately have "core_ok u" by (simp add: core_ok_def)
  moreover have "\<not> op_released u" using un sel by simp
  ultimately have "op_inv (tryRelease (clearDeadline (discardStaged ans u)))"
    using sel by (intro op_inv_tryRelease core_clearDeadline core_discardStaged quiet_clearDeadline)
  then show ?thesis using open_ by (simp add: invalidate_def Let_def u_def)
qed

lemma inv_invalidate:
  assumes inv: "op_inv s" shows "op_inv (invalidate reason now ans s)"
proof (cases "isTerminal s")
  case False
  then show ?thesis using core_parts [OF op_inv_core [OF inv]] by (intro inv_invalidate_open)
qed (use inv in \<open>simp add: invalidate_def\<close>)

lemma release_frame [simp]:
  "op_refusal (tryRelease s) = op_refusal s" "op_cleanupFailed (tryRelease s) = op_cleanupFailed s"
  "op_storeClose (tryRelease s) = op_storeClose s" "op_state (tryRelease s) = op_state s"
  "op_refusal (clearDeadline s) = op_refusal s" "op_cleanupFailed (clearDeadline s) = op_cleanupFailed s"
  "op_storeClose (clearDeadline s) = op_storeClose s" "op_state (clearDeadline s) = op_state s"
  "op_storeClose (startCleanup s) = op_storeClose s" "op_state (startCleanup s) = op_state s"
  "op_storeClose (openDeadline now s) = op_storeClose s" "op_state (openDeadline now s) = op_state s"
  by (simp_all add: tryRelease_def clearDeadline_def startCleanup_def openDeadline_def)

lemma state_frame [simp]:
  "op_state (resolved_discard c s) = op_state s" "op_state (noteDecided c s) = op_state s"
  "op_state (discardStaged ans s) = op_state s" "op_state (settleStoreClose f s) = op_state s"
  "op_state (finishCleanup b s) = op_state s" "op_state (stage_end s) = op_state s"
  "op_state (stage_settled s) = op_state s" "op_state (armDeadline s) = op_state s"
proof -
  show r: "op_state (resolved_discard c s) = op_state s" for c s
    by (simp add: resolved_discard_def Let_def split: option.split)
  show n: "op_state (noteDecided c s) = op_state s" for c s by (simp add: noteDecided_def r)
  show "op_state (discardStaged ans s) = op_state s"
    by (simp add: discardStaged_def Let_def n split: prod.split discard_result.split option.split)
qed (simp_all add: settleStoreClose_def Let_def finishCleanup_def stage_end_def stage_settled_def armDeadline_def)

lemma isTerminal_eq: "op_state t = op_state s \<Longrightarrow> isTerminal t = isTerminal s"
  by (simp add: isTerminal_def)

lemma invalidate_state:
  "op_state (invalidate reason now ans s) =
    (if isTerminal s then op_state s else OpInvalidated (case reason of Some c \<Rightarrow> c | None \<Rightarrow> ConfigInvalid))"
  by (simp add: invalidate_def Let_def)

lemma invalidate_terminal [simp]: "isTerminal (invalidate reason now ans s)"
  using invalidate_state [of reason now ans s] by (auto simp: isTerminal_def split: if_splits)

lemma refused_kept:
  assumes "op_inv s" "fst ans = Refused" "\<not> isTerminal s"
  shows "\<not> op_released (invalidate reason now ans s) \<or> op_storeClose (invalidate reason now ans s) = Some False"
proof -
  let ?v = "invalidate reason now ans s"
  have "op_storeClose ?v = op_storeClose s \<and> (op_storeClose s = None \<longrightarrow> op_refusal ?v) \<and> (op_storeClose s = Some True \<longrightarrow> op_cleanupFailed ?v)"
    using assms(2,3) by (cases ans) (simp add: invalidate_def Let_def discardStaged_def split: option.split)
  moreover have "op_released ?v \<longrightarrow> \<not> unsafe ?v"
    using inv_invalidate [OF assms(1)] by (simp add: op_inv_def core_ok_def release_ok_def)
  ultimately show ?thesis by (cases "op_storeClose s") (auto simp: blocked_def)
qed

lemma inv_job:
  assumes "op_inv s" "op_active t = op_active s" "op_stop t = op_stop s"
    "job_ok (op_active t) (op_phase t) (op_events t) (op_stop t) (op_download t) (isTerminal t)"
    "op_state t = op_state s" "op_deadlineTimer t = op_deadlineTimer s" "op_deadlineAt t = op_deadlineAt s"
    "op_seals t = op_seals s" "op_releases t = op_releases s" "op_released t = op_released s" "op_disposals t = op_disposals s"
    "op_poisons t = op_poisons s" "op_cleanup t = op_cleanup s" "op_cleanupUnconfirmed t = op_cleanupUnconfirmed s"
    "op_published t = op_published s" "op_cleanupFailed t = op_cleanupFailed s" "op_waiting t = op_waiting s" "op_refusal t = op_refusal s"
  shows "op_inv t"
  using assms(1) assms(4) isTerminal_eq [OF assms(5)]
  by (simp add: op_inv_def core_ok_def settled_ok_def quiet_ok_def assms(2,3,5-))

lemma inv_same:
  assumes "op_inv s" "op_active t = op_active s" "op_phase t = op_phase s" "op_events t = op_events s" "op_stop t = op_stop s"
    "op_download t \<longrightarrow> op_download s" "op_state t = op_state s" "op_deadlineTimer t = op_deadlineTimer s" "op_deadlineAt t = op_deadlineAt s"
    "op_seals t = op_seals s" "op_releases t = op_releases s" "op_released t = op_released s" "op_disposals t = op_disposals s"
    "op_poisons t = op_poisons s" "op_cleanup t = op_cleanup s" "op_cleanupUnconfirmed t = op_cleanupUnconfirmed s"
    "op_published t = op_published s" "op_cleanupFailed t = op_cleanupFailed s" "op_waiting t = op_waiting s" "op_refusal t = op_refusal s"
  shows "op_inv t"
proof (rule inv_job [OF assms(1)])
  show "job_ok (op_active t) (op_phase t) (op_events t) (op_stop t) (op_download t) (isTerminal t)"
    using core_parts(1) [OF op_inv_core [OF assms(1)]] isTerminal_eq [OF assms(7)] assms(2-6) by (auto simp: job_ok_def)
qed (simp_all add: assms(2-5,7-))

lemma inv_note:
  assumes inv: "op_inv s" and ans: "closeOwned \<longrightarrow> fst ans = Refused"
  shows "op_inv (noteArtifactDiscarded closeOwned now ans s)"
proof (cases "isTerminal s")
  case True
  then show ?thesis using inv_noteDecided [OF inv] by (simp add: noteArtifactDiscarded_def)
next
  case False
  let ?s = "s\<lparr>op_provisional := None\<rparr>"
  let ?v = "invalidate (Some (if closeOwned then RuntimeInvalidated else LifecycleRace)) now ans ?s"
  have p: "op_inv ?s" by (rule inv_same [OF inv]) simp_all
  have v: "op_inv ?v" by (rule inv_invalidate [OF p])
  have "closeOwned \<longrightarrow> \<not> op_released ?v \<or> op_storeClose ?v = Some False"
    using refused_kept [OF p] ans False by simp
  then show ?thesis
    using core_resolved [of ?v closeOwned] v False by (simp add: noteArtifactDiscarded_def op_inv_def)
qed

lemma inv_storeClose: assumes inv: "op_inv s" shows "op_inv (settleStoreClose failed s)"
proof -
  have p: "op_inv (s\<lparr>op_storeClose := Some failed\<rparr>)" by (rule inv_same [OF inv]) simp_all
  have "op_inv (tryRelease (if failed then s\<lparr>op_storeClose := Some failed, op_refusal := False, op_cleanupFailed := True\<rparr>
      else s\<lparr>op_storeClose := Some failed, op_refusal := False, op_waiting := False\<rparr>))" if "op_refusal s"
  proof (rule op_inv_tryRelease)
    have "\<not> op_released s" "isTerminal s"
      using inv that by (auto simp: op_inv_def core_ok_def release_ok_def blocked_def)
    then show "core_ok (if failed then s\<lparr>op_storeClose := Some failed, op_refusal := False, op_cleanupFailed := True\<rparr>
      else s\<lparr>op_storeClose := Some failed, op_refusal := False, op_waiting := False\<rparr>)"
      using inv by (auto simp: op_inv_def core_ok_def release_ok_def)
  qed (use inv in \<open>auto simp: op_inv_def quiet_ok_def\<close>)
  then show ?thesis using p by (auto simp: settleStoreClose_def Let_def split: if_splits)
qed

lemma inv_disposal: assumes inv: "op_inv s" shows "op_inv (disposal_settled attempts there s)"
proof -
  have "op_inv (finishCleanup b s)" for b
  proof (cases "op_cleanup s = CleanupRunning")
    case True
    have t: "isTerminal s" and r: "\<not> op_released s"
      using inv True by (auto simp: op_inv_def core_ok_def release_ok_def blocked_def)
    show ?thesis
    proof (cases b)
      case True
      have "core_ok (s\<lparr>op_cleanup := CleanupConfirmed\<rparr>)"
        using inv \<open>op_cleanup s = CleanupRunning\<close> r t by (auto simp: op_inv_def core_ok_def hooks_ok_def release_ok_def)
      moreover have "quiet_ok (s\<lparr>op_cleanup := CleanupConfirmed\<rparr>)" using inv by (simp add: op_inv_def quiet_ok_def)
      ultimately show ?thesis using \<open>op_cleanup s = CleanupRunning\<close> True op_inv_tryRelease by (simp add: finishCleanup_def)
    next
      case False
      then show ?thesis
        using inv \<open>op_cleanup s = CleanupRunning\<close> r t
        by (auto simp: finishCleanup_def op_inv_def core_ok_def hooks_ok_def release_ok_def settled_ok_def quiet_ok_def blocked_def)
    qed
  qed (use inv in \<open>simp add: finishCleanup_def\<close>)
  then show ?thesis by (simp add: disposal_settled_def Let_def)
qed

lemma inv_observe: assumes inv: "op_inv s" shows "op_inv (noteMainResponseContentType ob now ans s)"
proof -
  have "op_inv (s\<lparr>op_status := a, op_contentType := b\<rparr>)" for a b by (rule inv_same [OF inv]) simp_all
  then show ?thesis using inv inv_invalidate [OF inv] by (simp add: noteMainResponseContentType_def split: observation.split)
qed

lemma inv_phase:
  assumes inv: "op_inv s" and ph: "staging (op_phase s)" "staging ph" shows "op_inv (s\<lparr>op_phase := ph\<rparr>)"
proof (rule inv_job [OF inv])
  show "job_ok (op_active (s\<lparr>op_phase := ph\<rparr>)) (op_phase (s\<lparr>op_phase := ph\<rparr>)) (op_events (s\<lparr>op_phase := ph\<rparr>))
     (op_stop (s\<lparr>op_phase := ph\<rparr>)) (op_download (s\<lparr>op_phase := ph\<rparr>)) (isTerminal (s\<lparr>op_phase := ph\<rparr>))"
    using core_parts(1) [OF op_inv_core [OF inv]] ph by (auto simp: job_ok_def staging_def)
qed simp_all

lemma inv_stage_end:
  assumes inv: "op_inv s" and ph: "staging (op_phase s)" shows "op_inv (stage_end s)"
proof (rule inv_job [OF inv])
  show "job_ok (op_active (stage_end s)) (op_phase (stage_end s)) (op_events (stage_end s))
     (op_stop (stage_end s)) (op_download (stage_end s)) (isTerminal (stage_end s))"
    using core_parts(1) [OF op_inv_core [OF inv]] ph by (auto simp: job_ok_def staging_def stage_end_def)
qed (simp_all add: stage_end_def)

lemma phase_frame [simp]:
  "op_phase (tryRelease s) = op_phase s" "op_phase (clearDeadline s) = op_phase s" "op_phase (startCleanup s) = op_phase s"
  "op_phase (openDeadline now s) = op_phase s" "op_phase (armDeadline s) = op_phase s"
  by (simp_all add: tryRelease_def clearDeadline_def startCleanup_def openDeadline_def armDeadline_def)

lemma phase_discard [simp]: "op_phase (discardStaged ans s) = op_phase s"
  by (simp add: discardStaged_def noteDecided_def resolved_discard_def Let_def split: prod.split discard_result.split option.split)

lemma phase_invalidate [simp]: "op_phase (invalidate reason now ans s) = op_phase s"
  by (simp add: invalidate_def Let_def)

lemma inv_stage_capture:
  assumes inv: "op_inv s" and ph: "op_phase s = AwaitCapture" shows "op_inv (stage_capture r now ans s)"
proof -
  have st: "staging (op_phase s)" by (simp add: ph staging_def)
  have act: "op_active s > 0" using inv st by (simp add: op_inv_def core_ok_def job_ok_def)
  have disc: "op_inv (discardStaged ans s)" if "isTerminal s"
  proof -
    have "\<not> op_released s" using inv act by (auto simp: op_inv_def core_ok_def release_ok_def blocked_def)
    then have "core_ok (discardStaged ans s)" "quiet_ok (discardStaged ans s)"
      using core_discardStaged inv that by (simp_all add: op_inv_def)
    moreover have "op_active (discardStaged ans s) = op_active s"
      by (simp add: discardStaged_def noteDecided_def resolved_discard_def tryRelease_def Let_def split: prod.split discard_result.split option.split)
    ultimately show ?thesis using act by (simp add: op_inv_def settled_ok_def blocked_def)
  qed
  have prov: "op_inv (s\<lparr>op_provisional := p\<rparr>)" for p by (rule inv_same [OF inv]) simp_all
  show ?thesis
    using inv_stage_end [OF inv_invalidate [OF inv]] inv_stage_end [OF prov] inv_stage_end [OF disc] inv_stage_end [OF inv] st
    by (auto simp: stage_capture_def split: option.split capture_result.split)
qed

lemma inv_stage_early:
  assumes inv: "op_inv s"
  shows "op_phase s = Queued \<Longrightarrow> op_inv (stage_begin s)"
    and "op_phase s = AwaitFailure \<Longrightarrow> op_inv (stage_failure a now ans s)"
    and "op_phase s = AwaitPath \<Longrightarrow> op_inv (stage_path b now ans s)"
proof -
  have fin: "op_phase s = Queued \<Longrightarrow> isTerminal s \<Longrightarrow> op_inv (s\<lparr>op_phase := Finishing\<rparr>)"
  proof (rule inv_job [OF inv])
    assume "op_phase s = Queued" "isTerminal s"
    then show "job_ok (op_active (s\<lparr>op_phase := Finishing\<rparr>)) (op_phase (s\<lparr>op_phase := Finishing\<rparr>))
        (op_events (s\<lparr>op_phase := Finishing\<rparr>)) (op_stop (s\<lparr>op_phase := Finishing\<rparr>))
        (op_download (s\<lparr>op_phase := Finishing\<rparr>)) (isTerminal (s\<lparr>op_phase := Finishing\<rparr>))"
      using core_parts(1) [OF op_inv_core [OF inv]] by (auto simp: job_ok_def staging_def)
  qed simp_all
  show "op_phase s = Queued \<Longrightarrow> op_inv (stage_begin s)"
    using fin inv_phase [OF inv, where ph = AwaitFailure] by (simp add: stage_begin_def staging_def)
  have path: "op_inv (s\<lparr>op_stagedPath := q\<rparr>)" for q by (rule inv_same [OF inv]) simp_all
  note ends = inv_stage_end [OF inv] inv_stage_end [OF inv_invalidate [OF inv]]
  show "op_phase s = AwaitFailure \<Longrightarrow> op_inv (stage_failure a now ans s)"
    using ends inv_phase [OF inv, where ph = AwaitPath] by (simp add: stage_failure_def staging_def)
  show "op_phase s = AwaitPath \<Longrightarrow> op_inv (stage_path b now ans s)"
    using ends inv_phase [OF inv, where ph = AwaitCapture] inv_phase [OF path, where ph = AwaitCapture]
    by (simp add: stage_path_def staging_def split: path_answer.split)
qed

lemma inv_stage_settled:
  assumes inv: "op_inv s" and ph: "op_phase s = Finishing" shows "op_inv (stage_settled s)"
proof -
  let ?t = "s\<lparr>op_active := op_active s - 1, op_phase := Ended\<rparr>"
  note parts = core_parts [OF op_inv_core [OF inv]]
  have act: "op_active s = 1" "\<not> op_download s" "op_events s > 0" "op_stop s"
    using parts(1) ph by (auto simp: job_ok_def staging_def)
  have "job_ok (op_active ?t) (op_phase ?t) (op_events ?t) (op_stop ?t) (op_download ?t) (isTerminal ?t)"
    using act by (simp add: job_ok_def staging_def)
  moreover have "release_ok (isTerminal ?t) (op_released ?t) (op_cleanupFailed ?t) (op_waiting ?t) (op_refusal ?t) (op_cleanup ?t) (op_active ?t)"
    using parts(5) by (auto simp: release_ok_def blocked_def)
  ultimately have "core_ok ?t" using parts by (simp add: core_ok_def)
  then show ?thesis unfolding stage_settled_def by (intro op_inv_tryRelease core_clearDeadline quiet_clearDeadline)
qed

lemma inv_deadline:
  assumes inv: "op_inv s" shows "op_inv (deadline_fired now ans s)"
proof (cases "isTerminal s")
  case True
  have "timer_ok False (op_deadlineAt s \<noteq> None) (op_state s) (op_stop s) (op_seals s)"
    using core_parts(2) [OF op_inv_core [OF inv]] True by (auto simp: timer_ok_def isTerminal_def)
  then have "op_inv (s\<lparr>op_deadlineTimer := False\<rparr>)"
    using inv by (simp add: op_inv_def core_ok_def settled_ok_def quiet_ok_def)
  then show ?thesis using True by (simp add: deadline_fired_def invalidate_def)
next
  case False
  have "op_inv (invalidate (Some SettleTimeout) now ans (s\<lparr>op_deadlineTimer := False\<rparr>))"
    using core_parts [OF op_inv_core [OF inv]] False by (intro inv_invalidate_open) simp_all
  then show ?thesis by (simp add: deadline_fired_def)
qed

lemma inv_register:
  assumes inv: "op_inv s" shows "op_inv (snd (registerDownload now ans s))"
proof (cases "op_state s = OpOpen")
  case True
  note parts = core_parts [OF op_inv_core [OF inv]]
  have un: "op_deadlineAt s = None" "\<not> op_deadlineTimer s" "op_seals s = 0" "\<not> isTerminal s"
    using parts(2) True by (auto simp: timer_ok_def isTerminal_def)
  show ?thesis
  proof (cases "op_events s = 0")
    case fresh: True
    let ?t = "s\<lparr>op_events := 1, op_active := op_active s + 1, op_download := True, op_phase := Queued, op_stop := True\<rparr>"
    have "op_active s = 0" using parts(1) fresh by (auto simp: job_ok_def staging_def)
    then have "job_ok (op_active ?t) (op_phase ?t) (op_events ?t) (op_stop ?t) (op_download ?t) (isTerminal ?t)"
      using un by (simp add: job_ok_def staging_def)
    moreover have "release_ok (isTerminal ?t) (op_released ?t) (op_cleanupFailed ?t) (op_waiting ?t) (op_refusal ?t) (op_cleanup ?t) (op_active ?t)"
      using parts(5) un by (simp add: release_ok_def)
    moreover have "timer_ok (op_deadlineTimer ?t) (op_deadlineAt ?t \<noteq> None) (op_state ?t) (op_stop ?t) (op_seals ?t)"
      using un True by (simp add: timer_ok_def)
    ultimately have "op_inv ?t" using parts(3,4) un by (simp add: op_inv_def core_ok_def settled_ok_def quiet_ok_def)
    then show ?thesis
      using True fresh un by (simp add: registerDownload_def Let_def signal_def armDeadline_def)
  next
    case False
    have "op_inv (s\<lparr>op_events := op_events s + 1\<rparr>)"
    proof (rule inv_job [OF inv])
      show "job_ok (op_active (s\<lparr>op_events := op_events s + 1\<rparr>)) (op_phase (s\<lparr>op_events := op_events s + 1\<rparr>))
          (op_events (s\<lparr>op_events := op_events s + 1\<rparr>)) (op_stop (s\<lparr>op_events := op_events s + 1\<rparr>))
          (op_download (s\<lparr>op_events := op_events s + 1\<rparr>)) (isTerminal (s\<lparr>op_events := op_events s + 1\<rparr>))"
        using parts(1) False by (simp add: job_ok_def)
    qed simp_all
    then show ?thesis using True False inv_invalidate by (simp add: registerDownload_def Let_def)
  qed
qed (use inv in \<open>simp add: registerDownload_def\<close>)

lemma inv_seal_begin:
  assumes inv: "op_inv s" shows "op_inv (snd (seal_begin now s))"
proof (cases "isTerminal s")
  case True
  then show ?thesis using inv by (simp add: seal_begin_def isTerminal_def split: op_state.splits)
next
  case False
  let ?t = "(armDeadline (openDeadline now s))\<lparr>op_state := OpSealing, op_seals := op_seals s + 1\<rparr>"
  have eq: "snd (seal_begin now s) = ?t" using False by (auto simp: seal_begin_def not_terminal)
  note c = op_inv_core [OF inv] and parts = core_parts [OF op_inv_core [OF inv]]
  have fields: "op_deadlineAt ?t \<noteq> None" "op_deadlineTimer ?t = (op_deadlineTimer s \<or> op_stop s)"
    using False by (auto simp: armDeadline_def openDeadline_def)
  have "timer_ok (op_deadlineTimer ?t) (op_deadlineAt ?t \<noteq> None) (op_state ?t) (op_stop ?t) (op_seals ?t)"
    using fields by (simp add: timer_ok_def)
  moreover have "published_ok (op_state ?t) (op_published ?t)" using undecided(7) [OF c False] by (simp add: published_ok_def)
  ultimately show ?thesis
    using parts(1,3,5) False by (simp add: eq op_inv_def core_ok_def settled_ok_def quiet_ok_def)
qed

lemma inv_commit:
  assumes inv: "op_inv s" and act: "op_active s = 0" and st: "op_state s = OpSealing"
  shows "op_inv (snd (commit r s))"
proof -
  note c = op_inv_core [OF inv] and parts = core_parts [OF op_inv_core [OF inv]]
  have nt: "\<not> isTerminal s" using st by (simp add: isTerminal_def)
  note un = undecided [OF c nt]
  let ?s2 = "case r of AvailableResult md \<Rightarrow> s\<lparr>op_state := OpCommitted r, op_published := op_published s @ [md]\<rparr>
     | _ \<Rightarrow> s\<lparr>op_state := OpCommitted r\<rparr>"
  let ?t = "(clearDeadline ?s2)\<lparr>op_waiting := (case r of AvailableResult _ \<Rightarrow> True | _ \<Rightarrow> False)\<rparr>"
  have fields: "op_active ?t = op_active s" "op_phase ?t = op_phase s" "op_events ?t = op_events s" "op_stop ?t = op_stop s"
    "op_download ?t = op_download s" "op_deadlineAt ?t = op_deadlineAt s" "\<not> op_deadlineTimer ?t"
    "op_releases ?t = op_releases s" "op_released ?t = op_released s" "op_disposals ?t = op_disposals s" "op_poisons ?t = op_poisons s"
    "op_cleanup ?t = op_cleanup s" "op_cleanupUnconfirmed ?t = op_cleanupUnconfirmed s" "op_state ?t = OpCommitted r"
    "op_cleanupFailed ?t = op_cleanupFailed s" "op_refusal ?t = op_refusal s" "op_seals ?t = op_seals s" "isTerminal ?t"
    "op_published ?t = (case r of AvailableResult md \<Rightarrow> [md] | _ \<Rightarrow> [])"
    using act un(7) by (cases r; simp add: clearDeadline_def)+
  have "\<not> op_download s" using parts(1) act by (auto simp: job_ok_def split: if_splits)
  then have "job_ok (op_active ?t) (op_phase ?t) (op_events ?t) (op_stop ?t) (op_download ?t) (isTerminal ?t)"
    using parts(1) fields(5) by (simp add: fields(1-4) job_ok_def)
  moreover have "timer_ok (op_deadlineTimer ?t) (op_deadlineAt ?t \<noteq> None) (op_state ?t) (op_stop ?t) (op_seals ?t)"
    using parts(2) st fields(7) by (simp add: fields(4,6,14,17) timer_ok_def)
  moreover have "published_ok (op_state ?t) (op_published ?t)" by (simp add: fields(14,19) published_ok_def)
  moreover have "release_ok (isTerminal ?t) (op_released ?t) (op_cleanupFailed ?t) (op_waiting ?t) (op_refusal ?t) (op_cleanup ?t) (op_active ?t)"
    using un fields(18) by (simp add: fields(9) release_ok_def)
  ultimately have "core_ok ?t" using parts(3) by (simp add: core_ok_def fields(8-13))
  moreover have "quiet_ok ?t" using fields(7) by (simp add: quiet_ok_def)
  ultimately have "op_inv (tryRelease ?t)" by (rule op_inv_tryRelease)
  then show ?thesis using st by (simp add: commit_def Let_def split: op_result.splits)
qed

lemma inv_seal_settled:
  assumes inv: "op_inv s" and act: "op_active s = 0" and seals: "op_seals s > 0"
  shows "op_inv (snd (seal_settled now ans s))"
proof -
  let ?s = "s\<lparr>op_seals := op_seals s - 1\<rparr>"
  have "timer_ok (op_deadlineTimer s) (op_deadlineAt s \<noteq> None) (op_state s) (op_stop s) (op_seals s - 1)"
    using core_parts(2) [OF op_inv_core [OF inv]] seals by (auto simp: timer_ok_def)
  then have p: "op_inv ?s" using inv by (simp add: op_inv_def core_ok_def settled_ok_def quiet_ok_def)
  have st: "op_state s \<noteq> OpOpen" using core_parts(2) [OF op_inv_core [OF inv]] seals by (auto simp: timer_ok_def)
  have com: "op_inv (snd (commit r ?s))" if "\<forall>c. op_state s \<noteq> OpInvalidated c" for r
  proof (cases "op_state s")
    case OpSealing
    then show ?thesis using inv_commit [OF p] act by simp
  qed (use p st that in \<open>simp_all add: commit_def\<close>)
  show ?thesis
    using p com inv_invalidate [OF p] by (auto simp: seal_settled_def Let_def split: op_state.split option.split)
qed

lemma op_inv_init: "fresh_operation s \<Longrightarrow> op_inv s"
proof -
  assume "fresh_operation s"
  then obtain i h where s: "s = new_operation i h" by (auto simp: fresh_operation_def)
  show ?thesis
    by (simp add: s new_operation_def op_inv_def core_ok_def settled_ok_def quiet_ok_def job_ok_def timer_ok_def hooks_ok_def
        published_ok_def release_ok_def staging_def isTerminal_def)
qed

lemma op_inv_step: "op_inv s \<Longrightarrow> ostep s e s' \<Longrightarrow> op_inv s'"
  by (cases e) (auto simp: ostep_def inv_observe inv_register inv_stage_early inv_stage_capture inv_stage_settled inv_deadline
      inv_seal_begin inv_seal_settled inv_invalidate inv_disposal inv_note inv_storeClose)

interpretation op: inductive_invariant fresh_operation ostep op_inv
  by unfold_locales (rule op_inv_init, assumption, rule op_inv_step)

end
