(* ===== verification/Artifact_Operation_Claims.thy ===== *)
theory Artifact_Operation_Claims
  imports Artifact_Operation_Safety
begin

text \<open>
  What a capture operation promises its callers: it is decided once and its result is published at most
  once, every seal reports the decision, a seal never waits on the driver longer than the one settlement
  budget, and the reserved identity is released exactly when nothing it stands for is pending.
\<close>

section \<open>Frames\<close>

lemma provisional_frame [simp]:
  "op_provisional (tryRelease s) = op_provisional s" "op_provisional (startCleanup s) = op_provisional s"
  "op_provisional (resolved_discard c s) = op_provisional s" "op_provisional (noteDecided c s) = op_provisional s"
  "op_provisional (settleStoreClose f s) = op_provisional s" "op_provisional (finishCleanup b s) = op_provisional s"
proof -
  show rel: "op_provisional (tryRelease s) = op_provisional s" for s by (simp add: tryRelease_def)
  show res: "op_provisional (resolved_discard c s) = op_provisional s"
    by (simp add: resolved_discard_def Let_def rel split: option.split)
  show "op_provisional (noteDecided c s) = op_provisional s" by (simp add: noteDecided_def res)
qed (simp_all add: startCleanup_def settleStoreClose_def finishCleanup_def Let_def tryRelease_def)

lemma seals_frame [simp]:
  "op_seals (tryRelease s) = op_seals s" "op_seals (startCleanup s) = op_seals s"
  "op_seals (discardStaged ans s) = op_seals s" "op_seals (stage_end s) = op_seals s"
  "op_seals (invalidate reason now ans s) = op_seals s"
proof -
  show rel: "op_seals (tryRelease s) = op_seals s" for s by (simp add: tryRelease_def)
  show cl: "op_seals (startCleanup s) = op_seals s" for s by (simp add: startCleanup_def)
  show disc: "op_seals (discardStaged ans s) = op_seals s" for s
    by (simp add: discardStaged_def noteDecided_def resolved_discard_def rel Let_def split: prod.split discard_result.split option.split)
  show "op_seals (stage_end s) = op_seals s" by (simp add: stage_end_def)
  show "op_seals (invalidate reason now ans s) = op_seals s" by (simp add: invalidate_def Let_def rel cl disc)
qed

lemma active_frame [simp]:
  "op_active (tryRelease s) = op_active s" "op_active (startCleanup s) = op_active s"
  "op_active (resolved_discard c s) = op_active s" "op_active (noteDecided c s) = op_active s"
  "op_active (discardStaged ans s) = op_active s" "op_active (stage_end s) = op_active s"
  "op_active (settleStoreClose f s) = op_active s" "op_active (finishCleanup b s) = op_active s"
  "op_active (invalidate reason now ans s) = op_active s"
proof -
  show rel: "op_active (tryRelease s) = op_active s" for s by (simp add: tryRelease_def)
  show cl: "op_active (startCleanup s) = op_active s" for s by (simp add: startCleanup_def)
  show res: "op_active (resolved_discard c s) = op_active s" for c s
    by (simp add: resolved_discard_def Let_def rel split: option.split)
  show note_: "op_active (noteDecided c s) = op_active s" for c s by (simp add: noteDecided_def res)
  show disc: "op_active (discardStaged ans s) = op_active s" for s
    by (simp add: discardStaged_def note_ Let_def split: prod.split discard_result.split option.split)
  show "op_active (invalidate reason now ans s) = op_active s" by (simp add: invalidate_def Let_def rel cl disc)
qed (simp_all add: stage_end_def settleStoreClose_def finishCleanup_def Let_def tryRelease_def)

lemma ident_frame [simp]:
  "op_id (tryRelease s) = op_id s" "op_host (tryRelease s) = op_host s"
  "op_id (resolved_discard c s) = op_id s" "op_host (resolved_discard c s) = op_host s"
  "op_id (noteDecided c s) = op_id s" "op_host (noteDecided c s) = op_host s"
  "op_id (settleStoreClose f s) = op_id s" "op_host (settleStoreClose f s) = op_host s"
  "op_id (finishCleanup b s) = op_id s" "op_host (finishCleanup b s) = op_host s"
proof -
  show rel: "op_id (tryRelease s) = op_id s" "op_host (tryRelease s) = op_host s" for s by (simp_all add: tryRelease_def)
  show res: "op_id (resolved_discard c s) = op_id s" "op_host (resolved_discard c s) = op_host s"
    by (simp_all add: resolved_discard_def Let_def rel split: option.split)
  show "op_id (noteDecided c s) = op_id s" "op_host (noteDecided c s) = op_host s"
    by (simp_all add: noteDecided_def res)
qed (simp_all add: settleStoreClose_def finishCleanup_def Let_def tryRelease_def)

section \<open>A decision stands\<close>

lemma invalidate_decided [simp]: "isTerminal s \<Longrightarrow> invalidate reason now ans s = s"
  by (simp add: invalidate_def)

lemma committed_terminal: "op_state s = OpCommitted r \<Longrightarrow> isTerminal s"
  by (simp add: isTerminal_def)

lemma decided_kept:
  assumes "isTerminal s" "ostep s e s'"
  shows "op_state s' = op_state s"
  using assms
  by (cases e)
    (auto simp: ostep_def noteMainResponseContentType_def registerDownload_def stage_begin_def stage_failure_def stage_path_def
      stage_capture_def deadline_fired_def seal_begin_def seal_settled_def commit_def noteArtifactDiscarded_def disposal_settled_def
      isTerminal_def invalidate_def Let_def
      split: op_state.splits option.splits observation.splits path_answer.splits capture_result.splits)

definition committed_ok :: "operation \<Rightarrow> bool" where
  \<comment> \<open>a committed operation has no job left, and what it staged can be described\<close>
  "committed_ok s \<longleftrightarrow> (\<forall>r. op_state s = OpCommitted r \<longrightarrow>
     op_active s = 0 \<and> (\<forall>rec. op_provisional s = Some rec \<longrightarrow> projectMetadata (op_id s) rec (op_host s) \<noteq> None))"


lemma committed_mono:
  assumes "committed_ok s" "op_state t = op_state s" "op_active t = op_active s" "op_id t = op_id s" "op_host t = op_host s"
    "op_provisional t = op_provisional s \<or> op_provisional t = None"
  shows "committed_ok t"
  using assms by (auto simp: committed_ok_def)

lemma committed_commit:
  assumes "committed_ok s" "op_active s = 0"
    "\<And>rec. op_provisional s = Some rec \<Longrightarrow> projectMetadata (op_id s) rec (op_host s) \<noteq> None"
  shows "committed_ok (snd (commit r s))"
  using assms by (auto simp: committed_ok_def commit_def Let_def split: op_state.split op_result.split)

lemma committed_undecided: "\<not> isTerminal s \<Longrightarrow> committed_ok s"
  by (auto simp: committed_ok_def isTerminal_def)

lemma committed_invalidated: "op_state s = OpInvalidated c \<Longrightarrow> committed_ok s"
  by (simp add: committed_ok_def)

lemma committed_invalidate:
  assumes "committed_ok s" shows "committed_ok (invalidate reason now ans s)"
proof (cases "isTerminal s")
  case False
  then show ?thesis using invalidate_state [of reason now ans s] by (simp add: committed_invalidated)
qed (use assms in simp)

lemma committed_step_decided:
  assumes inv: "op_inv s" and ok: "committed_ok s" and st: "op_state s = OpCommitted r" and step: "ostep s e s'"
  shows "committed_ok s'"
proof -
  have t: "isTerminal s" using st by (rule committed_terminal)
  have act: "op_active s = 0" using ok st by (simp add: committed_ok_def)
  then have ph: "\<not> staging (op_phase s)" "op_phase s \<noteq> Finishing"
    using core_parts(1) [OF op_inv_core [OF inv]] by (auto simp: job_ok_def split: if_splits)
  then have ph': "op_phase s \<noteq> Queued" "op_phase s \<noteq> AwaitFailure" "op_phase s \<noteq> AwaitPath" "op_phase s \<noteq> AwaitCapture"
    by (auto simp: staging_def)
  have kept: "committed_ok u" if "op_state u = op_state s" "op_active u = op_active s" "op_id u = op_id s" "op_host u = op_host s"
    "op_provisional u = op_provisional s \<or> op_provisional u = None" for u
    using committed_mono [OF ok that] .
  show ?thesis
  proof (cases e)
    case (SealSettled now ans)
    let ?s = "s\<lparr>op_seals := op_seals s - 1\<rparr>"
    have "snd (seal_settled now ans s) = ?s"
      using st t by (auto simp: seal_settled_def commit_def Let_def invalidate_def split: option.split)
    then show ?thesis using step SealSettled kept by (simp add: ostep_def)
  qed (use step t st ph ph' act ok kept in
      \<open>auto simp: ostep_def noteMainResponseContentType_def registerDownload_def deadline_fired_def seal_begin_def
        noteArtifactDiscarded_def disposal_settled_def\<close>)
qed

lemma committed_step:
  assumes inv: "op_inv s" and ok: "committed_ok s" and step: "ostep s e s'"
  shows "committed_ok s'"
proof (cases "\<exists>r. op_state s = OpCommitted r")
  case True
  then show ?thesis using committed_step_decided [OF inv ok _ step] by blast
next
  case False
  then have nc: "op_state s \<noteq> OpCommitted r" for r by blast
  have same: "committed_ok u" if "op_state u = op_state s" for u using nc that by (simp add: committed_ok_def)
  have dec: "committed_ok (invalidate reason now ans u)" if "op_state u = op_state s" for reason now ans u
    using committed_invalidate same that by blast
  have fin: "committed_ok (stage_end u)" if "committed_ok u" for u
    using that by (rule committed_mono) (simp_all add: stage_end_def)
  show ?thesis
  proof (cases e)
    case (SealSettled now ans)
    then have act: "op_active s = 0" using step by (simp add: ostep_def)
    let ?s = "s\<lparr>op_seals := op_seals s - 1\<rparr>"
    have "committed_ok (snd (commit r ?s))"
      if "\<And>rec. op_provisional s = Some rec \<Longrightarrow> projectMetadata (op_id s) rec (op_host s) \<noteq> None" for r
      using that act same [of ?s] by (intro committed_commit) simp_all
    then show ?thesis
      using step SealSettled same [of ?s] dec [of ?s]
      by (auto simp: ostep_def seal_settled_def Let_def split: op_state.split option.split)
  next
    case (Discarded closeOwned now ans)
    have "committed_ok (resolved_discard closeOwned u)" if "committed_ok u" for u
      using that by (rule committed_mono) simp_all
    then have "committed_ok (resolved_discard closeOwned (invalidate (Some (if closeOwned then RuntimeInvalidated else LifecycleRace)) now ans
        (s\<lparr>op_provisional := None\<rparr>)))"
      using dec [of "s\<lparr>op_provisional := None\<rparr>"] by simp
    moreover have "committed_ok (noteDecided closeOwned s)" by (rule same) simp
    ultimately show ?thesis using step Discarded by (simp add: ostep_def noteArtifactDiscarded_def)
  qed (use step same dec fin in
      \<open>auto simp: ostep_def noteMainResponseContentType_def registerDownload_def stage_begin_def stage_failure_def stage_path_def
        stage_capture_def deadline_fired_def seal_begin_def disposal_settled_def signal_def Let_def committed_undecided
        split: op_state.split option.split observation.split path_answer.split capture_result.split\<close>)
qed

interpretation opc: inductive_invariant fresh_operation ostep "\<lambda>s. op_inv s \<and> committed_ok s"
proof
  show "op_inv s \<and> committed_ok s" if "fresh_operation s" for s
  proof -
    obtain i h where "s = new_operation i h" using \<open>fresh_operation s\<close> unfolding fresh_operation_def by blast
    then have "op_state s = OpOpen" by (simp add: new_operation_def)
    then show ?thesis using op_inv_init [OF that] by (simp add: committed_ok_def)
  qed
qed (use op_inv_step committed_step in blast)


section \<open>Runs\<close>

fun host_event :: "op_event \<Rightarrow> bool" where
  \<comment> \<open>steps that need nothing of the driver: the timer, microtasks, and waits the signal woke\<close>
  "host_event (DeadlineFires now ans) = True"
| "host_event StageBegin = True"
| "host_event (StageFailure a now ans) = (a = FailureStopped)"
| "host_event (StagePath a now ans) = (a = PathStopped)"
| "host_event StageSettled = True"
| "host_event _ = False"

definition op_do :: "op_event \<Rightarrow> operation \<Rightarrow> operation option" where
  "op_do e s = (if op_able e s then Some (op_after e s) else None)"

lemma run_append: "run f (es @ es') s = (case run f es s of None \<Rightarrow> None | Some t \<Rightarrow> run f es' t)"
  by (induction es arbitrary: s) (auto split: option.split)

lemma run_reachable_op:
  "run op_do es s = Some s' \<Longrightarrow> reachable init ostep s \<Longrightarrow> reachable init ostep s'"
  by (rule run_reachable [of op_do]) (simp_all add: op_do_def ostep_def split: if_splits)

section \<open>Example runs\<close>

definition staged_record :: stored_record where
  "staged_record = \<lparr>sr_consumerId = ''c'', sr_bytes = 4, sr_sha256 = ''ab'', sr_createdAt = 10, sr_expiresAt = 20,
     sr_consuming = False, sr_dev = 1, sr_ino = 2\<rparr>"

definition no_answer :: discard_answer where
  "no_answer = (Clean, False)"

definition demo_stuck_events :: "op_event list" where
  \<comment> \<open>a download whose path never settles, and a seal that waits for it\<close>
  "demo_stuck_events = [Register 0 no_answer, StageBegin, StageFailure (FailureValue False) 0 no_answer, SealBegin 5]"

definition demo_staged_events :: "op_event list" where
  \<comment> \<open>the path settles, the store captures, the job ends\<close>
  "demo_staged_events = demo_stuck_events @
     [StagePath (PathString ''/d'' (Some True)) 6 no_answer, StageCapture (Some (Available ''a1'' staged_record)) 7 no_answer,
      StageSettled]"

definition demo_stuck :: operation where
  "demo_stuck = \<lparr>op_id = ''a1'', op_host = ''h'', op_state = OpSealing, op_events = 1, op_active = 1, op_phase = AwaitPath,
      op_provisional = None, op_status = None, op_contentType = None, op_cleanupFailed = False, op_released = False,
      op_waiting = False, op_refusal = False, op_storeClose = None, op_download = True, op_stagedPath = None,
      op_cleanup = CleanupIdle, op_cleanupUnconfirmed = False, op_deadlineAt = Some 5005, op_deadlineTimer = True,
      op_stop = True, op_seals = 1, op_releases = 0, op_disposals = 0, op_poisons = 0, op_published = []\<rparr>"

definition demo_staged :: operation where
  "demo_staged = demo_stuck\<lparr>op_active := 0, op_phase := Ended, op_provisional := Some staged_record, op_download := False,
     op_stagedPath := Some ''/d''\<rparr>"

definition demo_metadata :: metadata where
  "demo_metadata = \<lparr>md_artifactId = ''a1'', md_sizeBytes = 4, md_sha256 = ''ab'', md_createdAt = 10, md_expiresAt = 20,
     md_sourceHost = ''h''\<rparr>"

definition demo_sealed :: operation where
  "demo_sealed = demo_staged\<lparr>op_seals := 0, op_state := OpCommitted (AvailableResult demo_metadata),
     op_published := [demo_metadata], op_deadlineTimer := False, op_waiting := True\<rparr>"

lemma run_demo_stuck: "run op_do demo_stuck_events (new_operation ''a1'' ''h'') = Some demo_stuck"
  by (simp add: demo_stuck_events_def demo_stuck_def new_operation_def op_do_def registerDownload_def signal_def armDeadline_def
      openDeadline_def isTerminal_def stage_begin_def stage_failure_def seal_begin_def SETTLEMENT_BUDGET_MS_def Let_def)

lemma run_demo_staged: "run op_do demo_staged_events (new_operation ''a1'' ''h'') = Some demo_staged"
  by (simp add: demo_staged_events_def run_append run_demo_stuck)
    (simp add: demo_staged_def demo_stuck_def op_do_def stage_path_def stage_capture_def stage_end_def stage_settled_def
      clearDeadline_def tryRelease_def isTerminal_def)

lemma seal_demo_staged: "seal_settled 9 no_answer demo_staged = (AvailableResult demo_metadata, demo_sealed)"
  by (simp add: seal_settled_def demo_staged_def demo_stuck_def demo_sealed_def demo_metadata_def staged_record_def projectMetadata_def
      isoInstant_def MAX_TIME_VALUE_def commit_def clearDeadline_def tryRelease_def isTerminal_def Let_def)

lemma fresh_new_operation: "fresh_operation (new_operation i h)"
  by (simp add: fresh_operation_def new_operation_def)

lemma op_demo_reachable: "reachable fresh_operation ostep demo_stuck" "reachable fresh_operation ostep demo_staged"
  using run_reachable_op [OF run_demo_stuck reachable.start] run_reachable_op [OF run_demo_staged reachable.start] fresh_new_operation
  by blast+

lemma op_demo_sealed: "reachable fresh_operation ostep demo_sealed"
proof (rule reachable.more [OF op_demo_reachable(2)])
  show "ostep demo_staged (SealSettled 9 no_answer) demo_sealed"
    by (simp add: ostep_def seal_demo_staged) (simp add: demo_staged_def demo_stuck_def)
qed

section \<open>The claims\<close>


definition reported :: "operation \<Rightarrow> op_result option" where
  \<comment> \<open>what a decided operation tells whoever seals it now\<close>
  "reported s =
     (case op_state s of
        OpCommitted r \<Rightarrow> Some r
      | OpInvalidated c \<Rightarrow> Some (invalidatedResult c s)
      | _ \<Rightarrow> None)"

lemma decided_forever:
  assumes "reachable (\<lambda>t. t = s) ostep s'" "isTerminal s"
  shows "op_state s' = op_state s"
  using assms(1) assms(2)
proof (induction rule: reachable.induct)
  case (more t e t')
  then have "isTerminal t" using isTerminal_eq [of t s] by simp
  then show ?case using decided_kept [OF _ more.hyps(2)] more by simp
qed simp

lemma reach_trans: "reachable (\<lambda>t. t = s) step s' \<Longrightarrow> reachable init step s \<Longrightarrow> reachable init step s'"
  by (induction rule: reachable.induct) (auto intro: reachable.more)

lemma seal_settled_reports:
  assumes inv: "op_inv s" "committed_ok s" and able: "op_able (SealSettled now ans) s"
  shows "reported (snd (seal_settled now ans s)) = Some (fst (seal_settled now ans s))"
proof -
  have st: "op_state s \<noteq> OpOpen"
    using core_parts(2) [OF op_inv_core [OF inv(1)]] able by (auto simp: timer_ok_def)
  have com: "reported (snd (commit r u)) = Some (fst (commit r u))" for r u
    by (simp add: commit_def Let_def reported_def split: op_state.split op_result.split)
  show ?thesis
  proof (cases "op_state s")
    case (OpCommitted r)
    then show ?thesis using inv(2) com
      by (auto simp: seal_settled_def committed_ok_def Let_def split: option.split)
  next
    case (OpInvalidated c)
    then show ?thesis by (simp add: seal_settled_def Let_def reported_def invalidatedResult_def)
  next
    case OpSealing
    then have "\<not> isTerminal s" by (simp add: isTerminal_def)
    then show ?thesis using OpSealing com invalidate_state [of "Some ConfigInvalid" now ans "s\<lparr>op_seals := op_seals s - 1\<rparr>"]
      by (simp add: seal_settled_def Let_def reported_def split: option.split)
  qed (use st in simp)
qed

lemma seal_begin_reports: "fst (seal_begin now s) = reported s"
  by (simp add: seal_begin_def reported_def split: op_state.split)

text \<open>C31: A capture operation is decided once, for every caller. Whatever happens afterwards (late downloads, observations,
  deadlines, retirements, disposals, the store's notices) the decided state stands and nothing more is published; a seal that
  waited for the staging job answers the decision itself, and so does every seal called later: the committed result
  unchanged, or the reason of the invalidation, reported as a cleanup failure exactly when deleting the bytes failed.\<close>

theorem operation_decided_once:
  assumes "reachable fresh_operation ostep s" "op_able (SealSettled now ans) s"
    "seal_settled now ans s = (r, d)" "reachable (\<lambda>t. t = d) ostep d'"
  shows "isTerminal d' \<and> op_state d' = op_state d \<and> reported d = Some r \<and>
    op_published d' = op_published d \<and> length (op_published d') \<le> 1 \<and>
    fst (seal_begin later d') =
       (case op_state d of OpCommitted _ \<Rightarrow> Some r
        | OpInvalidated c \<Rightarrow> Some (CaptureFailedResult (if op_cleanupFailed d' then CleanupFailed else c)) | _ \<Rightarrow> None)"
proof -
  have s: "op_inv s" "committed_ok s" using opc.always [OF assms(1)] by simp_all
  have rep: "reported d = Some r" using seal_settled_reports [OF s assms(2)] assms(3) by simp
  have t: "isTerminal d" using rep by (simp add: reported_def isTerminal_def split: op_state.splits)
  have kept: "op_state d' = op_state d" by (rule decided_forever [OF assms(4) t])
  have "ostep s (SealSettled now ans) d" using assms(2,3) by (simp add: ostep_def)
  then have d: "reachable fresh_operation ostep d" by (rule reachable.more [OF assms(1)])
  have d': "reachable fresh_operation ostep d'" by (rule reach_trans [OF assms(4) d])
  have "published_ok (op_state d) (op_published d)" "published_ok (op_state d') (op_published d')"
    using op.always [OF d] op.always [OF d'] by (simp_all add: op_inv_def core_ok_def)
  then have "op_published d' = op_published d \<and> length (op_published d') \<le> 1"
    by (simp add: published_ok_def kept split: op_state.split op_result.split)
  moreover have "fst (seal_begin later d') =
       (case op_state d of OpCommitted _ \<Rightarrow> Some r
        | OpInvalidated c \<Rightarrow> Some (CaptureFailedResult (if op_cleanupFailed d' then CleanupFailed else c)) | _ \<Rightarrow> None)"
    using rep by (simp add: seal_begin_reports reported_def kept invalidatedResult_def split: op_state.splits)
  ultimately show ?thesis using rep kept isTerminal_eq [OF kept] t by auto
qed

lemma operation_decided_once_witness:
  "reported demo_sealed = Some (AvailableResult demo_metadata) \<and>
   fst (seal_begin 30 demo_sealed) = Some (AvailableResult demo_metadata)"
proof -
  have able: "op_able (SealSettled 9 no_answer) demo_staged" by (simp add: demo_staged_def demo_stuck_def)
  have self: "reachable (\<lambda>t. t = demo_sealed) ostep demo_sealed" by (rule reachable.start) simp
  show ?thesis
    using operation_decided_once [OF op_demo_reachable(2) able seal_demo_staged self, of 30] by (simp add: demo_sealed_def)
qed

lemma blocked_alt:
  "\<not> blocked active failed waiting refusal cl \<longleftrightarrow>
     active = 0 \<and> \<not> failed \<and> \<not> waiting \<and> \<not> refusal \<and> (cl = CleanupIdle \<or> cl = CleanupConfirmed)"
  by (cases cl) (auto simp: blocked_def)

lemma released_unblocked: "op_inv s \<Longrightarrow> isTerminal s \<Longrightarrow> op_released s \<longleftrightarrow> \<not> unsafe s"
  using core_parts(5) [of s] by (auto simp: op_inv_def settled_ok_def release_ok_def)

text \<open>C32: The reserved identity is given back exactly when nothing it stands for is pending, and at most once: a decided
  operation has released it if and only if no staging continuation runs, no deletion failed, no committed artifact awaits its
  durable discard, no refused discard is unresolved and the disposal of the driver's copy is neither running nor unconfirmed.
  An undecided operation has released nothing and disposed of nothing; disposal happens at most once, and an unconfirmed one
  poisons the runtime exactly once.\<close>

theorem identity_released_exactly:
  assumes "reachable fresh_operation ostep s"
  shows "(if isTerminal s
      then op_released s \<longleftrightarrow>
        op_active s = 0 \<and> \<not> op_cleanupFailed s \<and> \<not> op_waiting s \<and> \<not> op_refusal s \<and>
        (op_cleanup s = CleanupIdle \<or> op_cleanup s = CleanupConfirmed)
      else \<not> op_released s \<and> op_disposals s = 0) \<and>
    op_releases s = (if op_released s then 1 else 0) \<and> op_disposals s \<le> 1 \<and>
    op_poisons s = (if op_cleanup s = CleanupLost then 1 else 0)"
proof -
  have inv: "op_inv s" by (rule op.always [OF assms])
  note parts = core_parts [OF op_inv_core [OF inv]]
  have "op_released s \<longleftrightarrow> \<not> unsafe s" if "isTerminal s" by (rule released_unblocked [OF inv that])
  moreover have "\<not> op_released s \<and> op_disposals s = 0" if "\<not> isTerminal s"
    using parts(3,5) that by (simp add: release_ok_def hooks_ok_def)
  ultimately show ?thesis using parts(3) by (simp add: blocked_alt hooks_ok_def)
qed

lemma identity_released_exactly_witness:
  "\<not> op_released demo_sealed \<and> op_releases demo_sealed = 0 \<and> op_disposals demo_stuck = 0"
  using identity_released_exactly [OF op_demo_sealed] identity_released_exactly [OF op_demo_reachable(1)]
  by (simp add: demo_sealed_def demo_stuck_def demo_staged_def isTerminal_def)

section \<open>A closing store\<close>

lemma discard_while_closing:
  "as_closeRequested s \<Longrightarrow> cf_enabled (as_cfg s) \<Longrightarrow> ARTIFACT_ID i \<Longrightarrow> discardArtifactDetailed fa i s = (Inr Refused, s)"
  by (simp add: discardArtifactDetailed_def)

section \<open>A seal is not at the driver's mercy\<close>

lemma decided_drains:
  assumes t: "isTerminal s" and job: "job_ok (op_active s) (op_phase s) (op_events s) (op_stop s) (op_download s) True"
    and ph: "op_phase s \<noteq> AwaitCapture"
  obtains es s' where "list_all host_event es" "length es \<le> 2" "run op_do es s = Some s'" "op_active s' = 0" "op_seals s' = op_seals s"
proof -
  have last: "run op_do [StageSettled] u = Some (stage_settled u) \<and> op_active (stage_settled u) = 0 \<and> op_seals (stage_settled u) = op_seals u"
    if "op_phase u = Finishing" "op_active u = 1" for u
    using that by (simp add: op_do_def stage_settled_def)
  have act: "op_active s = (if staging (op_phase s) \<or> op_phase s = Finishing then 1 else 0)"
    using job by (simp add: job_ok_def)
  define first where "first = (case op_phase s of Queued \<Rightarrow> [StageBegin] | AwaitFailure \<Rightarrow> [StageFailure FailureStopped 0 (Clean, False)]
    | AwaitPath \<Rightarrow> [StagePath PathStopped 0 (Clean, False)] | _ \<Rightarrow> [])"
  show thesis
  proof (cases "op_phase s = NoJob \<or> op_phase s = Ended")
    case True
    then have "op_active s = 0" using act by (auto simp: staging_def)
    then show thesis using that [of "[]" s] by simp
  next
    case False
    then obtain u where u: "run op_do first s = Some u" "op_phase u = Finishing" "op_active u = 1" "op_seals u = op_seals s"
      using ph t act
      by (cases "op_phase s") (auto simp: first_def op_do_def stage_begin_def stage_failure_def stage_path_def stage_end_def staging_def)
    have "run op_do (first @ [StageSettled]) s = Some (stage_settled u)"
      using u(1) last [OF u(2,3)] by (simp add: run_append)
    moreover have "list_all host_event first" "length first \<le> 1" by (simp_all add: first_def split: stage_phase.split)
    ultimately show thesis using that [of "first @ [StageSettled]" "stage_settled u"] last [OF u(2,3)] u(4) by simp
  qed
qed

text \<open>C33: A seal never depends on the driver: while a seal waits for the staging job, and unless the job is inside the store's
  own capture, at most three steps that need no answer from the driver (the one settlement deadline, a queued microtask, the
  wait the signal wakes, the job's own completion) lead to a state in which that seal answers. An accessor that never settles
  cannot hold it.\<close>

theorem seal_never_waits_on_driver:
  assumes "reachable fresh_operation ostep s" "op_seals s > 0" "op_phase s \<noteq> AwaitCapture"
  shows "\<exists>es s'. list_all host_event es \<and> length es \<le> 3 \<and> run op_do es s = Some s' \<and> op_able (SealSettled later ans) s'"
proof (cases "isTerminal s \<or> op_active s = 0")
  case True
  then show ?thesis
  proof
    assume t: "isTerminal s"
    then have "job_ok (op_active s) (op_phase s) (op_events s) (op_stop s) (op_download s) True"
      using core_parts(1) [OF op_inv_core [OF op.always [OF assms(1)]]] by simp
    then obtain es s' where "list_all host_event es" "length es \<le> 2" "run op_do es s = Some s'" "op_active s' = 0" "op_seals s' = op_seals s"
      using decided_drains [OF t _ assms(3)] by blast
    then show ?thesis using assms(2) by (intro exI [of _ es] exI [of _ s']) simp
  next
    assume "op_active s = 0"
    then show ?thesis using assms(2) by (intro exI [of _ "[]"] exI [of _ s]) simp
  qed
next
  case False
  note parts = core_parts [OF op_inv_core [OF op.always [OF assms(1)]]]
  have "op_stop s" using parts(1) False by (auto simp: job_ok_def staging_def split: if_splits)
  then have timer: "op_deadlineTimer s" using parts(2) False assms(2) by (auto simp: timer_ok_def isTerminal_def split: op_state.splits)
  let ?d = "deadline_fired 0 ans s"
  have step: "run op_do [DeadlineFires 0 ans] s = Some ?d" using timer by (simp add: op_do_def)
  then have "reachable fresh_operation ostep ?d" by (rule run_reachable_op [OF _ assms(1)])
  moreover have t: "isTerminal ?d" and sel: "op_seals ?d = op_seals s" "op_phase ?d = op_phase s" by (simp_all add: deadline_fired_def)
  ultimately have "job_ok (op_active ?d) (op_phase ?d) (op_events ?d) (op_stop ?d) (op_download ?d) True"
    using core_parts(1) [OF op_inv_core [OF op.always]] by metis
  then obtain es s' where es: "list_all host_event es" "length es \<le> 2" "run op_do es ?d = Some s'" "op_active s' = 0" "op_seals s' = op_seals ?d"
    using decided_drains [OF t] assms(3) sel by metis
  have "run op_do (DeadlineFires 0 ans # es) s = Some s'" using step es(3) by (simp split: option.splits)
  then show ?thesis using es assms(2) sel by (intro exI [of _ "DeadlineFires 0 ans # es"] exI [of _ s']) simp
qed

lemma seal_never_waits_on_driver_witness:
  "\<exists>es s'. list_all host_event es \<and> length es \<le> 3 \<and> run op_do es demo_stuck = Some s' \<and>
     op_able (SealSettled 6000 no_answer) s'"
  by (rule seal_never_waits_on_driver [OF op_demo_reachable(1)]) (simp_all add: demo_stuck_def)

end
