(* ===== verification/Artifact_Runtime.thy ===== *)
theory Artifact_Runtime
  imports Artifact_Operation_Claims Egress
begin

text \<open>
  The artifact runtime (class \<open>ArtifactRuntime\<close> of \<open>src/artifacts/index.ts\<close>): identity reservations, the
  live operations, the owner ledger that authorises retrieval, drive lineages, the retrieval budget, the
  capture poison and the one close. Operations are kept by their token, also after the runtime dropped
  them, since their continuations still run; \<open>tell\<close> is one step of an operation together with the hooks
  that step calls. A clock that throws, what the store answers to a discard and the candidates of the id
  generator are arguments. Caller code that runs between the entry checks of \<open>createOperation\<close> and its
  reservation (getters, the generator) is a step between the two halves: the open calls are a stack.
\<close>

section \<open>Data\<close>

datatype artifact_owner = ConsumerOwner string | DriveOwner string string

fun owner_consumer :: "artifact_owner \<Rightarrow> string" where
  "owner_consumer (ConsumerOwner c) = c"
| "owner_consumer (DriveOwner c k) = c"

text \<open>One property of a caller's object: undefined, a string, or anything else.\<close>

datatype raw = Undefined | Text string | OtherValue

text \<open>A caller's object: none at all, one whose getter throws, or its properties as read once.\<close>

datatype raw_owner = NoOwner | OwnerThrows | OwnerFields raw raw raw

datatype raw_input = NoInput | InputThrows | InputFields raw_owner raw raw

datatype raw_request = NoRequest | RequestThrows | RequestFields raw raw raw

datatype lineage = Active | Invalidated

record artifact_entry =
  ae_token :: nat
  ae_owner :: artifact_owner
  ae_metadata :: metadata

datatype close_phase =
    NotClosing
  | Closing "nat list" bool                 \<comment> \<open>the tracked operations, and whether a disposal threw\<close>
  | Settled "artifact_code option"

record runtime =
  rt_closed :: bool
  rt_poisoned :: bool
  rt_reserved :: "(string \<times> nat) list"
  rt_operations :: "nat list"
  rt_artifactOwners :: "(string \<times> artifact_entry) list"
  rt_controllerState :: "((string \<times> string) \<times> lineage) list"
  rt_retrievals :: "(string \<times> int list) list"
  rt_closing :: close_phase
  rt_heap :: "(nat \<times> (artifact_owner \<times> operation)) list"
  rt_next :: nat
  rt_frames :: "(artifact_owner \<times> string \<times> string option) list"

definition new_ArtifactRuntime :: runtime where
  "new_ArtifactRuntime =
     \<lparr>rt_closed = False, rt_poisoned = False, rt_reserved = [], rt_operations = [], rt_artifactOwners = [],
      rt_controllerState = [], rt_retrievals = [], rt_closing = NotClosing, rt_heap = [], rt_next = 0, rt_frames = []\<rparr>"

definition MAX_ID_ATTEMPTS :: nat where "MAX_ID_ATTEMPTS = 8"

definition MAX_RETRIEVALS_PER_WINDOW :: nat where "MAX_RETRIEVALS_PER_WINDOW = 30"

definition RETRIEVAL_WINDOW_MS :: int where "RETRIEVAL_WINDOW_MS = 60000"

section \<open>Creating an operation\<close>

fun canonicalizeOwner :: "raw_owner \<Rightarrow> artifact_owner option" where
  \<comment> \<open>\<open>None\<close>: throws \<open>artifact-config-invalid\<close>\<close>
  "canonicalizeOwner (OwnerFields scope cid kid) =
     (case cid of
        Text c \<Rightarrow>
          if c = [] then None
          else if scope = Text ''consumer'' then (if kid = Undefined then Some (ConsumerOwner c) else None)
          else if scope = Text ''drive'' then (case kid of Text k \<Rightarrow> if k = [] then None else Some (DriveOwner c k) | _ \<Rightarrow> None)
          else None
      | _ \<Rightarrow> None)"
| "canonicalizeOwner _ = None"

definition host_label :: "string \<Rightarrow> bool" where
  "host_label l \<longleftrightarrow> l \<noteq> [] \<and> length l \<le> 63 \<and> list_all (\<lambda>c. is_lower c \<or> is_digit c \<or> c = CHR ''-'') l \<and>
     hd l \<noteq> CHR ''-'' \<and> last l \<noteq> CHR ''-''"

definition HOST :: "string \<Rightarrow> bool" where
  "HOST h \<longleftrightarrow> h \<noteq> [] \<and> length h \<le> 253 \<and> list_all host_label (split_on (CHR ''.'') h)"

definition invalidLineage :: "artifact_owner \<Rightarrow> runtime \<Rightarrow> bool" where
  "invalidLineage ow s =
     (case ow of DriveOwner c k \<Rightarrow> map_of (rt_controllerState s) (c, k) = Some Invalidated | ConsumerOwner c \<Rightarrow> False)"

definition enter_create :: "raw_input \<Rightarrow> runtime \<Rightarrow> artifact_code + (artifact_owner \<times> string \<times> string option)" where
  \<comment> \<open>up to the id: the entry fences and the snapshot of the input\<close>
  "enter_create input s =
     (if rt_closed s then Inl RuntimeInvalidated
      else if rt_poisoned s then Inl CleanupFailed
      else (case input of
              InputFields ow host supplied \<Rightarrow>
                (case canonicalizeOwner ow of
                   None \<Rightarrow> Inl ConfigInvalid
                 | Some owner \<Rightarrow>
                     if invalidLineage owner s then Inl RuntimeInvalidated
                     else (case host of
                             Text sourceHost \<Rightarrow>
                               (let h = canonicalizeHost sourceHost
                                in if \<not> HOST h \<or> isIP (canonicalizeHostForIp h) \<noteq> 0 \<or> list_ex is_ctrl sourceHost
                                   then Inl ConfigInvalid
                                   else (case supplied of
                                           Undefined \<Rightarrow> Inr (owner, h, None)
                                         | Text i \<Rightarrow> Inr (owner, h, Some i)
                                         | OtherValue \<Rightarrow> Inl InvalidArtifactId))
                           | _ \<Rightarrow> Inl ConfigInvalid))
            | _ \<Rightarrow> Inl ConfigInvalid))"

fun draw_id :: "(string \<times> nat) list \<Rightarrow> (nat \<Rightarrow> raw option) \<Rightarrow> nat \<Rightarrow> nat \<Rightarrow> artifact_code + string" where
  \<comment> \<open>the generator's candidates; \<open>None\<close>: it throws\<close>
  "draw_id reserved_ids gen attempt 0 = Inl Capacity"
| "draw_id reserved_ids gen attempt (Suc left) =
     (case gen attempt of
        Some (Text t) \<Rightarrow>
          if ARTIFACT_ID t \<and> map_of reserved_ids t = None then Inr t else draw_id reserved_ids gen (Suc attempt) left
      | _ \<Rightarrow> Inl ConfigInvalid)"

definition choose_id :: "string option \<Rightarrow> (nat \<Rightarrow> raw option) \<Rightarrow> runtime \<Rightarrow> artifact_code + string" where
  "choose_id supplied gen s =
     (case supplied of
        Some i \<Rightarrow>
          if \<not> ARTIFACT_ID i then Inl InvalidArtifactId
          else if map_of (rt_reserved s) i \<noteq> None then Inl Capacity else Inr i
      | None \<Rightarrow> draw_id (rt_reserved s) gen 0 MAX_ID_ATTEMPTS)"

definition finish_create ::
  "artifact_owner \<Rightarrow> string \<Rightarrow> string option \<Rightarrow> (nat \<Rightarrow> raw option) \<Rightarrow> runtime \<Rightarrow> (artifact_code + nat) \<times> runtime" where
  \<comment> \<open>the id, the rechecked fences, the reservation, the lineage, the operation\<close>
  "finish_create owner h supplied gen s =
     (case choose_id supplied gen s of
        Inl e \<Rightarrow> (Inl e, s)
      | Inr i \<Rightarrow>
          if rt_closed s then (Inl RuntimeInvalidated, s)
          else if rt_poisoned s then (Inl CleanupFailed, s)
          else if invalidLineage owner s then (Inl RuntimeInvalidated, s)
          else (let tok = rt_next s;
                    states = (case owner of
                                DriveOwner c k \<Rightarrow>
                                  (if map_of (rt_controllerState s) (c, k) = None
                                   then alist_put (c, k) Active (rt_controllerState s) else rt_controllerState s)
                              | ConsumerOwner c \<Rightarrow> rt_controllerState s)
                in (Inr tok,
                    s\<lparr>rt_reserved := alist_put i tok (rt_reserved s), rt_controllerState := states,
                      rt_heap := alist_put tok (owner, new_operation i h) (rt_heap s), rt_next := tok + 1,
                      rt_operations := rt_operations s @ [tok]\<rparr>)))"

definition createOperation :: "raw_input \<Rightarrow> (nat \<Rightarrow> raw option) \<Rightarrow> runtime \<Rightarrow> (artifact_code + nat) \<times> runtime" where
  \<comment> \<open>with no caller code in between\<close>
  "createOperation input gen s =
     (case enter_create input s of
        Inl e \<Rightarrow> (Inl e, s)
      | Inr (owner, h, supplied) \<Rightarrow> finish_create owner h supplied gen s)"

section \<open>The hooks of an operation\<close>

definition publishOwner :: "nat \<Rightarrow> artifact_owner \<Rightarrow> string \<Rightarrow> metadata \<Rightarrow> runtime \<Rightarrow> runtime" where
  "publishOwner tok owner i md s =
     s\<lparr>rt_artifactOwners := alist_put i \<lparr>ae_token = tok, ae_owner = owner, ae_metadata = md\<rparr> (rt_artifactOwners s)\<rparr>"

definition release_identity :: "nat \<Rightarrow> string \<Rightarrow> runtime \<Rightarrow> runtime" where
  "release_identity tok i s =
     s\<lparr>rt_reserved := (if map_of (rt_reserved s) i = Some tok then alist_del i (rt_reserved s) else rt_reserved s),
       rt_artifactOwners :=
         (if map_option ae_token (map_of (rt_artifactOwners s) i) = Some tok then alist_del i (rt_artifactOwners s)
          else rt_artifactOwners s),
       rt_operations := removeAll tok (rt_operations s)\<rparr>"

definition cleanup_unconfirmed :: "nat \<Rightarrow> runtime \<Rightarrow> runtime" where
  "cleanup_unconfirmed tok s = s\<lparr>rt_poisoned := True, rt_operations := removeAll tok (rt_operations s)\<rparr>"

definition tell :: "nat \<Rightarrow> op_event \<Rightarrow> runtime \<Rightarrow> runtime" where
  \<comment> \<open>one step of the operation and the hooks it calls\<close>
  "tell tok e s =
     (case map_of (rt_heap s) tok of
        None \<Rightarrow> s
      | Some (owner, x) \<Rightarrow>
          (let y = op_after e x;
               s1 = s\<lparr>rt_heap := alist_put tok (owner, y) (rt_heap s)\<rparr>;
               s2 = (if op_published y = op_published x then s1 else publishOwner tok owner (op_id x) (last (op_published y)) s1);
               s3 = (if op_poisons x < op_poisons y then cleanup_unconfirmed tok s2 else s2)
           in if op_releases x < op_releases y then release_identity tok (op_id x) s3 else s3))"

definition notifyDiscard :: "string \<Rightarrow> bool \<Rightarrow> int \<Rightarrow> discard_answer \<Rightarrow> runtime \<Rightarrow> runtime" where
  \<comment> \<open>the \<open>onDiscard\<close> the runtime gives its store\<close>
  "notifyDiscard i closeOwned now ans s =
     (case map_of (rt_reserved s) i of
        None \<Rightarrow> s
      | Some tok \<Rightarrow> if tok \<in> set (rt_operations s) then tell tok (Discarded closeOwned now ans) s else s)"

text \<open>What the clock and the store answer while an operation is disposed of. A clock that throws (\<open>None\<close>) is
  asked only by an undecided operation whose deadline is not open yet.\<close>

type_synonym dispose_answer = "int option \<times> discard_answer"

definition disposal_throws :: "(nat \<Rightarrow> dispose_answer) \<Rightarrow> nat \<Rightarrow> runtime \<Rightarrow> bool" where
  "disposal_throws answers tok s \<longleftrightarrow>
     fst (answers tok) = None \<and>
     (case map_of (rt_heap s) tok of None \<Rightarrow> False | Some (owner, x) \<Rightarrow> \<not> isTerminal x \<and> op_deadlineAt x = None)"

definition disposeForRuntime :: "(nat \<Rightarrow> dispose_answer) \<Rightarrow> nat \<Rightarrow> runtime \<Rightarrow> runtime" where
  "disposeForRuntime answers tok s =
     (if disposal_throws answers tok s then s
      else tell tok (Invalidate (Some RuntimeInvalidated) (case fst (answers tok) of Some now \<Rightarrow> now | None \<Rightarrow> 0)
             (snd (answers tok))) s)"

section \<open>Lineages\<close>

definition owned_by_lineage :: "string \<Rightarrow> string \<Rightarrow> nat \<Rightarrow> runtime \<Rightarrow> bool" where
  "owned_by_lineage c k tok s =
     (case map_of (rt_heap s) tok of None \<Rightarrow> False | Some (owner, x) \<Rightarrow> owner = DriveOwner c k)"

fun named_lineage :: "raw_request \<Rightarrow> (string \<times> string) option" where
  \<comment> \<open>the consumer and the controller of a disposal; the first property is not read\<close>
  "named_lineage (RequestFields x (Text c) (Text k)) = (if c = [] \<or> k = [] then None else Some (c, k))"
| "named_lineage _ = None"

definition fence_lineage :: "string \<Rightarrow> string \<Rightarrow> (nat \<Rightarrow> dispose_answer) \<Rightarrow> runtime \<Rightarrow> runtime" where
  "fence_lineage c k answers s =
     (let s1 = s\<lparr>rt_controllerState := alist_put (c, k) Invalidated (rt_controllerState s)\<rparr>
      in fold (disposeForRuntime answers) (filter (\<lambda>tok. owned_by_lineage c k tok s1) (rt_operations s1)) s1)"

definition invalidateController :: "raw_request \<Rightarrow> (nat \<Rightarrow> dispose_answer) \<Rightarrow> runtime \<Rightarrow> runtime" where
  "invalidateController input answers s =
     (case named_lineage input of None \<Rightarrow> s | Some (c, k) \<Rightarrow> fence_lineage c k answers s)"

text \<open>The store's answer to one discard of \<open>discardController\<close>: it throws, or it answers, after a notification or
  without one.\<close>

datatype discard_reply = DiscardThrows | DiscardReply discard_result "(int \<times> discard_answer) option"

fun discard_one :: "(string \<Rightarrow> discard_reply) \<Rightarrow> string \<Rightarrow> (bool \<times> bool) \<times> runtime \<Rightarrow> (bool \<times> bool) \<times> runtime" where
  \<comment> \<open>the flags \<open>refused\<close> and \<open>failed\<close>\<close>
  "discard_one replies i ((refused, failed), s) =
     (case replies i of
        DiscardThrows \<Rightarrow> ((refused, True), s)
      | DiscardReply result notified \<Rightarrow>
          ((refused \<or> result = Refused, failed \<or> result = Failed),
           (case notified of None \<Rightarrow> s | Some (now, ans) \<Rightarrow> notifyDiscard i False now ans s)))"

definition discardController ::
  "raw_request \<Rightarrow> (nat \<Rightarrow> dispose_answer) \<Rightarrow> (string \<Rightarrow> discard_reply) \<Rightarrow> runtime \<Rightarrow> discard_result \<times> runtime" where
  "discardController input answers replies s0 =
     (let s1 = invalidateController input answers s0
      in case named_lineage input of
           None \<Rightarrow> (Clean, s1)
         | Some (c, k) \<Rightarrow>
             (let doomed = map fst (filter (\<lambda>q. ae_owner (snd q) = DriveOwner c k) (rt_artifactOwners s1))
              in case fold (discard_one replies) doomed ((False, False), s1) of
                   ((refused, failed), s) \<Rightarrow>
                     (if failed then Failed else if refused then Refused else Clean,
                      if failed then s\<lparr>rt_poisoned := True\<rparr> else s)))"

section \<open>Retrieval\<close>

definition spendRetrieval :: "int \<Rightarrow> string \<Rightarrow> (string \<times> int list) list \<Rightarrow> bool \<times> (string \<times> int list) list" where
  "spendRetrieval now c tries =
     (let old = (case map_of tries c of None \<Rightarrow> [] | Some ts \<Rightarrow> ts);
          live = dropWhile (\<lambda>t. t \<le> now - RETRIEVAL_WINDOW_MS) old;
          kept = (if live = [] then alist_del c tries else alist_put c live tries)
      in if length live \<ge> MAX_RETRIEVALS_PER_WINDOW then (True, kept)
         else (False, alist_put c (live @ [now]) kept))"

definition authorised_entry :: "raw \<Rightarrow> string \<Rightarrow> raw \<Rightarrow> runtime \<Rightarrow> artifact_code + (string \<times> artifact_entry)" where
  "authorised_entry aid c kid s =
     (case aid of
        Text i \<Rightarrow>
          if \<not> ARTIFACT_ID i then Inl NotFound
          else (case map_of (rt_artifactOwners s) i of
                  None \<Rightarrow> Inl NotFound
                | Some entry \<Rightarrow>
                    if owner_consumer (ae_owner entry) \<noteq> c then Inl OwnerMismatch
                    else (case ae_owner entry of
                            ConsumerOwner _ \<Rightarrow> Inr (i, entry)
                          | DriveOwner _ k \<Rightarrow>
                              if kid \<noteq> Text k then Inl OwnerMismatch
                              else if map_of (rt_controllerState s) (c, k) \<noteq> Some Active then Inl OwnerMismatch
                              else Inr (i, entry)))
      | _ \<Rightarrow> Inl NotFound)"

definition authorise :: "int \<Rightarrow> raw_request \<Rightarrow> runtime \<Rightarrow> (artifact_code + (string \<times> artifact_entry)) \<times> runtime" where
  \<comment> \<open>\<open>acquireResponseLease\<close> before its store is touched\<close>
  "authorise now req s =
     (case req of
        RequestFields aid (Text c) kid \<Rightarrow>
          if c = [] then (Inl NotFound, s)
          else (case spendRetrieval now c (rt_retrievals s) of
                  (True, tries) \<Rightarrow> (Inl RateLimited, s\<lparr>rt_retrievals := tries\<rparr>)
                | (False, tries) \<Rightarrow>
                    (let s1 = s\<lparr>rt_retrievals := tries\<rparr> in (authorised_entry aid c kid s1, s1)))
      | _ \<Rightarrow> (Inl NotFound, s))"

section \<open>Closing\<close>

fun dispose_tracked :: "(nat \<Rightarrow> dispose_answer) \<Rightarrow> nat list \<Rightarrow> runtime \<Rightarrow> bool \<times> runtime" where
  \<comment> \<open>whether a disposal threw\<close>
  "dispose_tracked answers [] s = (False, s)"
| "dispose_tracked answers (tok # toks) s =
     (case dispose_tracked answers toks (disposeForRuntime answers tok s) of
        (threw, s') \<Rightarrow> (disposal_throws answers tok s \<or> threw, s'))"

definition close_runtime :: "(nat \<Rightarrow> dispose_answer) \<Rightarrow> runtime \<Rightarrow> runtime" where
  "close_runtime answers s =
     (if rt_closing s \<noteq> NotClosing then s
      else (let tracked = rt_operations s
            in case dispose_tracked answers tracked (s\<lparr>rt_closed := True, rt_closing := Closing tracked False\<rparr>) of
                 (threw, s') \<Rightarrow> s'\<lparr>rt_closing := Closing tracked threw\<rparr>))"

definition close_completed :: "artifact_code option \<Rightarrow> runtime \<Rightarrow> runtime" where
  \<comment> \<open>the store's one close result; a rejection or a throw is \<open>CleanupFailed\<close>\<close>
  "close_completed result s =
     (case rt_closing s of
        Closing tracked threw \<Rightarrow>
          (let failed = (threw \<or> result = Some CleanupFailed);
               s' = fold (\<lambda>tok. tell tok (StoreClosed failed)) tracked s
           in s'\<lparr>rt_closing := Settled (if failed then Some CleanupFailed else result)\<rparr>)
      | _ \<Rightarrow> s)"

section \<open>The runtime as a transition system\<close>

datatype runtime_event =
    EnterCreate raw_input | FinishCreate "nat \<Rightarrow> raw option"
  | OpStep nat op_event
  | StoreDiscarded string bool int discard_answer
  | InvalidateController raw_request "nat \<Rightarrow> dispose_answer"
  | DiscardController raw_request "nat \<Rightarrow> dispose_answer" "string \<Rightarrow> discard_reply"
  | Retrieve int raw_request
  | CloseRuntime "nat \<Rightarrow> dispose_answer" | CloseCompleted "artifact_code option"

fun from_store :: "op_event \<Rightarrow> bool" where
  \<comment> \<open>what an operation hears only through its runtime\<close>
  "from_store (Discarded closeOwned now ans) = True"
| "from_store (StoreClosed failed) = True"
| "from_store _ = False"

fun rt_able :: "runtime_event \<Rightarrow> runtime \<Rightarrow> bool" where
  "rt_able (FinishCreate gen) s = (rt_frames s \<noteq> [])"
| "rt_able (OpStep tok e) s =
     (case map_of (rt_heap s) tok of None \<Rightarrow> False
      | Some (owner, x) \<Rightarrow> op_able e x \<and> \<not> from_store e)"
| "rt_able (StoreDiscarded i closeOwned now ans) s = (closeOwned \<longrightarrow> fst ans = Refused)"
| "rt_able _ s = True"

fun rt_after :: "runtime_event \<Rightarrow> runtime \<Rightarrow> runtime" where
  "rt_after (EnterCreate input) s =
     (case enter_create input s of Inl e \<Rightarrow> s | Inr frame \<Rightarrow> s\<lparr>rt_frames := frame # rt_frames s\<rparr>)"
| "rt_after (FinishCreate gen) s =
     (case rt_frames s of
        [] \<Rightarrow> s
      | (owner, h, supplied) # frames \<Rightarrow> snd (finish_create owner h supplied gen (s\<lparr>rt_frames := frames\<rparr>)))"
| "rt_after (OpStep tok e) s = tell tok e s"
| "rt_after (StoreDiscarded i closeOwned now ans) s = notifyDiscard i closeOwned now ans s"
| "rt_after (InvalidateController input answers) s = invalidateController input answers s"
| "rt_after (DiscardController input answers replies) s = snd (discardController input answers replies s)"
| "rt_after (Retrieve now req) s = snd (authorise now req s)"
| "rt_after (CloseRuntime answers) s = close_runtime answers s"
| "rt_after (CloseCompleted result) s = close_completed result s"

definition rstep :: "runtime \<Rightarrow> runtime_event \<Rightarrow> runtime \<Rightarrow> bool" where
  "rstep s e s' \<longleftrightarrow> rt_able e s \<and> s' = rt_after e s"

definition fresh_runtime :: "runtime \<Rightarrow> bool" where
  "fresh_runtime s \<longleftrightarrow> s = new_ArtifactRuntime"

end
