(* ===== verification/Artifact_Runtime_Safety.thy ===== *)
theory Artifact_Runtime_Safety
  imports Artifact_Runtime
begin

text \<open>
  The books of the artifact runtime: reservations, the live operations and the owner ledger say exactly
  what the states of the operations say, whatever creations, operation steps, discards, fences and closes
  interleave.
\<close>

section \<open>What one operation step changes\<close>

lemma operation_frame [simp]:
  "op_id (startCleanup s) = op_id s" "op_host (startCleanup s) = op_host s"
  "op_id (discardStaged ans s) = op_id s" "op_host (discardStaged ans s) = op_host s"
  "op_id (invalidate reason now ans s) = op_id s" "op_host (invalidate reason now ans s) = op_host s"
  "op_id (stage_end s) = op_id s" "op_host (stage_end s) = op_host s"
  "op_id (stage_settled s) = op_id s" "op_host (stage_settled s) = op_host s"
proof -
  show cl: "op_id (startCleanup s) = op_id s" "op_host (startCleanup s) = op_host s" for s by (simp_all add: startCleanup_def)
  show disc: "op_id (discardStaged ans s) = op_id s" "op_host (discardStaged ans s) = op_host s" for s
    by (simp_all add: discardStaged_def Let_def split: prod.split discard_result.split option.split)
  show "op_id (invalidate reason now ans s) = op_id s" "op_host (invalidate reason now ans s) = op_host s"
    by (simp_all add: invalidate_def Let_def cl disc)
qed (simp_all add: stage_end_def stage_settled_def)

lemma released_frame:
  "op_released s \<Longrightarrow> op_released (tryRelease s)" "op_released s \<Longrightarrow> op_released (resolved_discard c s)"
  "op_released s \<Longrightarrow> op_released (noteDecided c s)" "op_released s \<Longrightarrow> op_released (discardStaged ans s)"
  "op_released s \<Longrightarrow> op_released (invalidate reason now ans s)" "op_released s \<Longrightarrow> op_released (stage_end s)"
proof -
  have rel: "op_released s \<Longrightarrow> op_released (tryRelease s)" for s by (simp add: tryRelease_def)
  then show "op_released s \<Longrightarrow> op_released (tryRelease s)" .
  show res: "op_released s \<Longrightarrow> op_released (resolved_discard c s)" for c s
    by (simp add: resolved_discard_def Let_def rel split: option.split)
  show note_: "op_released s \<Longrightarrow> op_released (noteDecided c s)" for c s by (simp add: noteDecided_def res)
  show disc: "op_released s \<Longrightarrow> op_released (discardStaged ans s)" for s
    by (simp add: discardStaged_def Let_def note_ split: prod.split discard_result.split option.split)
  have "op_released s \<Longrightarrow> op_released (startCleanup s)" for s by (simp add: startCleanup_def)
  then show "op_released s \<Longrightarrow> op_released (invalidate reason now ans s)"
    by (simp add: invalidate_def Let_def rel disc)
qed (simp add: stage_end_def)

lemma poisons_frame [simp]:
  "op_poisons (tryRelease s) = op_poisons s" "op_poisons (resolved_discard c s) = op_poisons s"
  "op_poisons (noteDecided c s) = op_poisons s" "op_poisons (discardStaged ans s) = op_poisons s"
  "op_poisons (invalidate reason now ans s) = op_poisons s" "op_poisons (stage_end s) = op_poisons s"
proof -
  show rel: "op_poisons (tryRelease s) = op_poisons s" for s by (simp add: tryRelease_def)
  show res: "op_poisons (resolved_discard c s) = op_poisons s" for c s
    by (simp add: resolved_discard_def Let_def rel split: option.split)
  show note_: "op_poisons (noteDecided c s) = op_poisons s" for c s by (simp add: noteDecided_def res)
  show disc: "op_poisons (discardStaged ans s) = op_poisons s" for s
    by (simp add: discardStaged_def Let_def note_ split: prod.split discard_result.split option.split)
  have "op_poisons (startCleanup s) = op_poisons s" for s by (simp add: startCleanup_def)
  then show "op_poisons (invalidate reason now ans s) = op_poisons s" by (simp add: invalidate_def Let_def rel disc)
qed (simp add: stage_end_def)

lemmas operation_steps =
  noteMainResponseContentType_def registerDownload_def stage_begin_def stage_failure_def stage_path_def
  stage_capture_def stage_settled_def deadline_fired_def seal_begin_def seal_settled_def commit_def
  noteArtifactDiscarded_def disposal_settled_def finishCleanup_def settleStoreClose_def signal_def Let_def

lemma ident_after: "op_id (op_after e x) = op_id x \<and> op_host (op_after e x) = op_host x"
  by (cases e)
    (auto simp: operation_steps
      split: op_state.splits option.splits observation.splits path_answer.splits capture_result.splits op_result.splits)

lemma ident_step: "ostep x e y \<Longrightarrow> op_id y = op_id x \<and> op_host y = op_host x"
  using ident_after by (auto simp: ostep_def)

lemma monotone_step:
  assumes "ostep x e y"
  shows "op_released x \<longrightarrow> op_released y" "op_poisons x \<le> op_poisons y"
  using assms unfolding ostep_def
  by (cases e;
      auto simp: operation_steps released_frame
      split: op_state.splits option.splits observation.splits path_answer.splits capture_result.splits op_result.splits)+

definition described :: "operation \<Rightarrow> bool" where
  \<comment> \<open>the published artifact carries the operation's own identity and host\<close>
  "described x \<longleftrightarrow> (\<forall>md. op_state x = OpCommitted (AvailableResult md) \<longrightarrow>
     md_artifactId md = op_id x \<and> md_sourceHost md = op_host x)"

lemma projectMetadata_ident: "projectMetadata i rec h = Some md \<Longrightarrow> md_artifactId md = i \<and> md_sourceHost md = h"
  by (auto simp: projectMetadata_def split: option.splits)

lemma described_step:
  assumes "described x" "op_inv x" "ostep x e y"
  shows "described y"
proof (cases "isTerminal x")
  case True
  then show ?thesis using decided_kept [OF True assms(3)] ident_step [OF assms(3)] assms(1) by (simp add: described_def)
next
  case False
  have inv: "op_state (invalidate reason now ans u) \<noteq> OpCommitted r" if "op_state u = op_state x" for reason now ans u r
    using False invalidate_state [of reason now ans u] isTerminal_eq [OF that] that by (simp add: isTerminal_def split: op_state.splits)
  have "op_state y = OpCommitted (AvailableResult md) \<Longrightarrow> md_artifactId md = op_id x \<and> md_sourceHost md = op_host x" for md
    using assms(3) False inv unfolding ostep_def
    by (cases e)
      (auto simp: operation_steps isTerminal_def projectMetadata_ident
        split: op_state.splits option.splits observation.splits path_answer.splits capture_result.splits op_result.splits if_splits)
  then show ?thesis using ident_step [OF assms(3)] by (simp add: described_def)
qed

lemma publish_step:
  assumes "op_inv x" "op_inv y" "ostep x e y"
  obtains "op_published y = op_published x" "\<And>md. op_state y = OpCommitted (AvailableResult md) \<longleftrightarrow> op_state x = OpCommitted (AvailableResult md)"
  | md where "op_published y = [md]" "op_published x = []" "op_state y = OpCommitted (AvailableResult md)" "\<not> isTerminal x"
proof -
  have p: "published_ok (op_state x) (op_published x)" "published_ok (op_state y) (op_published y)"
    using assms(1,2) core_parts(4) by (simp_all add: op_inv_core)
  show thesis
  proof (cases "isTerminal x")
    case True
    then show thesis using that(1) decided_kept [OF True assms(3)] p by (simp add: published_ok_def)
  next
    case False
    then have "op_published x = []" "\<And>md. op_state x \<noteq> OpCommitted (AvailableResult md)"
      using p(1) by (auto simp: published_ok_def isTerminal_def split: op_state.splits)
    then show thesis using that p(2) False by (auto simp: published_ok_def split: op_state.splits op_result.splits)
  qed
qed

section \<open>The books\<close>

type_synonym op_heap = "nat \<Rightarrow> (artifact_owner \<times> operation) option"

definition heap_ok :: "op_heap \<Rightarrow> nat \<Rightarrow> bool \<Rightarrow> (string \<times> string \<Rightarrow> lineage option) \<Rightarrow> bool" where
  "heap_ok H limit poisoned C \<longleftrightarrow>
     (\<forall>tok ow x. H tok = Some (ow, x) \<longrightarrow>
        tok < limit \<and> op_inv x \<and> committed_ok x \<and> described x \<and> (op_poisons x > 0 \<longrightarrow> poisoned) \<and>
        (\<forall>c k. ow = DriveOwner c k \<longrightarrow> C (c, k) \<noteq> None))"

definition index_ok :: "op_heap \<Rightarrow> (string \<Rightarrow> nat option) \<Rightarrow> bool" where
  \<comment> \<open>an identity is reserved exactly by the operation that has not released it\<close>
  "index_ok H R \<longleftrightarrow> (\<forall>i tok. R i = Some tok \<longleftrightarrow> (\<exists>ow x. H tok = Some (ow, x) \<and> op_id x = i \<and> \<not> op_released x))"

definition tracked_ok :: "op_heap \<Rightarrow> nat list \<Rightarrow> bool" where
  "tracked_ok H ops \<longleftrightarrow>
     (\<forall>tok. tok \<in> set ops \<longleftrightarrow> (\<exists>ow x. H tok = Some (ow, x) \<and> \<not> op_released x \<and> op_poisons x = 0))"

definition owners_ok :: "op_heap \<Rightarrow> (string \<Rightarrow> artifact_entry option) \<Rightarrow> bool" where
  \<comment> \<open>the ledger lists exactly the committed artifacts whose identity is not released\<close>
  "owners_ok H E \<longleftrightarrow>
     (\<forall>i e. E i = Some e \<longleftrightarrow>
        (\<exists>x. H (ae_token e) = Some (ae_owner e, x) \<and> op_id x = i \<and> op_state x = OpCommitted (AvailableResult (ae_metadata e)) \<and>
             \<not> op_released x))"

definition books_ok :: "runtime \<Rightarrow> bool" where
  "books_ok s \<longleftrightarrow>
     heap_ok (map_of (rt_heap s)) (rt_next s) (rt_poisoned s) (map_of (rt_controllerState s)) \<and>
     index_ok (map_of (rt_heap s)) (map_of (rt_reserved s)) \<and>
     tracked_ok (map_of (rt_heap s)) (rt_operations s) \<and>
     owners_ok (map_of (rt_heap s)) (map_of (rt_artifactOwners s))"

lemmas hook_defs = publishOwner_def release_identity_def cleanup_unconfirmed_def

lemma tell_frame [simp]:
  "rt_closed (tell tok e s) = rt_closed s" "rt_controllerState (tell tok e s) = rt_controllerState s"
  "rt_retrievals (tell tok e s) = rt_retrievals s" "rt_closing (tell tok e s) = rt_closing s"
  "rt_next (tell tok e s) = rt_next s" "rt_frames (tell tok e s) = rt_frames s"
  by (simp_all add: tell_def hook_defs Let_def split: option.split)

lemma tell_absent: "map_of (rt_heap s) tok = None \<Longrightarrow> tell tok e s = s"
  by (simp add: tell_def)

lemma tell_heap:
  "map_of (rt_heap s) tok = Some (ow, x) \<Longrightarrow> map_of (rt_heap (tell tok e s)) = (map_of (rt_heap s))(tok \<mapsto> (ow, op_after e x))"
  by (simp add: tell_def hook_defs Let_def)

lemma tell_fields:
  assumes "map_of (rt_heap s) tok = Some (ow, x)"
  shows "rt_poisoned (tell tok e s) \<longleftrightarrow> rt_poisoned s \<or> op_poisons x < op_poisons (op_after e x)"
    and "set (rt_operations (tell tok e s)) = set (rt_operations s) -
      (if op_poisons x < op_poisons (op_after e x) \<or> op_releases x < op_releases (op_after e x) then {tok} else {})"
    and "map_of (rt_reserved (tell tok e s)) =
      (if op_releases x < op_releases (op_after e x) \<and> map_of (rt_reserved s) (op_id x) = Some tok
       then (map_of (rt_reserved s))(op_id x := None) else map_of (rt_reserved s))"
  using assms by (auto simp: tell_def hook_defs Let_def)

lemma released_flips:
  assumes "op_inv x" "op_inv y"
  shows "op_releases x < op_releases y \<longleftrightarrow> \<not> op_released x \<and> op_released y"
    and "op_poisons x < op_poisons y \<longleftrightarrow> op_poisons x = 0 \<and> op_poisons y > 0"
    and "op_poisons y > 0 \<Longrightarrow> \<not> op_released y"
  using core_parts(3,5) [OF op_inv_core [OF assms(1)]] core_parts(3,5) [OF op_inv_core [OF assms(2)]]
  by (auto simp: hooks_ok_def release_ok_def blocked_def split: if_splits)

lemma index_unique:
  assumes "index_ok H R" "H t = Some (w, z)" "H u = Some (v, x)" "op_id z = op_id x" "\<not> op_released z" "\<not> op_released x"
  shows "t = u"
  using assms unfolding index_ok_def by (metis option.inject)

lemma index_tell:
  assumes "index_ok H R" "H tok = Some (ow, x)" "op_id y = op_id x" "op_released x \<longrightarrow> op_released y"
  shows "index_ok (H(tok \<mapsto> (ow, y)))
    (if (\<not> op_released x \<and> op_released y) \<and> R (op_id x) = Some tok then R(op_id x := None) else R)"
proof -
  have R: "R i = Some t \<longleftrightarrow> (\<exists>w z. H t = Some (w, z) \<and> op_id z = i \<and> \<not> op_released z)" for i t
    using assms(1) by (simp add: index_ok_def)
  have "R (op_id x) = Some tok \<longleftrightarrow> \<not> op_released x" using R assms(2) by simp
  then show ?thesis
    using assms(2-4) unfolding index_ok_def
    by (cases "op_released x") (auto simp: R dest: index_unique [OF assms(1) _ assms(2)])
qed

lemma owners_tell:
  assumes "owners_ok H E" "index_ok H R" "H tok = Some (ow, x)" "op_id y = op_id x" "op_released x \<longrightarrow> op_released y"
    and pub: "(\<forall>md. op_state y = OpCommitted (AvailableResult md) \<longleftrightarrow> op_state x = OpCommitted (AvailableResult md)) \<and> E1 = E \<or>
      (\<exists>md. op_state y = OpCommitted (AvailableResult md) \<and> \<not> op_released x \<and>
         E1 = E(op_id x \<mapsto> \<lparr>ae_token = tok, ae_owner = ow, ae_metadata = md\<rparr>))"
  shows "owners_ok (H(tok \<mapsto> (ow, y)))
    (if (\<not> op_released x \<and> op_released y) \<and> map_option ae_token (E1 (op_id x)) = Some tok then E1(op_id x := None) else E1)"
proof -
  have E: "E i = Some e \<longleftrightarrow> (\<exists>z. H (ae_token e) = Some (ae_owner e, z) \<and> op_id z = i \<and>
      op_state z = OpCommitted (AvailableResult (ae_metadata e)) \<and> \<not> op_released z)" for i e
    using assms(1) by (simp add: owners_ok_def)
  have one: "t = tok" if "H t = Some (w, z)" "op_id z = op_id x" "\<not> op_released z" "\<not> op_released x" for t w z
    using index_unique [OF assms(2) that(1) assms(3) that(2-4)] .
  have E1: "E1 i = Some e \<longleftrightarrow> (\<exists>z. (H(tok \<mapsto> (ow, y\<lparr>op_released := op_released x\<rparr>))) (ae_token e) = Some (ae_owner e, z) \<and> op_id z = i \<and>
      op_state z = OpCommitted (AvailableResult (ae_metadata e)) \<and> \<not> op_released z)" for i e
    using pub
  proof
    assume "(\<forall>md. op_state y = OpCommitted (AvailableResult md) \<longleftrightarrow> op_state x = OpCommitted (AvailableResult md)) \<and> E1 = E"
    then show ?thesis using assms(3,4) by (auto simp: E)
  next
    assume "\<exists>md. op_state y = OpCommitted (AvailableResult md) \<and> \<not> op_released x \<and>
         E1 = E(op_id x \<mapsto> \<lparr>ae_token = tok, ae_owner = ow, ae_metadata = md\<rparr>)"
    then obtain md where md: "op_state y = OpCommitted (AvailableResult md)" "\<not> op_released x"
      "E1 = E(op_id x \<mapsto> \<lparr>ae_token = tok, ae_owner = ow, ae_metadata = md\<rparr>)" by blast
    show ?thesis
    proof (cases "ae_token e = tok")
      case True
      then show ?thesis using md assms(3,4) by (cases e) (auto simp: E)
    next
      case False
      then show ?thesis using md one by (auto simp: E)
    qed
  qed
  show ?thesis
    using assms(4,5) one unfolding owners_ok_def
    by (cases "op_released x"; cases "op_released y") (auto simp: E1)
qed

lemma tell_owners:
  assumes "map_of (rt_heap s) tok = Some (ow, x)" "op_published (op_after e x) \<noteq> op_published x \<Longrightarrow> op_published (op_after e x) = [md]"
  shows "map_of (rt_artifactOwners (tell tok e s)) =
    (let E1 = (if op_published (op_after e x) = op_published x then map_of (rt_artifactOwners s)
               else (map_of (rt_artifactOwners s))(op_id x \<mapsto> \<lparr>ae_token = tok, ae_owner = ow, ae_metadata = md\<rparr>))
     in if op_releases x < op_releases (op_after e x) \<and> map_option ae_token (E1 (op_id x)) = Some tok
        then E1(op_id x := None) else E1)"
  using assms by (auto simp: tell_def hook_defs Let_def)

lemma tell_books:
  assumes books: "books_ok s" and x: "map_of (rt_heap s) tok = Some (ow, x)" and able: "op_able e x"
  shows "books_ok (tell tok e s)"
proof -
  define y where "y = op_after e x"
  define H where "H = map_of (rt_heap s)"
  have step: "ostep x e y" using able by (simp add: ostep_def y_def)
  have hx: "tok < rt_next s" "op_inv x" "committed_ok x" "described x" "op_poisons x > 0 \<longrightarrow> rt_poisoned s"
    "\<forall>c k. ow = DriveOwner c k \<longrightarrow> map_of (rt_controllerState s) (c, k) \<noteq> None"
    using books x by (auto simp: books_ok_def heap_ok_def)
  have hy: "op_inv y" "committed_ok y" "described y"
    using op_inv_step [OF hx(2) step] committed_step [OF hx(2,3) step] described_step [OF hx(4,2) step] by auto
  note idy = ident_step [OF step] and mono = monotone_step [OF step] and flips = released_flips [OF hx(2) hy(1)]
  have parts: "heap_ok H (rt_next s) (rt_poisoned s) (map_of (rt_controllerState s))" "index_ok H (map_of (rt_reserved s))"
    "tracked_ok H (rt_operations s)" "owners_ok H (map_of (rt_artifactOwners s))"
    using books by (simp_all add: books_ok_def H_def)
  have H': "map_of (rt_heap (tell tok e s)) = H(tok \<mapsto> (ow, y))" using tell_heap [OF x] by (simp add: H_def y_def)
  have "heap_ok (H(tok \<mapsto> (ow, y))) (rt_next s) (rt_poisoned (tell tok e s)) (map_of (rt_controllerState s))"
    using books hx hy tell_fields(1) [OF x] by (auto simp: books_ok_def heap_ok_def H_def y_def)
  moreover have "index_ok (H(tok \<mapsto> (ow, y))) (map_of (rt_reserved (tell tok e s)))"
    using index_tell [of H "map_of (rt_reserved s)" tok ow x y] books x idy mono(1) tell_fields(3) [OF x, of e] flips
    by (simp add: books_ok_def H_def y_def)
  moreover have "tracked_ok (H(tok \<mapsto> (ow, y))) (rt_operations (tell tok e s))"
    using books x mono flips tell_fields(2) [OF x, of e] by (auto simp: books_ok_def tracked_ok_def H_def y_def)
  moreover have "owners_ok (H(tok \<mapsto> (ow, y))) (map_of (rt_artifactOwners (tell tok e s)))"
  proof (rule publish_step [OF hx(2) hy(1) step])
    let ?E = "map_of (rt_artifactOwners s)"
    assume p: "op_published y = op_published x" "\<And>md. op_state y = OpCommitted (AvailableResult md) \<longleftrightarrow> op_state x = OpCommitted (AvailableResult md)"
    have eq: "map_of (rt_artifactOwners (tell tok e s)) =
      (if (\<not> op_released x \<and> op_released y) \<and> map_option ae_token (?E (op_id x)) = Some tok then ?E(op_id x := None) else ?E)"
      using tell_owners [OF x, of e] p(1) flips(1) unfolding y_def Let_def by presburger
    show ?thesis unfolding eq
      by (rule owners_tell [OF parts(4) parts(2) _ _ mono(1)]) (use idy p x in \<open>simp_all add: H_def\<close>)
  next
    fix md assume p: "op_published y = [md]" "op_published x = []" "op_state y = OpCommitted (AvailableResult md)" "\<not> isTerminal x"
    let ?E = "(map_of (rt_artifactOwners s))(op_id x \<mapsto> \<lparr>ae_token = tok, ae_owner = ow, ae_metadata = md\<rparr>)"
    have eq: "map_of (rt_artifactOwners (tell tok e s)) =
      (if (\<not> op_released x \<and> op_released y) \<and> map_option ae_token (?E (op_id x)) = Some tok then ?E(op_id x := None) else ?E)"
      using tell_owners [OF x, of e md] p(1,2) flips(1) unfolding y_def Let_def by simp
    have "\<not> op_released x" using undecided(5) [OF op_inv_core [OF hx(2)] p(4)] .
    then show ?thesis unfolding eq
      by (intro owners_tell [OF parts(4) parts(2) _ _ mono(1)]) (use idy p(3) x in \<open>auto simp: H_def\<close>)
  qed
  ultimately show ?thesis by (simp add: books_ok_def H')
qed

lemma books_ok_upd [simp]:
  "books_ok (s\<lparr>rt_closed := b\<rparr>) = books_ok s" "books_ok (s\<lparr>rt_retrievals := r\<rparr>) = books_ok s"
  "books_ok (s\<lparr>rt_closing := p\<rparr>) = books_ok s" "books_ok (s\<lparr>rt_frames := f\<rparr>) = books_ok s"
  by (simp_all add: books_ok_def)

lemma books_poison: "books_ok s \<Longrightarrow> books_ok (s\<lparr>rt_poisoned := True\<rparr>)"
  by (auto simp: books_ok_def heap_ok_def)

lemma books_lineage: "books_ok s \<Longrightarrow> books_ok (s\<lparr>rt_controllerState := alist_put p v (rt_controllerState s)\<rparr>)"
  by (auto simp: books_ok_def heap_ok_def)

lemma op_id_new [simp]: "op_id (new_operation i h) = i" "op_released (new_operation i h) = False"
  "op_poisons (new_operation i h) = 0" "op_state (new_operation i h) = OpOpen"
  by (simp_all add: new_operation_def)

lemma draw_id_free: "draw_id reserved_ids gen k n = Inr i \<Longrightarrow> map_of reserved_ids i = None \<and> ARTIFACT_ID i"
  by (induction reserved_ids gen k n rule: draw_id.induct) (auto split: option.splits raw.splits if_splits)

lemma choose_id_free: "choose_id supplied gen s = Inr i \<Longrightarrow> map_of (rt_reserved s) i = None \<and> ARTIFACT_ID i"
  by (auto simp: choose_id_def dest: draw_id_free split: option.splits if_splits)

lemma finish_create_cases:
  obtains e where "finish_create owner h supplied gen s = (Inl e, s)"
  | i C where "finish_create owner h supplied gen s = (Inr (rt_next s),
        s\<lparr>rt_reserved := alist_put i (rt_next s) (rt_reserved s), rt_controllerState := C,
          rt_heap := alist_put (rt_next s) (owner, new_operation i h) (rt_heap s), rt_next := rt_next s + 1,
          rt_operations := rt_operations s @ [rt_next s]\<rparr>)"
      "map_of (rt_reserved s) i = None" "ARTIFACT_ID i" "\<not> rt_closed s" "\<not> rt_poisoned s" "\<not> invalidLineage owner s"
      "\<And>p v. map_of (rt_controllerState s) p = Some v \<Longrightarrow> map_of C p = Some v"
      "\<And>c k. owner = DriveOwner c k \<Longrightarrow> map_of C (c, k) = Some Active"
proof (cases "choose_id supplied gen s")
  case (Inr i)
  define C where "C = (case owner of
      DriveOwner c k \<Rightarrow> (if map_of (rt_controllerState s) (c, k) = None then alist_put (c, k) Active (rt_controllerState s)
        else rt_controllerState s)
    | ConsumerOwner c \<Rightarrow> rt_controllerState s)"
  have C: "map_of C (c, k) = Some Active" if "owner = DriveOwner c k" "\<not> invalidLineage owner s" for c k
    using that by (cases "map_of (rt_controllerState s) (c, k)"; cases "the (map_of (rt_controllerState s) (c, k))")
      (auto simp: C_def invalidLineage_def)
  have keep: "map_of C p = Some v" if "map_of (rt_controllerState s) p = Some v" for p v
    using that by (cases owner) (auto simp: C_def)
  show thesis
  proof (cases "rt_closed s \<or> rt_poisoned s \<or> invalidLineage owner s")
    case True
    then have "\<exists>e. finish_create owner h supplied gen s = (Inl e, s)" using Inr by (auto simp: finish_create_def)
    then show thesis using that(1) by blast
  next
    case False
    have "finish_create owner h supplied gen s = (Inr (rt_next s),
        s\<lparr>rt_reserved := alist_put i (rt_next s) (rt_reserved s), rt_controllerState := C,
          rt_heap := alist_put (rt_next s) (owner, new_operation i h) (rt_heap s), rt_next := rt_next s + 1,
          rt_operations := rt_operations s @ [rt_next s]\<rparr>)"
      using False Inr by (simp add: finish_create_def C_def Let_def)
    then show thesis by (rule that(2)) (use choose_id_free [OF Inr] False C keep in auto)
  qed
qed (use that(1) in \<open>simp add: finish_create_def\<close>)

lemma heap_new:
  assumes "heap_ok H n poisoned C" "\<And>p v. C p = Some v \<Longrightarrow> D p = Some v" "\<And>c k. owner = DriveOwner c k \<Longrightarrow> D (c, k) = Some Active"
  shows "heap_ok (H(n \<mapsto> (owner, new_operation i h))) (n + 1) poisoned D"
  unfolding heap_ok_def
proof (intro allI impI)
  fix tok ow x assume x: "(H(n \<mapsto> (owner, new_operation i h))) tok = Some (ow, x)"
  show "tok < n + 1 \<and> op_inv x \<and> committed_ok x \<and> described x \<and> (op_poisons x > 0 \<longrightarrow> poisoned) \<and>
      (\<forall>c k. ow = DriveOwner c k \<longrightarrow> D (c, k) \<noteq> None)"
  proof (cases "tok = n")
    case True
    have "op_inv (new_operation i h)" "committed_ok (new_operation i h)" "described (new_operation i h)"
      using op_inv_init [OF fresh_new_operation] by (simp_all add: committed_ok_def described_def)
    then show ?thesis using True x assms(3) by auto
  next
    case False
    then have "H tok = Some (ow, x)" using x by simp
    then have *: "tok < n" "op_inv x" "committed_ok x" "described x" "op_poisons x > 0 \<longrightarrow> poisoned"
      "\<forall>c k. ow = DriveOwner c k \<longrightarrow> C (c, k) \<noteq> None"
      using assms(1) by (auto simp: heap_ok_def)
    then have "D (c, k) \<noteq> None" if "ow = DriveOwner c k" for c k using assms(2) that by fastforce
    then show ?thesis using * by simp
  qed
qed

lemma index_new:
  assumes "index_ok H R" "H n = None" "R i = None"
  shows "index_ok (H(n \<mapsto> (owner, new_operation i h))) (R(i \<mapsto> n))"
  unfolding index_ok_def
proof (intro allI)
  fix j tok
  have "R j = Some tok \<longleftrightarrow> (\<exists>ow x. H tok = Some (ow, x) \<and> op_id x = j \<and> \<not> op_released x)"
    using assms(1) by (simp add: index_ok_def)
  then show "(R(i \<mapsto> n)) j = Some tok \<longleftrightarrow>
      (\<exists>ow x. (H(n \<mapsto> (owner, new_operation i h))) tok = Some (ow, x) \<and> op_id x = j \<and> \<not> op_released x)"
    using assms(2,3) by (cases "tok = n"; cases "j = i") auto
qed

lemma owners_new:
  assumes "owners_ok H E" "H n = None"
  shows "owners_ok (H(n \<mapsto> (owner, new_operation i h))) E"
  unfolding owners_ok_def
proof (intro allI)
  fix j e
  have "E j = Some e \<longleftrightarrow> (\<exists>x. H (ae_token e) = Some (ae_owner e, x) \<and> op_id x = j \<and>
      op_state x = OpCommitted (AvailableResult (ae_metadata e)) \<and> \<not> op_released x)"
    using assms(1) by (simp add: owners_ok_def)
  then show "E j = Some e \<longleftrightarrow> (\<exists>x. (H(n \<mapsto> (owner, new_operation i h))) (ae_token e) = Some (ae_owner e, x) \<and> op_id x = j \<and>
      op_state x = OpCommitted (AvailableResult (ae_metadata e)) \<and> \<not> op_released x)"
    using assms(2) by (cases "ae_token e = n") auto
qed

lemma finish_create_books:
  assumes books: "books_ok s" shows "books_ok (snd (finish_create owner h supplied gen s))"
proof (rule finish_create_cases [of owner h supplied gen s])
  fix i C
  assume eq: "finish_create owner h supplied gen s = (Inr (rt_next s),
        s\<lparr>rt_reserved := alist_put i (rt_next s) (rt_reserved s), rt_controllerState := C,
          rt_heap := alist_put (rt_next s) (owner, new_operation i h) (rt_heap s), rt_next := rt_next s + 1,
          rt_operations := rt_operations s @ [rt_next s]\<rparr>)"
    and i: "map_of (rt_reserved s) i = None"
    and C: "\<And>p v. map_of (rt_controllerState s) p = Some v \<Longrightarrow> map_of C p = Some v"
      "\<And>c k. owner = DriveOwner c k \<Longrightarrow> map_of C (c, k) = Some Active"
  define H where "H = map_of (rt_heap s)"
  have parts: "heap_ok H (rt_next s) (rt_poisoned s) (map_of (rt_controllerState s))" "index_ok H (map_of (rt_reserved s))"
    "tracked_ok H (rt_operations s)" "owners_ok H (map_of (rt_artifactOwners s))"
    using books by (simp_all add: books_ok_def H_def)
  have absent: "H (rt_next s) = None" using parts(1) by (cases "H (rt_next s)") (auto simp: heap_ok_def)
  have "tracked_ok (H(rt_next s \<mapsto> (owner, new_operation i h))) (rt_operations s @ [rt_next s])"
    using parts(3) absent by (auto simp: tracked_ok_def)
  moreover have "heap_ok (H(rt_next s \<mapsto> (owner, new_operation i h))) (rt_next s + 1) (rt_poisoned s) (map_of C)"
    using parts(1) C by (rule heap_new)
  ultimately show ?thesis
    using eq index_new [OF parts(2) absent i] owners_new [OF parts(4) absent]
    by (simp add: books_ok_def H_def)
qed (use books in simp)

section \<open>Every step keeps them\<close>

lemma tell_keeps:
  assumes "books_ok s" "\<And>ow x. map_of (rt_heap s) tok = Some (ow, x) \<Longrightarrow> op_able e x"
  shows "books_ok (tell tok e s)"
proof (cases "map_of (rt_heap s) tok")
  case (Some p)
  obtain ow x where "p = (ow, x)" by (cases p)
  then show ?thesis using tell_books [OF assms(1)] assms(2) Some by simp
qed (simp add: tell_absent assms(1))

lemma notifyDiscard_books:
  assumes "books_ok s" "closeOwned \<longrightarrow> fst ans = Refused" shows "books_ok (notifyDiscard i closeOwned now ans s)"
proof -
  have "books_ok (tell tok (Discarded closeOwned now ans) s)" for tok by (rule tell_keeps [OF assms(1)]) (use assms(2) in simp)
  then show ?thesis using assms(1) by (simp add: notifyDiscard_def split: option.split)
qed

lemma dispose_books: "books_ok s \<Longrightarrow> books_ok (disposeForRuntime answers tok s)"
  by (simp add: disposeForRuntime_def tell_keeps)

lemma fold_keeps:
  assumes "P s" "\<And>x s. x \<in> set xs \<Longrightarrow> P s \<Longrightarrow> P (f x s)"
  shows "P (fold f xs s)"
  using assms by (induction xs arbitrary: s) auto

lemma fence_books: "books_ok s \<Longrightarrow> books_ok (fence_lineage c k answers s)"
  unfolding fence_lineage_def Let_def by (rule fold_keeps) (rule books_lineage, assumption, rule dispose_books)

lemma invalidateController_books: "books_ok s \<Longrightarrow> books_ok (invalidateController input answers s)"
  by (auto simp: invalidateController_def fence_books split: option.split)

lemma discard_one_books: "books_ok (snd p) \<Longrightarrow> books_ok (snd (discard_one replies i p))"
  by (cases "(replies, i, p)" rule: discard_one.cases)
    (auto simp: notifyDiscard_books split: discard_reply.split option.split)

lemma discardController_books: "books_ok s \<Longrightarrow> books_ok (snd (discardController input answers replies s))"
proof -
  assume "books_ok s"
  then have s1: "books_ok (invalidateController input answers s)" by (rule invalidateController_books)
  have folded: "books_ok (snd (fold (discard_one replies) is ((False, False), invalidateController input answers s)))" for "is"
    by (rule fold_keeps [where P = "\<lambda>p. books_ok (snd p)"]) (simp add: s1, rule discard_one_books)
  show ?thesis
  proof (cases "named_lineage input")
    case (Some p)
    obtain c k where p: "p = (c, k)" by (cases p)
    let ?doomed = "map fst (filter (\<lambda>q. ae_owner (snd q) = DriveOwner c k) (rt_artifactOwners (invalidateController input answers s)))"
    obtain r f t where t: "fold (discard_one replies) ?doomed ((False, False), invalidateController input answers s) = ((r, f), t)"
      by (metis prod.collapse)
    then have "books_ok t" using folded [of ?doomed] by simp
    then show ?thesis using Some p t by (simp add: discardController_def books_poison)
  qed (simp add: discardController_def s1)
qed

lemma authorise_frame [simp]:
  "rt_closed (snd (authorise now req s)) = rt_closed s" "rt_poisoned (snd (authorise now req s)) = rt_poisoned s"
  "rt_reserved (snd (authorise now req s)) = rt_reserved s" "rt_operations (snd (authorise now req s)) = rt_operations s"
  "rt_artifactOwners (snd (authorise now req s)) = rt_artifactOwners s"
  "rt_controllerState (snd (authorise now req s)) = rt_controllerState s" "rt_heap (snd (authorise now req s)) = rt_heap s"
  "rt_next (snd (authorise now req s)) = rt_next s" "rt_closing (snd (authorise now req s)) = rt_closing s"
  by (simp_all add: authorise_def Let_def split: raw_request.split raw.split prod.split bool.split)

lemma authorise_books: "books_ok s \<Longrightarrow> books_ok (snd (authorise now req s))"
  by (simp add: books_ok_def)

lemma dispose_tracked_books: "books_ok s \<Longrightarrow> books_ok (snd (dispose_tracked answers toks s))"
proof (induction toks arbitrary: s)
  case (Cons tok toks)
  then show ?case using dispose_books [OF Cons.prems] by (auto simp: split_beta)
qed simp

lemma close_books: "books_ok s \<Longrightarrow> books_ok (close_runtime answers s)"
  using dispose_tracked_books [of "s\<lparr>rt_closed := True, rt_closing := Closing (rt_operations s) False\<rparr>" answers "rt_operations s"]
  by (auto simp: close_runtime_def Let_def split: prod.split)

lemma close_completed_books:
  assumes "books_ok s" shows "books_ok (close_completed result s)"
proof -
  have "books_ok (fold (\<lambda>tok. tell tok (StoreClosed failed)) toks s)" for toks failed
    by (rule fold_keeps [where P = books_ok, OF assms]) (simp add: tell_keeps)
  then show ?thesis using assms by (simp add: close_completed_def Let_def split: close_phase.split)
qed

lemma runtime_books_step: "books_ok s \<Longrightarrow> rstep s e s' \<Longrightarrow> books_ok s'"
  by (cases e)
    (auto simp: rstep_def invalidateController_books discardController_books authorise_books close_books close_completed_books
      notifyDiscard_books finish_create_books intro: tell_books split: option.splits sum.splits list.splits)

lemma books_init: "fresh_runtime s \<Longrightarrow> books_ok s"
  by (simp add: fresh_runtime_def new_ArtifactRuntime_def books_ok_def heap_ok_def index_ok_def tracked_ok_def owners_ok_def)

interpretation runtime: inductive_invariant fresh_runtime rstep books_ok
  by unfold_locales (rule books_init, assumption, rule runtime_books_step)

end
