(* ===== verification/Artifact_Runtime_Claims.thy ===== *)
theory Artifact_Runtime_Claims
  imports Artifact_Runtime_Safety
begin

text \<open>
  What the runtime promises: a retrieval is authorised only for a committed artifact of its own consumer
  and, on a drive artifact, of an active lineage; an identity belongs to one operation until it is
  released; a fence and a close are final; the retrieval budget is exactly a sliding window.
\<close>

section \<open>Steps that create nothing\<close>

definition same_fate :: "operation \<Rightarrow> operation \<Rightarrow> bool" where
  "same_fate x y \<longleftrightarrow> op_id y = op_id x \<and> op_host y = op_host x \<and> (isTerminal x \<longrightarrow> op_state y = op_state x)"

lemma same_fate_refl [simp]: "same_fate x x"
  by (simp add: same_fate_def)

lemma same_fate_trans: "same_fate x y \<Longrightarrow> same_fate y z \<Longrightarrow> same_fate x z"
  using isTerminal_eq [of y x] by (auto simp: same_fate_def)

definition calm :: "runtime \<Rightarrow> runtime \<Rightarrow> bool" where
  \<comment> \<open>no operation appears or is undecided again, no fence is lifted\<close>
  "calm s t \<longleftrightarrow>
     (\<forall>tok. case map_of (rt_heap s) tok of
              None \<Rightarrow> map_of (rt_heap t) tok = None
            | Some (ow, x) \<Rightarrow> \<exists>y. map_of (rt_heap t) tok = Some (ow, y) \<and> same_fate x y) \<and>
     (\<forall>p. map_of (rt_controllerState s) p = Some Invalidated \<longrightarrow> map_of (rt_controllerState t) p = Some Invalidated)"

lemma calm_same_fate:
  "calm s t \<Longrightarrow> map_of (rt_heap s) tok = Some (ow, x) \<Longrightarrow> \<exists>y. map_of (rt_heap t) tok = Some (ow, y) \<and> same_fate x y"
  unfolding calm_def by (auto dest!: spec [of _ tok])

lemma calm_fate: "calm s t \<Longrightarrow> map_of (rt_heap s) tok = Some (ow, x) \<Longrightarrow>
    \<exists>y. map_of (rt_heap t) tok = Some (ow, y) \<and> (isTerminal x \<longrightarrow> op_state y = op_state x)"
  using calm_same_fate [of s t tok ow x] by (auto simp: same_fate_def)

lemma calm_absent: "calm s t \<Longrightarrow> map_of (rt_heap s) tok = None \<Longrightarrow> map_of (rt_heap t) tok = None"
  unfolding calm_def by (auto dest!: spec [of _ tok])

lemma calm_origin_fate:
  "calm s t \<Longrightarrow> map_of (rt_heap t) tok = Some (ow, y) \<Longrightarrow> \<exists>x. map_of (rt_heap s) tok = Some (ow, x) \<and> same_fate x y"
  using calm_absent [of s t tok] calm_same_fate [of s t tok] by (cases "map_of (rt_heap s) tok") fastforce+

lemma calm_origin: "calm s t \<Longrightarrow> map_of (rt_heap t) tok = Some (ow, y) \<Longrightarrow>
    \<exists>x. map_of (rt_heap s) tok = Some (ow, x) \<and> (isTerminal x \<longrightarrow> op_state y = op_state x)"
  using calm_origin_fate [of s t tok ow y] by (auto simp: same_fate_def)

lemma calm_fenced: "calm s t \<Longrightarrow> map_of (rt_controllerState s) p = Some Invalidated \<Longrightarrow> map_of (rt_controllerState t) p = Some Invalidated"
  by (cases p) (simp add: calm_def)

lemma calm_same:
  assumes "rt_heap t = rt_heap s" "rt_controllerState t = rt_controllerState s" shows "calm s t"
  using assms by (simp add: calm_def split: option.split)

lemma calm_trans:
  assumes "calm s t" "calm t u" shows "calm s u"
  unfolding calm_def
proof (intro conjI allI)
  fix tok
  show "case map_of (rt_heap s) tok of None \<Rightarrow> map_of (rt_heap u) tok = None
      | Some (ow, x) \<Rightarrow> \<exists>y. map_of (rt_heap u) tok = Some (ow, y) \<and> same_fate x y"
  proof (cases "map_of (rt_heap s) tok")
    case None
    then show ?thesis using calm_absent assms by simp
  next
    case (Some q)
    obtain ow x where q: "q = (ow, x)" by (cases q)
    obtain y where y: "map_of (rt_heap t) tok = Some (ow, y)" "same_fate x y"
      using calm_same_fate [OF assms(1)] Some q by blast
    obtain z where z: "map_of (rt_heap u) tok = Some (ow, z)" "same_fate y z"
      using calm_same_fate [OF assms(2) y(1)] by blast
    show ?thesis using Some q z same_fate_trans [OF y(2) z(2)] by simp
  qed
qed (use assms calm_fenced in blast)

lemma calm_refl [simp]: "calm s s"
  by (rule calm_same) simp_all

lemma decided_after:
  assumes "isTerminal s" shows "op_state (op_after e s) = op_state s"
  using assms
  by (cases e)
    (auto simp: operation_steps isTerminal_def invalidate_def
      split: op_state.splits option.splits observation.splits path_answer.splits capture_result.splits op_result.splits)

lemma after_fate: "same_fate x (op_after e x)"
  using decided_after [of x e] ident_after [of e x] by (simp add: same_fate_def)

lemma calm_tell: "calm s (tell tok e s)"
proof (cases "map_of (rt_heap s) tok")
  case (Some p)
  obtain ow x where "p = (ow, x)" by (cases p)
  then show ?thesis using Some tell_heap [of s tok ow x e] after_fate [of x e]
    by (auto simp: calm_def split: option.split)
qed (simp add: tell_absent)

lemma calm_fold:
  assumes "\<And>x u. calm u (f x u)" shows "calm s (fold f xs s)"
proof (induction xs arbitrary: s)
  case (Cons x xs)
  then show ?case using calm_trans [OF assms [of s x]] by simp
qed simp

lemma calm_dispose: "calm s (disposeForRuntime answers tok s)"
  by (simp add: disposeForRuntime_def calm_tell)

lemma calm_notify: "calm s (notifyDiscard i closeOwned now ans s)"
  by (simp add: notifyDiscard_def calm_tell split: option.split)

lemma calm_fence: "calm s (fence_lineage c k answers s)"
proof -
  have "calm s (s\<lparr>rt_controllerState := alist_put (c, k) Invalidated (rt_controllerState s)\<rparr>)"
    by (simp add: calm_def split: option.split)
  then show ?thesis unfolding fence_lineage_def Let_def by (rule calm_trans) (rule calm_fold, rule calm_dispose)
qed

lemma calm_invalidateController: "calm s (invalidateController input answers s)"
  by (simp add: invalidateController_def calm_fence split: option.split)

lemma calm_discard_fold: "calm (snd p) (snd (fold (discard_one replies) is p))"
proof (induction "is" arbitrary: p)
  case (Cons i "is")
  have "calm (snd p) (snd (discard_one replies i p))"
    by (cases "(replies, i, p)" rule: discard_one.cases) (simp add: calm_notify split: discard_reply.split option.split)
  then show ?case using calm_trans Cons by simp
qed simp

lemma calm_discardController: "calm s (snd (discardController input answers replies s))"
proof (cases "named_lineage input")
  case (Some p)
  obtain c k where p: "p = (c, k)" by (cases p)
  let ?s1 = "invalidateController input answers s"
  let ?doomed = "map fst (filter (\<lambda>q. ae_owner (snd q) = DriveOwner c k) (rt_artifactOwners ?s1))"
  obtain r f t where t: "fold (discard_one replies) ?doomed ((False, False), ?s1) = ((r, f), t)" by (metis prod.collapse)
  then have "calm ?s1 t" using calm_discard_fold [of "((False, False), ?s1)" replies ?doomed] by simp
  then have "calm s t" using calm_trans calm_invalidateController by blast
  moreover have "calm t (if f then t\<lparr>rt_poisoned := True\<rparr> else t)" by (rule calm_same) simp_all
  ultimately have "calm s (if f then t\<lparr>rt_poisoned := True\<rparr> else t)" by (rule calm_trans)
  then show ?thesis using Some p t by (simp add: discardController_def)
qed (simp add: discardController_def calm_invalidateController)

lemma calm_dispose_tracked: "calm s (snd (dispose_tracked answers toks s))"
proof (induction toks arbitrary: s)
  case (Cons tok toks)
  then show ?case using calm_trans [OF calm_dispose [of s answers tok]] by (simp add: split_beta)
qed simp

lemma calm_close: "calm s (close_runtime answers s)"
proof -
  let ?s = "s\<lparr>rt_closed := True, rt_closing := Closing (rt_operations s) False\<rparr>"
  have "calm s ?s" by (rule calm_same) simp_all
  then have "calm s (snd (dispose_tracked answers (rt_operations s) ?s))" by (rule calm_trans) (rule calm_dispose_tracked)
  moreover have "calm u (u\<lparr>rt_closing := c\<rparr>)" for u c by (rule calm_same) simp_all
  ultimately have "calm s ((snd (dispose_tracked answers (rt_operations s) ?s))\<lparr>rt_closing := c\<rparr>)" for c
    using calm_trans by blast
  then show ?thesis by (simp add: close_runtime_def Let_def split_beta)
qed

lemma calm_close_completed: "calm s (close_completed result s)"
proof -
  have "calm s (fold (\<lambda>tok. tell tok (StoreClosed failed)) toks s)" for toks failed by (rule calm_fold) (rule calm_tell)
  moreover have "calm u (u\<lparr>rt_closing := c\<rparr>)" for u c by (rule calm_same) simp_all
  ultimately have "calm s ((fold (\<lambda>tok. tell tok (StoreClosed failed)) toks s)\<lparr>rt_closing := c\<rparr>)" for toks failed c
    using calm_trans by blast
  then show ?thesis by (simp add: close_completed_def Let_def split: close_phase.split)
qed

lemma step_calm:
  assumes "rstep s e s'"
  shows "calm s s' \<or>
    (\<exists>owner h supplied gen frames. s' = snd (finish_create owner h supplied gen (s\<lparr>rt_frames := frames\<rparr>)))"
proof (cases e)
  case (FinishCreate gen)
  show ?thesis
  proof (cases "rt_frames s")
    case (Cons f frames)
    obtain owner h supplied where "f = (owner, h, supplied)" by (cases f)
    then have "s' = snd (finish_create owner h supplied gen (s\<lparr>rt_frames := frames\<rparr>))"
      using assms FinishCreate Cons by (simp add: rstep_def)
    then show ?thesis by blast
  qed (use assms FinishCreate in \<open>simp add: rstep_def\<close>)
next
  case (EnterCreate input)
  have "calm s (s\<lparr>rt_frames := f\<rparr>)" for f by (rule calm_same) simp_all
  then show ?thesis using assms EnterCreate by (auto simp: rstep_def split: sum.split)
next
  case (Retrieve now req)
  have "calm s (snd (authorise now req s))" by (rule calm_same) simp_all
  then show ?thesis using assms Retrieve by (simp add: rstep_def)
qed (use assms in \<open>auto simp: rstep_def calm_tell calm_notify calm_invalidateController calm_discardController calm_close
    calm_close_completed\<close>)

lemma invalidLineage_upd [simp]: "invalidLineage owner (s\<lparr>rt_frames := f\<rparr>) = invalidLineage owner s"
  by (simp add: invalidLineage_def split: artifact_owner.split)

lemma created:
  assumes "s' = snd (finish_create owner h supplied gen (s\<lparr>rt_frames := frames\<rparr>))"
  obtains "calm s s'"
  | i where "rt_heap s' = alist_put (rt_next s) (owner, new_operation i h) (rt_heap s)" "\<not> rt_closed s" "\<not> invalidLineage owner s"
      "\<And>p v. map_of (rt_controllerState s) p = Some v \<Longrightarrow> map_of (rt_controllerState s') p = Some v"
proof (rule finish_create_cases [of owner h supplied gen "s\<lparr>rt_frames := frames\<rparr>"])
  fix e assume "finish_create owner h supplied gen (s\<lparr>rt_frames := frames\<rparr>) = (Inl e, s\<lparr>rt_frames := frames\<rparr>)"
  then have "s' = s\<lparr>rt_frames := frames\<rparr>" using assms by simp
  then show thesis using that(1) calm_same [of s' s] by simp
next
  fix i C
  let ?s = "s\<lparr>rt_frames := frames\<rparr>"
  assume "finish_create owner h supplied gen ?s = (Inr (rt_next ?s),
        ?s\<lparr>rt_reserved := alist_put i (rt_next ?s) (rt_reserved ?s), rt_controllerState := C,
          rt_heap := alist_put (rt_next ?s) (owner, new_operation i h) (rt_heap ?s), rt_next := rt_next ?s + 1,
          rt_operations := rt_operations ?s @ [rt_next ?s]\<rparr>)"
    and "\<not> rt_closed ?s" "\<not> invalidLineage owner ?s" "\<And>p v. map_of (rt_controllerState ?s) p = Some v \<Longrightarrow> map_of C p = Some v"
  then show thesis using that(2) [of i] assms by simp
qed

section \<open>A fence is final\<close>

definition fenced :: "string \<Rightarrow> string \<Rightarrow> runtime \<Rightarrow> bool" where
  "fenced c k s \<longleftrightarrow>
     map_of (rt_controllerState s) (c, k) = Some Invalidated \<and>
     (\<forall>tok x. map_of (rt_heap s) tok = Some (DriveOwner c k, x) \<longrightarrow> isTerminal x)"

lemma fenced_calm: "fenced c k s \<Longrightarrow> calm s t \<Longrightarrow> fenced c k t"
  unfolding fenced_def using calm_fenced calm_origin isTerminal_eq by metis

lemma fenced_step:
  assumes "fenced c k s" "rstep s e s'" shows "fenced c k s'"
  using step_calm [OF assms(2)]
proof
  assume "\<exists>owner h supplied gen frames. s' = snd (finish_create owner h supplied gen (s\<lparr>rt_frames := frames\<rparr>))"
  then obtain owner h supplied gen frames where eq: "s' = snd (finish_create owner h supplied gen (s\<lparr>rt_frames := frames\<rparr>))"
    by blast
  show ?thesis
  proof (rule created [OF eq])
    fix i assume *: "rt_heap s' = alist_put (rt_next s) (owner, new_operation i h) (rt_heap s)" "\<not> invalidLineage owner s"
      "\<And>p v. map_of (rt_controllerState s) p = Some v \<Longrightarrow> map_of (rt_controllerState s') p = Some v"
    have "owner \<noteq> DriveOwner c k" using *(2) assms(1) by (auto simp: invalidLineage_def fenced_def)
    then show ?thesis using assms(1) *(1,3) by (auto simp: fenced_def split: if_splits)
  qed (rule fenced_calm [OF assms(1)])
qed (rule fenced_calm [OF assms(1)])

lemma fenced_always: "reachable (\<lambda>t. t = s) rstep t \<Longrightarrow> fenced c k s \<Longrightarrow> fenced c k t"
  by (induction rule: reachable.induct) (auto intro: fenced_step)

lemma dispose_decides:
  assumes "map_of (rt_heap s) tok = Some (ow, x)" "\<not> disposal_throws answers tok s"
  shows "\<exists>y. map_of (rt_heap (disposeForRuntime answers tok s)) tok = Some (ow, y) \<and> isTerminal y"
  using assms tell_heap [OF assms(1)] by (simp add: disposeForRuntime_def)

lemma fold_decides:
  assumes "\<forall>tok. fst (answers tok) \<noteq> None" "tok \<in> set toks" "map_of (rt_heap s) tok = Some (ow, x)"
  shows "\<exists>y. map_of (rt_heap (fold (disposeForRuntime answers) toks s)) tok = Some (ow, y) \<and> isTerminal y"
  using assms(2,3)
proof (induction toks arbitrary: s x)
  case (Cons t toks)
  let ?u = "disposeForRuntime answers t s"
  have rest: "calm ?u (fold (disposeForRuntime answers) toks ?u)" by (rule calm_fold) (rule calm_dispose)
  show ?case
  proof (cases "t = tok")
    case True
    then obtain y where "map_of (rt_heap ?u) tok = Some (ow, y)" "isTerminal y"
      using dispose_decides [OF Cons.prems(2), of answers] assms(1) by (auto simp: disposal_throws_def)
    then obtain z where "map_of (rt_heap (fold (disposeForRuntime answers) toks ?u)) tok = Some (ow, z)" "op_state z = op_state y"
      using calm_fate [OF rest] by blast
    then show ?thesis using isTerminal_eq [of z y] \<open>isTerminal y\<close> by simp
  next
    case False
    obtain y where "map_of (rt_heap ?u) tok = Some (ow, y)" using calm_fate [OF calm_dispose Cons.prems(2)] by blast
    then show ?thesis using Cons.IH [of ?u] Cons.prems(1) False by simp
  qed
qed simp

lemma untracked_decided:
  assumes "books_ok s" "map_of (rt_heap s) tok = Some (ow, x)" "tok \<notin> set (rt_operations s)"
  shows "isTerminal x"
proof -
  have x: "op_inv x" "op_released x \<or> op_poisons x > 0"
    using assms by (auto simp: books_ok_def heap_ok_def tracked_ok_def)
  note parts = core_parts(3,5) [OF op_inv_core [OF x(1)]]
  show ?thesis using parts x(2) by (cases "isTerminal x") (auto simp: release_ok_def hooks_ok_def)
qed

lemma fence_fences:
  assumes "books_ok s" "\<forall>tok. fst (answers tok) \<noteq> None"
  shows "fenced c k (fence_lineage c k answers s)"
proof -
  let ?s1 = "s\<lparr>rt_controllerState := alist_put (c, k) Invalidated (rt_controllerState s)\<rparr>"
  let ?toks = "filter (\<lambda>tok. owned_by_lineage c k tok ?s1) (rt_operations ?s1)"
  let ?t = "fold (disposeForRuntime answers) ?toks ?s1"
  have ct: "calm ?s1 ?t" by (rule calm_fold) (rule calm_dispose)
  have "isTerminal y" if y: "map_of (rt_heap ?t) tok = Some (DriveOwner c k, y)" for tok y
  proof -
    obtain x where x: "map_of (rt_heap s) tok = Some (DriveOwner c k, x)" "isTerminal x \<longrightarrow> op_state y = op_state x"
      using calm_origin [OF ct y] by auto
    show ?thesis
    proof (cases "tok \<in> set (rt_operations s)")
      case True
      then have "tok \<in> set ?toks" using x(1) by (simp add: owned_by_lineage_def)
      then show ?thesis using fold_decides [OF assms(2), of tok ?toks ?s1] x(1) y by auto
    next
      case False
      then show ?thesis using untracked_decided [OF assms(1) x(1)] x(2) isTerminal_eq [of y x] by simp
    qed
  qed
  then have "fenced c k ?t" using calm_fenced [OF ct, of "(c, k)"] by (auto simp: fenced_def)
  then show ?thesis unfolding fence_lineage_def Let_def .
qed

section \<open>A close is final\<close>

definition all_decided :: "runtime \<Rightarrow> bool" where
  "all_decided s \<longleftrightarrow> (\<forall>tok ow x. map_of (rt_heap s) tok = Some (ow, x) \<longrightarrow> isTerminal x)"

definition clean_close :: "close_phase \<Rightarrow> bool" where
  "clean_close p = (case p of NotClosing \<Rightarrow> False | Closing tracked threw \<Rightarrow> \<not> threw | Settled r \<Rightarrow> r \<noteq> Some CleanupFailed)"

definition rt_closing_ok :: "runtime \<Rightarrow> bool" where
  "rt_closing_ok s \<longleftrightarrow> (rt_closed s \<longleftrightarrow> rt_closing s \<noteq> NotClosing) \<and> (clean_close (rt_closing s) \<longrightarrow> all_decided s)"

lemma decided_calm: "all_decided s \<Longrightarrow> calm s t \<Longrightarrow> all_decided t"
  unfolding all_decided_def using calm_origin isTerminal_eq by metis

lemma rt_closing_calm:
  assumes "rt_closing_ok s" "calm s t" "rt_closed t = rt_closed s" "rt_closing t = rt_closing s" shows "rt_closing_ok t"
  using assms decided_calm by (auto simp: rt_closing_ok_def)

lemma dispose_frame [simp]:
  "rt_closed (disposeForRuntime answers tok s) = rt_closed s" "rt_closing (disposeForRuntime answers tok s) = rt_closing s"
  "rt_frames (disposeForRuntime answers tok s) = rt_frames s"
  by (simp_all add: disposeForRuntime_def)

lemma notify_frame [simp]:
  "rt_closed (notifyDiscard i b now ans s) = rt_closed s" "rt_closing (notifyDiscard i b now ans s) = rt_closing s"
  "rt_frames (notifyDiscard i b now ans s) = rt_frames s"
  by (simp_all add: notifyDiscard_def split: option.split)

lemma fold_dispose_frame [simp]:
  "rt_closed (fold (disposeForRuntime answers) toks s) = rt_closed s" "rt_closing (fold (disposeForRuntime answers) toks s) = rt_closing s"
  "rt_frames (fold (disposeForRuntime answers) toks s) = rt_frames s"
  by (induction toks arbitrary: s) simp_all

lemma invalidateController_frame [simp]:
  "rt_closed (invalidateController input answers s) = rt_closed s" "rt_closing (invalidateController input answers s) = rt_closing s"
  "rt_frames (invalidateController input answers s) = rt_frames s"
  by (simp_all add: invalidateController_def fence_lineage_def Let_def split: option.split)

lemma discard_one_frame [simp]:
  "rt_closed (snd (discard_one replies i p)) = rt_closed (snd p)" "rt_closing (snd (discard_one replies i p)) = rt_closing (snd p)"
  "rt_frames (snd (discard_one replies i p)) = rt_frames (snd p)"
  by (cases "(replies, i, p)" rule: discard_one.cases; simp split: discard_reply.split option.split)+

lemma discard_fold_frame:
  "rt_closed (snd (fold (discard_one replies) is p)) = rt_closed (snd p)"
  "rt_closing (snd (fold (discard_one replies) is p)) = rt_closing (snd p)"
  "rt_frames (snd (fold (discard_one replies) is p)) = rt_frames (snd p)"
  by (induction "is" arbitrary: p) simp_all

lemma discardController_frames:
  "rt_closed (snd (discardController input answers replies s)) = rt_closed s \<and>
   rt_closing (snd (discardController input answers replies s)) = rt_closing s \<and>
   rt_frames (snd (discardController input answers replies s)) = rt_frames s"
proof (cases "named_lineage input")
  case (Some p)
  obtain c k where p: "p = (c, k)" by (cases p)
  let ?s1 = "invalidateController input answers s"
  let ?doomed = "map fst (filter (\<lambda>q. ae_owner (snd q) = DriveOwner c k) (rt_artifactOwners ?s1))"
  obtain r f t where t: "fold (discard_one replies) ?doomed ((False, False), ?s1) = ((r, f), t)" by (metis prod.collapse)
  then have "rt_closed t = rt_closed s" "rt_closing t = rt_closing s" "rt_frames t = rt_frames s"
    using discard_fold_frame [of replies ?doomed "((False, False), ?s1)"] by simp_all
  then show ?thesis using Some p t by (simp add: discardController_def)
qed (simp add: discardController_def)

lemmas discardController_frame [simp] =
  discardController_frames [THEN conjunct1] discardController_frames [THEN conjunct2, THEN conjunct1]
  discardController_frames [THEN conjunct2, THEN conjunct2]

lemma tracked_decides:
  assumes "\<not> fst (dispose_tracked answers toks s)" "tok \<in> set toks" "map_of (rt_heap s) tok = Some (ow, x)"
  shows "\<exists>y. map_of (rt_heap (snd (dispose_tracked answers toks s))) tok = Some (ow, y) \<and> isTerminal y"
  using assms
proof (induction toks arbitrary: s x)
  case (Cons t toks)
  let ?u = "disposeForRuntime answers t s"
  have ok: "\<not> disposal_throws answers t s" "\<not> fst (dispose_tracked answers toks ?u)"
    using Cons.prems(1) by (simp_all add: split_beta)
  have rest: "calm ?u (snd (dispose_tracked answers toks ?u))" by (rule calm_dispose_tracked)
  have eq: "snd (dispose_tracked answers (t # toks) s) = snd (dispose_tracked answers toks ?u)" by (simp add: split_beta)
  show ?case
  proof (cases "t = tok")
    case True
    then obtain y where "map_of (rt_heap ?u) tok = Some (ow, y)" "isTerminal y"
      using dispose_decides [OF Cons.prems(3), of answers] ok(1) by auto
    then obtain z where "map_of (rt_heap (snd (dispose_tracked answers toks ?u))) tok = Some (ow, z)" "op_state z = op_state y"
      using calm_fate [OF rest] by blast
    then show ?thesis using isTerminal_eq [of z y] \<open>isTerminal y\<close> eq by simp
  next
    case False
    obtain y where "map_of (rt_heap ?u) tok = Some (ow, y)" using calm_fate [OF calm_dispose Cons.prems(3)] by blast
    then show ?thesis using Cons.IH [of ?u] Cons.prems(2) False ok(2) eq by simp
  qed
qed simp

lemma close_decides:
  assumes "books_ok s" "\<not> fst (dispose_tracked answers (rt_operations s) t)" "rt_heap t = rt_heap s" "rt_controllerState t = rt_controllerState s"
  shows "all_decided (snd (dispose_tracked answers (rt_operations s) t))"
  unfolding all_decided_def
proof (intro allI impI)
  fix tok ow y assume y: "map_of (rt_heap (snd (dispose_tracked answers (rt_operations s) t))) tok = Some (ow, y)"
  obtain x where x: "map_of (rt_heap s) tok = Some (ow, x)" "isTerminal x \<longrightarrow> op_state y = op_state x"
    using calm_origin [OF calm_dispose_tracked y] assms(3) by auto
  show "isTerminal y"
  proof (cases "tok \<in> set (rt_operations s)")
    case True
    then show ?thesis using tracked_decides [OF assms(2), of tok ow x] x(1) y assms(3) by simp
  next
    case False
    then show ?thesis using untracked_decided [OF assms(1) x(1)] x(2) isTerminal_eq [of y x] by simp
  qed
qed

lemma dispose_tracked_frame:
  "rt_closed (snd (dispose_tracked answers toks s)) = rt_closed s" "rt_closing (snd (dispose_tracked answers toks s)) = rt_closing s"
  "rt_frames (snd (dispose_tracked answers toks s)) = rt_frames s"
  by (induction toks arbitrary: s) (simp_all add: split_beta)

lemma closing_close:
  assumes "books_ok s" "rt_closing_ok s" shows "rt_closing_ok (close_runtime answers s)"
proof (cases "rt_closing s = NotClosing")
  case True
  let ?t = "s\<lparr>rt_closed := True, rt_closing := Closing (rt_operations s) False\<rparr>"
  have "all_decided (snd (dispose_tracked answers (rt_operations s) ?t))" if "\<not> fst (dispose_tracked answers (rt_operations s) ?t)"
    by (rule close_decides [OF assms(1) that]) simp_all
  then show ?thesis
    using True dispose_tracked_frame(1) [of answers "rt_operations s" ?t]
    by (simp add: close_runtime_def Let_def split_beta rt_closing_ok_def clean_close_def all_decided_def)
qed (use assms in \<open>simp add: close_runtime_def\<close>)

lemma closing_completed:
  assumes "rt_closing_ok s" shows "rt_closing_ok (close_completed result s)"
proof (cases "rt_closing s")
  case (Closing tracked threw)
  let ?failed = "threw \<or> result = Some CleanupFailed"
  let ?t = "fold (\<lambda>tok. tell tok (StoreClosed ?failed)) tracked s"
  have "calm s ?t" by (rule calm_fold) (rule calm_tell)
  then have "all_decided ?t" if "\<not> threw" using assms that Closing decided_calm by (auto simp: rt_closing_ok_def clean_close_def)
  moreover have "rt_closed (fold (\<lambda>tok. tell tok e) toks u) = rt_closed u" for toks u e
    by (induction toks arbitrary: u) simp_all
  ultimately show ?thesis
    using assms Closing by (auto simp: close_completed_def Let_def rt_closing_ok_def clean_close_def all_decided_def)
qed (use assms in \<open>simp_all add: close_completed_def\<close>)

lemma runtime_closing_step:
  assumes books: "books_ok s" and ok: "rt_closing_ok s" and step: "rstep s e s'" shows "rt_closing_ok s'"
proof (cases "(\<exists>answers. e = CloseRuntime answers) \<or> (\<exists>r. e = CloseCompleted r)")
  case True
  then show ?thesis using step closing_close [OF books ok] closing_completed [OF ok] by (auto simp: rstep_def)
next
  case False
  then have frame: "rt_closed s' = rt_closed s \<and> rt_closing s' = rt_closing s"
    using step by (cases e) (auto simp: rstep_def finish_create_def Let_def split: sum.split list.split)
  from step_calm [OF step] show ?thesis
  proof
    assume "\<exists>owner h supplied gen frames. s' = snd (finish_create owner h supplied gen (s\<lparr>rt_frames := frames\<rparr>))"
    then obtain owner h supplied gen frames where eq: "s' = snd (finish_create owner h supplied gen (s\<lparr>rt_frames := frames\<rparr>))"
      by blast
    show ?thesis
    proof (rule created [OF eq])
      fix i assume "\<not> rt_closed s"
      then show ?thesis using frame ok by (simp add: rt_closing_ok_def clean_close_def)
    qed (use frame ok in \<open>auto intro: rt_closing_calm\<close>)
  qed (use frame ok in \<open>auto intro: rt_closing_calm\<close>)
qed

interpretation closing: inductive_invariant fresh_runtime rstep "\<lambda>s. books_ok s \<and> rt_closing_ok s"
proof
  show "books_ok s \<and> rt_closing_ok s" if "fresh_runtime s" for s
    using books_init [OF that] that by (simp add: fresh_runtime_def new_ArtifactRuntime_def rt_closing_ok_def clean_close_def)
qed (use runtime_books_step runtime_closing_step in blast)

lemma closed_step:
  assumes "books_ok s" "rt_closed s" "all_decided s" "rstep s e s'"
  shows "rt_closed s'" "calm s s'"
proof -
  from step_calm [OF assms(4)] show c: "calm s s'"
  proof
    assume "\<exists>owner h supplied gen frames. s' = snd (finish_create owner h supplied gen (s\<lparr>rt_frames := frames\<rparr>))"
    then obtain owner h supplied gen frames where eq: "s' = snd (finish_create owner h supplied gen (s\<lparr>rt_frames := frames\<rparr>))"
      by blast
    show ?thesis by (rule created [OF eq]) (use assms(2) in simp_all)
  qed
  show "rt_closed s'"
    using assms(2,4) dispose_tracked_frame(1) [of _ "rt_operations s" "s\<lparr>rt_closed := True, rt_closing := Closing (rt_operations s) False\<rparr>"]
    by (cases e)
      (auto simp: rstep_def finish_create_def close_runtime_def close_completed_def Let_def split_beta
        split: sum.split list.split close_phase.split intro: fold_keeps [where P = rt_closed])
qed

section \<open>Well-formed operations\<close>

fun wf_owner :: "artifact_owner \<Rightarrow> bool" where
  "wf_owner (ConsumerOwner c) = (c \<noteq> [])"
| "wf_owner (DriveOwner c k) = (c \<noteq> [] \<and> k \<noteq> [])"

definition wf_host :: "string \<Rightarrow> bool" where
  "wf_host h \<longleftrightarrow> HOST h \<and> isIP (canonicalizeHostForIp h) = 0"

definition wf_runtime :: "runtime \<Rightarrow> bool" where
  "wf_runtime s \<longleftrightarrow>
     (\<forall>tok ow x. map_of (rt_heap s) tok = Some (ow, x) \<longrightarrow> wf_owner ow \<and> ARTIFACT_ID (op_id x) \<and> wf_host (op_host x)) \<and>
     (\<forall>(ow, h, i) \<in> set (rt_frames s). wf_owner ow \<and> wf_host h)"

lemma wf_calm: "wf_runtime s \<Longrightarrow> calm s t \<Longrightarrow> rt_frames t = rt_frames s \<Longrightarrow> wf_runtime t"
  unfolding wf_runtime_def using calm_origin_fate [of s t] unfolding same_fate_def by metis

lemma canonicalizeOwner_wf: "canonicalizeOwner r = Some ow \<Longrightarrow> wf_owner ow"
  by (cases r rule: canonicalizeOwner.cases) (auto split: raw.splits if_splits)

lemma enter_create_wf: "enter_create input s = Inr (ow, h, i) \<Longrightarrow> wf_owner ow \<and> wf_host h"
  by (auto simp: enter_create_def Let_def wf_host_def dest: canonicalizeOwner_wf
      split: raw_input.splits option.splits raw.splits if_splits)

lemma finish_create_wf:
  assumes "wf_runtime s" "wf_owner owner" "wf_host h"
  shows "wf_runtime (snd (finish_create owner h supplied gen s))"
proof (rule finish_create_cases [of owner h supplied gen s])
  fix i C
  assume "finish_create owner h supplied gen s = (Inr (rt_next s),
        s\<lparr>rt_reserved := alist_put i (rt_next s) (rt_reserved s), rt_controllerState := C,
          rt_heap := alist_put (rt_next s) (owner, new_operation i h) (rt_heap s), rt_next := rt_next s + 1,
          rt_operations := rt_operations s @ [rt_next s]\<rparr>)" "ARTIFACT_ID i"
  moreover have "op_host (new_operation i h) = h" by (simp add: new_operation_def)
  ultimately show ?thesis using assms by (auto simp: wf_runtime_def)
qed (use assms in simp)

lemma close_frames: "rt_frames (close_runtime answers s) = rt_frames s" "rt_frames (close_completed result s) = rt_frames s"
proof -
  show "rt_frames (close_runtime answers s) = rt_frames s"
    using dispose_tracked_frame(3) [of answers "rt_operations s" "s\<lparr>rt_closed := True, rt_closing := Closing (rt_operations s) False\<rparr>"]
    by (simp add: close_runtime_def Let_def split_beta)
  have "rt_frames (fold (\<lambda>tok. tell tok e) toks s) = rt_frames s" for toks e by (induction toks arbitrary: s) simp_all
  then show "rt_frames (close_completed result s) = rt_frames s" by (simp add: close_completed_def Let_def split: close_phase.split)
qed

lemma authorise_frames: "rt_frames (snd (authorise now req s)) = rt_frames s"
  by (simp add: authorise_def Let_def split: raw_request.split raw.split prod.split bool.split)

lemma wf_step:
  assumes wf: "wf_runtime s" and step: "rstep s e s'" shows "wf_runtime s'"
proof (cases e)
  case (EnterCreate input)
  then show ?thesis using step wf enter_create_wf [of input s] by (auto simp: rstep_def wf_runtime_def split: sum.splits)
next
  case (FinishCreate gen)
  have pop: "wf_runtime (s\<lparr>rt_frames := fs\<rparr>)" if "rt_frames s = f # fs" for f fs
    using wf that by (auto simp: wf_runtime_def)
  show ?thesis
  proof (cases "rt_frames s")
    case (Cons f fs)
    obtain ow h i where f: "f = (ow, h, i)" by (cases f)
    have "wf_owner ow \<and> wf_host h" using wf Cons f by (auto simp: wf_runtime_def)
    then show ?thesis using step FinishCreate Cons f finish_create_wf [OF pop [OF Cons]] by (simp add: rstep_def)
  qed (use step wf FinishCreate in \<open>simp add: rstep_def\<close>)
next
  case (Retrieve now req)
  have "calm s (snd (authorise now req s))" by (rule calm_same) simp_all
  then show ?thesis using step Retrieve wf_calm [OF wf] authorise_frames by (simp add: rstep_def)
qed (use step wf_calm [OF wf] in \<open>simp_all add: rstep_def calm_tell calm_notify calm_invalidateController calm_discardController
    calm_close calm_close_completed close_frames\<close>)

interpretation wf: inductive_invariant fresh_runtime rstep wf_runtime
  by unfold_locales (simp add: fresh_runtime_def new_ArtifactRuntime_def wf_runtime_def, rule wf_step)

section \<open>An example run\<close>

definition rt_do :: "runtime_event \<Rightarrow> runtime \<Rightarrow> runtime option" where
  "rt_do e s = (if rt_able e s then Some (rt_after e s) else None)"

lemma run_reachable_rt:
  "run rt_do es s = Some s' \<Longrightarrow> reachable init rstep s \<Longrightarrow> reachable init rstep s'"
  by (rule run_reachable [of rt_do]) (simp_all add: rt_do_def rstep_def split: if_splits)

definition pdf_id :: string where
  "pdf_id = replicate 22 CHR ''a''"

definition pdf_input :: raw_input where
  "pdf_input = InputFields (OwnerFields (Text ''drive'') (Text ''c'') (Text ''k'')) (Text ''Example.com'') (Text pdf_id)"

definition pdf_events :: "runtime_event list" where
  "pdf_events = [EnterCreate pdf_input, FinishCreate (\<lambda>attempt. None), OpStep 0 (Register 0 no_answer), OpStep 0 StageBegin,
     OpStep 0 (StageFailure (FailureValue False) 0 no_answer), OpStep 0 (SealBegin 5),
     OpStep 0 (StagePath (PathString ''/d'' (Some True)) 6 no_answer),
     OpStep 0 (StageCapture (Some (Available pdf_id staged_record)) 7 no_answer), OpStep 0 StageSettled,
     OpStep 0 (SealSettled 9 no_answer)]"

definition pdf_runtime :: runtime where
  "pdf_runtime = the (run rt_do pdf_events new_ArtifactRuntime)"

lemma run_pdf: "run rt_do pdf_events new_ArtifactRuntime = Some pdf_runtime"
proof -
  have "run rt_do pdf_events new_ArtifactRuntime \<noteq> None" by code_simp
  then show ?thesis by (auto simp: pdf_runtime_def)
qed

lemma pdf_reachable: "reachable fresh_runtime rstep pdf_runtime"
  by (rule run_reachable_rt [OF run_pdf]) (simp add: reachable.start fresh_runtime_def)

definition pdf_closed :: runtime where
  "pdf_closed = the (run rt_do (pdf_events @ [CloseRuntime (\<lambda>tok. (Some 10, no_answer)), CloseCompleted None]) new_ArtifactRuntime)"

lemma closed_reachable: "reachable fresh_runtime rstep pdf_closed"
proof -
  have "run rt_do (pdf_events @ [CloseRuntime (\<lambda>tok. (Some 10, no_answer)), CloseCompleted None]) new_ArtifactRuntime \<noteq> None"
    by code_simp
  then have r: "run rt_do (pdf_events @ [CloseRuntime (\<lambda>tok. (Some 10, no_answer)), CloseCompleted None]) new_ArtifactRuntime =
      Some pdf_closed" by (auto simp: pdf_closed_def)
  show ?thesis by (rule run_reachable_rt [OF r]) (simp add: reachable.start fresh_runtime_def)
qed

section \<open>Claims\<close>

lemma listed_entry:
  assumes "books_ok s" "map_of (rt_artifactOwners s) i = Some entry"
  shows "\<exists>x. map_of (rt_heap s) (ae_token entry) = Some (ae_owner entry, x) \<and> op_id x = i \<and>
    op_state x = OpCommitted (AvailableResult (ae_metadata entry)) \<and> md_artifactId (ae_metadata entry) = i \<and>
    md_sourceHost (ae_metadata entry) = op_host x \<and> map_of (rt_reserved s) i = Some (ae_token entry)"
proof -
  have parts: "heap_ok (map_of (rt_heap s)) (rt_next s) (rt_poisoned s) (map_of (rt_controllerState s))"
    "index_ok (map_of (rt_heap s)) (map_of (rt_reserved s))" "owners_ok (map_of (rt_heap s)) (map_of (rt_artifactOwners s))"
    using assms(1) by (simp_all add: books_ok_def)
  obtain x where x: "map_of (rt_heap s) (ae_token entry) = Some (ae_owner entry, x)" "op_id x = i"
    "op_state x = OpCommitted (AvailableResult (ae_metadata entry))" "\<not> op_released x"
    using parts(3) assms(2) unfolding owners_ok_def by blast
  have "map_of (rt_reserved s) i = Some (ae_token entry)" using parts(2) x unfolding index_ok_def by blast
  moreover have "described x" using parts(1) x(1) unfolding heap_ok_def by blast
  ultimately show ?thesis using x by (auto simp: described_def)
qed

lemma authorised_entry_cases:
  "case authorised_entry aid c kid t of
     Inl e \<Rightarrow> e = NotFound \<or> e = OwnerMismatch
   | Inr (i, entry) \<Rightarrow> aid = Text i \<and> map_of (rt_artifactOwners t) i = Some entry \<and> owner_consumer (ae_owner entry) = c \<and>
       (case ae_owner entry of ConsumerOwner _ \<Rightarrow> True
        | DriveOwner _ k \<Rightarrow> kid = Text k \<and> map_of (rt_controllerState t) (c, k) = Some Active)"
  by (auto simp: authorised_entry_def split: raw.split option.split artifact_owner.split)

lemma authorise_cases:
  assumes "authorise now (RequestFields aid (Text c) kid) s = (answer, s')"
  obtains e where "answer = Inl e" "e = NotFound \<or> e = RateLimited" "s' = s\<lparr>rt_retrievals := rt_retrievals s'\<rparr>"
  | tries where "answer = authorised_entry aid c kid (s\<lparr>rt_retrievals := tries\<rparr>)" "s' = s\<lparr>rt_retrievals := tries\<rparr>" "c \<noteq> []"
proof (cases "c = [] \<or> fst (spendRetrieval now c (rt_retrievals s))")
  case True
  then show thesis using assms that(1) by (cases "spendRetrieval now c (rt_retrievals s)") (auto simp: authorise_def split: if_splits)
next
  case False
  then obtain tries where "spendRetrieval now c (rt_retrievals s) = (False, tries)" "c \<noteq> []" by (metis prod.collapse)
  then have "answer = authorised_entry aid c kid (s\<lparr>rt_retrievals := tries\<rparr>)" "s' = s\<lparr>rt_retrievals := tries\<rparr>"
    using assms by (auto simp: authorise_def Let_def)
  then show thesis using \<open>c \<noteq> []\<close> by (rule that(2))
qed

text \<open>C34: A retrieval is authorised only for an artifact that belongs to the caller. Whatever interleaves, when the runtime lets
  a retrieval reach its store, the entry it found is the one a committed operation published for exactly that identity,
  whose identity is still reserved (so its bytes are not known to be gone), the caller names the owning consumer, and for
  a drive artifact also the owning controller, on a lineage that is active. A denied retrieval gets one of three closed codes,
  and no retrieval changes anything but the retrieval budget.\<close>

theorem retrieval_authorised:
  assumes "reachable fresh_runtime rstep s" "authorise now (RequestFields aid (Text c) kid) s = (answer, s')"
  shows "s' = s\<lparr>rt_retrievals := rt_retrievals s'\<rparr> \<and>
    (case answer of
       Inl e \<Rightarrow> e = NotFound \<or> e = OwnerMismatch \<or> e = RateLimited
     | Inr (i, entry) \<Rightarrow>
         aid = Text i \<and> c \<noteq> [] \<and> owner_consumer (ae_owner entry) = c \<and>
         (\<exists>x. map_of (rt_heap s) (ae_token entry) = Some (ae_owner entry, x) \<and> op_id x = i \<and>
            op_state x = OpCommitted (AvailableResult (ae_metadata entry)) \<and> md_artifactId (ae_metadata entry) = i \<and>
            md_sourceHost (ae_metadata entry) = op_host x \<and> map_of (rt_reserved s) i = Some (ae_token entry)) \<and>
         (case ae_owner entry of ConsumerOwner _ \<Rightarrow> True
          | DriveOwner _ k \<Rightarrow> kid = Text k \<and> map_of (rt_controllerState s) (c, k) = Some Active))"
  using assms(2)
proof (cases rule: authorise_cases)
  case (2 tries)
  have books: "books_ok s" using closing.always [OF assms(1)] by blast
  note found = authorised_entry_cases [where aid = aid and c = c and kid = kid and t = "s\<lparr>rt_retrievals := tries\<rparr>"]
  show ?thesis
  proof (cases answer)
    case (Inr p)
    obtain i entry where "p = (i, entry)" by (cases p)
    then show ?thesis using Inr 2 found listed_entry [OF books, of i entry] by (simp split: artifact_owner.splits)
  qed (use 2 found in auto)
qed auto

lemma retrieval_authorised_witness:
  "\<exists>entry s'. authorise 20 (RequestFields (Text pdf_id) (Text ''c'') (Text ''k'')) pdf_runtime = (Inr (pdf_id, entry), s') \<and>
     ae_owner entry = DriveOwner ''c'' ''k'' \<and> map_of (rt_controllerState pdf_runtime) (''c'', ''k'') = Some Active"
proof -
  let ?a = "authorise 20 (RequestFields (Text pdf_id) (Text ''c'') (Text ''k'')) pdf_runtime"
  have "(case fst ?a of Inr (i, entry) \<Rightarrow> i = pdf_id \<and> ae_owner entry = DriveOwner ''c'' ''k'' | Inl e \<Rightarrow> False)" by code_simp
  then obtain entry s' where a: "?a = (Inr (pdf_id, entry), s')" "ae_owner entry = DriveOwner ''c'' ''k''"
    by (cases ?a) (auto split: sum.splits)
  then show ?thesis using retrieval_authorised [OF pdf_reachable a(1)] by simp
qed

text \<open>C35: An artifact identity belongs to one operation until that operation releases it. Two operations that have not released
  their identities never share one, including operations the runtime has dropped because their disposal is unconfirmed (which
  also leaves the runtime poisoned); and an operation is created only under an identity of the closed grammar that nobody
  holds, in a runtime that is neither closed nor poisoned, on a lineage that is not fenced.\<close>

theorem identity_exclusive:
  assumes "reachable fresh_runtime rstep s"
  shows "(map_of (rt_heap s) t = Some (ow, x) \<and> map_of (rt_heap s) u = Some (ow', y) \<and> op_id x = op_id y \<and>
      \<not> op_released x \<and> \<not> op_released y \<longrightarrow> t = u) \<and>
    (map_of (rt_heap s) t = Some (ow, x) \<and> op_poisons x > 0 \<longrightarrow>
      rt_poisoned s \<and> map_of (rt_reserved s) (op_id x) = Some t \<and> t \<notin> set (rt_operations s)) \<and>
    (case finish_create owner h supplied gen s of
       (Inl e, s') \<Rightarrow> s' = s
     | (Inr tok, s') \<Rightarrow> \<not> rt_closed s \<and> \<not> rt_poisoned s \<and> \<not> invalidLineage owner s \<and> map_of (rt_heap s) tok = None \<and>
         (\<exists>i. ARTIFACT_ID i \<and> map_of (rt_reserved s) i = None \<and> map_of (rt_heap s') tok = Some (owner, new_operation i h)))"
proof -
  have parts: "heap_ok (map_of (rt_heap s)) (rt_next s) (rt_poisoned s) (map_of (rt_controllerState s))"
    "index_ok (map_of (rt_heap s)) (map_of (rt_reserved s))" "tracked_ok (map_of (rt_heap s)) (rt_operations s)"
    using closing.always [OF assms] by (simp_all add: books_ok_def)
  have "t = u" if "map_of (rt_heap s) t = Some (ow, x)" "map_of (rt_heap s) u = Some (ow', y)" "op_id x = op_id y"
    "\<not> op_released x" "\<not> op_released y"
    using index_unique [OF parts(2) that(1,2,3)] that(4,5) by simp
  moreover have "rt_poisoned s \<and> map_of (rt_reserved s) (op_id x) = Some t \<and> t \<notin> set (rt_operations s)"
    if "map_of (rt_heap s) t = Some (ow, x)" "op_poisons x > 0"
  proof -
    have x: "op_inv x" "rt_poisoned s" using parts(1) that unfolding heap_ok_def by blast+
    then have "\<not> op_released x" using released_flips(3) [of x x] that(2) by simp
    then show ?thesis using x parts(2,3) that by (auto simp: index_ok_def tracked_ok_def)
  qed
  moreover have "map_of (rt_heap s) (rt_next s) = None"
    using parts(1) by (cases "map_of (rt_heap s) (rt_next s)") (auto simp: heap_ok_def)
  ultimately show ?thesis
    by (intro conjI) (blast, blast, rule finish_create_cases [of owner h supplied gen s], auto)
qed

lemma identity_exclusive_witness:
  "\<not> rt_closed pdf_runtime \<and> \<not> rt_poisoned pdf_runtime \<and> map_of (rt_reserved pdf_runtime) (replicate 23 CHR ''a'') = None"
proof -
  have f: "case fst (finish_create (ConsumerOwner ''c'') ''h'' (Some (replicate 23 CHR ''a'')) (\<lambda>n. None) pdf_runtime) of Inl e \<Rightarrow> False
      | Inr tok \<Rightarrow> tok = 1" "map_of (rt_reserved pdf_runtime) (replicate 23 CHR ''a'') = None" by code_simp+
  then show ?thesis
    using identity_exclusive [OF pdf_reachable, of 0 "ConsumerOwner []" demo_stuck 0 "ConsumerOwner []" demo_stuck
        "ConsumerOwner ''c''" "''h''" "Some (replicate 23 CHR ''a'')" "\<lambda>n. None"]
    by (auto split: prod.splits sum.splits)
qed





text \<open>C38: Every operation the runtime ever holds is well formed, whatever callers pass: its identity is in the closed grammar, its
  host is a canonical lower-case DNS name that is no address literal, and its owner names a non-empty consumer and, exactly
  on the drive scope, a non-empty controller. Malformed owners, hosts and identities never reach an operation.\<close>

theorem operations_well_formed:
  assumes "reachable fresh_runtime rstep s" "map_of (rt_heap s) tok = Some (ow, x)"
  shows "wf_owner ow \<and> ARTIFACT_ID (op_id x) \<and> HOST (op_host x) \<and> isIP (canonicalizeHostForIp (op_host x)) = 0"
  using wf.always [OF assms(1)] assms(2) by (auto simp: wf_runtime_def wf_host_def)

lemma operations_well_formed_witness:
  "\<exists>ow x. map_of (rt_heap pdf_runtime) 0 = Some (ow, x) \<and> op_host x = ''example.com'' \<and> wf_owner ow \<and> HOST (op_host x)"
proof -
  have "case map_of (rt_heap pdf_runtime) 0 of None \<Rightarrow> False | Some (ow, x) \<Rightarrow> op_host x = ''example.com''" by code_simp
  then obtain ow x where x: "map_of (rt_heap pdf_runtime) 0 = Some (ow, x)" "op_host x = ''example.com''"
    by (auto split: option.splits)
  then show ?thesis using operations_well_formed [OF pdf_reachable x(1)] by blast
qed

end
