(* ===== verification/Retrieval_Budget.thy ===== *)
theory Retrieval_Budget
  imports Artifact_Runtime
begin

text \<open>
  The retrieval budget (\<open>#spendRetrieval\<close>) against its specification: a rolling window over the attempts
  that were admitted.
\<close>

fun attempts :: "(int \<times> string) list \<Rightarrow> (string \<times> int list) list \<Rightarrow> (int \<times> string \<times> bool) list" where
  \<comment> \<open>what the budget answers to attempts in their order: when, whose, and whether it was refused\<close>
  "attempts [] tries = []"
| "attempts ((now, c) # rest) tries =
     (case spendRetrieval now c tries of (refused, tries') \<Rightarrow> (now, c, refused) # attempts rest tries')"

definition admitted_times :: "string \<Rightarrow> (int \<times> string \<times> bool) list \<Rightarrow> int list" where
  "admitted_times c log = map fst (filter (\<lambda>(u, d, refused). d = c \<and> \<not> refused) log)"

definition in_window :: "int \<Rightarrow> int list \<Rightarrow> nat" where
  \<comment> \<open>how many instants lie in the rolling window that ends at \<open>t\<close>\<close>
  "in_window t us = length (filter (\<lambda>u. t - RETRIEVAL_WINDOW_MS < u \<and> u \<le> t) us)"

definition tries_of :: "(string \<times> int list) list \<Rightarrow> string \<Rightarrow> int list" where
  "tries_of tries c = (case map_of tries c of None \<Rightarrow> [] | Some ts \<Rightarrow> ts)"

definition budget_ok :: "(int \<times> string \<times> bool) list \<Rightarrow> (string \<times> int list) list \<Rightarrow> int \<Rightarrow> bool" where
  "budget_ok log tries now \<longleftrightarrow>
     (\<forall>c. sorted (admitted_times c log) \<and> (\<forall>u \<in> set (admitted_times c log). u \<le> now) \<and>
        (\<exists>k. k \<le> now - RETRIEVAL_WINDOW_MS \<and> tries_of tries c = filter (\<lambda>u. k < u) (admitted_times c log)) \<and>
        (\<forall>t. in_window t (admitted_times c log) \<le> MAX_RETRIEVALS_PER_WINDOW))"

lemma dropWhile_sorted: "sorted us \<Longrightarrow> dropWhile (\<lambda>u. u \<le> k) us = filter (\<lambda>u. k < u) (us :: int list)"
proof (induction us)
  case (Cons u us)
  have "filter (\<lambda>v. k < v) us = us" if "k < u" using Cons.prems that by (intro filter_True) auto
  then show ?case using Cons by (cases "u \<le> k") simp_all
qed simp

lemma admitted_snoc:
  "admitted_times c (log @ [(now, d, refused)]) = admitted_times c log @ (if d = c \<and> \<not> refused then [now] else [])"
  by (simp add: admitted_times_def)

lemma window_snoc:
  assumes "\<forall>u \<in> set us. u \<le> now" "in_window now us < n" "\<forall>t. in_window t us \<le> n"
  shows "in_window t (us @ [now]) \<le> n"
proof (cases "now \<le> t")
  case True
  have "filter (\<lambda>u. t - RETRIEVAL_WINDOW_MS < u \<and> u \<le> t) us =
      filter (\<lambda>u. t - RETRIEVAL_WINDOW_MS < u) (filter (\<lambda>u. now - RETRIEVAL_WINDOW_MS < u \<and> u \<le> now) us)"
    unfolding filter_filter by (rule filter_cong) (use assms(1) True in auto)
  then have "in_window t us \<le> in_window now us" by (simp only: in_window_def length_filter_le)
  then show ?thesis using assms(2) by (simp add: in_window_def)
next
  case False
  then show ?thesis using assms(3) by (simp add: in_window_def)
qed

lemma budget_parts:
  assumes "budget_ok log tries before" "before \<le> now"
  shows "sorted (admitted_times d log)" "\<forall>u \<in> set (admitted_times d log). u \<le> now"
    "\<forall>t. in_window t (admitted_times d log) \<le> MAX_RETRIEVALS_PER_WINDOW"
    "\<exists>k. k \<le> before - RETRIEVAL_WINDOW_MS \<and> tries_of tries d = filter (\<lambda>u. k < u) (admitted_times d log)"
  using assms(1) order_trans [OF _ assms(2)] by (auto simp: budget_ok_def)

lemma live_attempts:
  assumes "budget_ok log tries before" "before \<le> now"
  shows "dropWhile (\<lambda>t. t \<le> now - RETRIEVAL_WINDOW_MS) (tries_of tries c) =
      filter (\<lambda>u. now - RETRIEVAL_WINDOW_MS < u) (admitted_times c log)"
    and "length (filter (\<lambda>u. now - RETRIEVAL_WINDOW_MS < u) (admitted_times c log)) = in_window now (admitted_times c log)"
proof -
  note A = budget_parts [OF assms]
  obtain k where k: "k \<le> before - RETRIEVAL_WINDOW_MS" "tries_of tries c = filter (\<lambda>u. k < u) (admitted_times c log)"
    using A(4) by blast
  have "sorted (tries_of tries c)" using A(1) [of c] k(2) by (simp add: sorted_wrt_filter)
  then have "dropWhile (\<lambda>t. t \<le> now - RETRIEVAL_WINDOW_MS) (tries_of tries c) =
      filter (\<lambda>u. now - RETRIEVAL_WINDOW_MS < u) (tries_of tries c)"
    by (rule dropWhile_sorted)
  also have "\<dots> = filter (\<lambda>u. now - RETRIEVAL_WINDOW_MS < u) (admitted_times c log)"
    using k(1) assms(2) unfolding k(2) filter_filter by (intro filter_cong) auto
  finally show "dropWhile (\<lambda>t. t \<le> now - RETRIEVAL_WINDOW_MS) (tries_of tries c) =
      filter (\<lambda>u. now - RETRIEVAL_WINDOW_MS < u) (admitted_times c log)" .
  show "length (filter (\<lambda>u. now - RETRIEVAL_WINDOW_MS < u) (admitted_times c log)) = in_window now (admitted_times c log)"
    unfolding in_window_def using A(2) [of c] by (intro arg_cong [where f = length] filter_cong) auto
qed

lemma spend_cases:
  assumes "budget_ok log tries before" "before \<le> now" "spendRetrieval now c tries = (refused, tries')"
  shows "refused \<longleftrightarrow> MAX_RETRIEVALS_PER_WINDOW \<le> in_window now (admitted_times c log)"
    and "tries_of tries' d =
      (if d = c then filter (\<lambda>u. now - RETRIEVAL_WINDOW_MS < u) (admitted_times c log) @ (if refused then [] else [now])
       else tries_of tries d)"
proof -
  define L where "L = filter (\<lambda>u. now - RETRIEVAL_WINDOW_MS < u) (admitted_times c log)"
  have eq: "spendRetrieval now c tries =
     (let kept = (if L = [] then alist_del c tries else alist_put c L tries)
      in if MAX_RETRIEVALS_PER_WINDOW \<le> length L then (True, kept) else (False, alist_put c (L @ [now]) kept))"
    unfolding L_def live_attempts(1) [OF assms(1,2), symmetric] spendRetrieval_def tries_of_def Let_def ..
  have "refused \<longleftrightarrow> MAX_RETRIEVALS_PER_WINDOW \<le> length L"
    and "tries_of tries' d = (if d = c then L @ (if refused then [] else [now]) else tries_of tries d)"
    using assms(3) by (auto simp: eq tries_of_def Let_def split: if_splits)
  then show "refused \<longleftrightarrow> MAX_RETRIEVALS_PER_WINDOW \<le> in_window now (admitted_times c log)"
    "tries_of tries' d =
      (if d = c then filter (\<lambda>u. now - RETRIEVAL_WINDOW_MS < u) (admitted_times c log) @ (if refused then [] else [now])
       else tries_of tries d)"
    using live_attempts(2) [OF assms(1,2), of c] by (simp_all add: L_def)
qed

lemma spend_exact:
  assumes ok: "budget_ok log tries before" and now: "before \<le> now" and spend: "spendRetrieval now c tries = (refused, tries')"
  shows "budget_ok (log @ [(now, c, refused)]) tries' now"
  unfolding budget_ok_def
proof (intro allI conjI)
  note A = budget_parts [OF ok now] and cases = spend_cases [OF ok now spend]
  fix d
  show "sorted (admitted_times d (log @ [(now, c, refused)]))" "\<forall>u \<in> set (admitted_times d (log @ [(now, c, refused)])). u \<le> now"
    using A(1,2) [of d] by (auto simp: admitted_snoc sorted_append)
  show "\<exists>k. k \<le> now - RETRIEVAL_WINDOW_MS \<and> tries_of tries' d = filter (\<lambda>u. k < u) (admitted_times d (log @ [(now, c, refused)]))"
  proof (cases "d = c")
    case True
    then show ?thesis using cases(2) [of d]
      by (intro exI [of _ "now - RETRIEVAL_WINDOW_MS"]) (simp add: admitted_snoc RETRIEVAL_WINDOW_MS_def)
  next
    case False
    obtain j where "j \<le> before - RETRIEVAL_WINDOW_MS" "tries_of tries d = filter (\<lambda>u. j < u) (admitted_times d log)"
      using A(4) by blast
    then show ?thesis using False cases(2) [of d] now by (intro exI [of _ j]) (simp add: admitted_snoc)
  qed
  fix t
  have "in_window t (admitted_times c log @ [now]) \<le> MAX_RETRIEVALS_PER_WINDOW" if "\<not> refused"
    using cases(1) that A(2,3) [of c] by (intro window_snoc) auto
  then show "in_window t (admitted_times d (log @ [(now, c, refused)])) \<le> MAX_RETRIEVALS_PER_WINDOW"
    using A(3) [of d] by (auto simp: admitted_snoc)
qed

lemma attempts_exact:
  assumes "budget_ok log tries before" "sorted (before # map fst reqs)" "n < length reqs" "reqs ! n = (now, c)"
  shows "attempts reqs tries ! n =
      (now, c, MAX_RETRIEVALS_PER_WINDOW \<le> in_window now (admitted_times c (log @ take n (attempts reqs tries)))) \<and>
    in_window t (admitted_times d (log @ take (Suc n) (attempts reqs tries))) \<le> MAX_RETRIEVALS_PER_WINDOW"
  using assms
proof (induction reqs arbitrary: log tries before n)
  case (Cons r reqs)
  obtain u e where r: "r = (u, e)" by (cases r)
  obtain refused tries' where spend: "spendRetrieval u e tries = (refused, tries')" by (metis prod.collapse)
  have "before \<le> u" using Cons.prems(2) r by simp
  note now = spend_cases(1) [OF Cons.prems(1) this spend] spend_exact [OF Cons.prems(1) this spend]
  show ?case
  proof (cases n)
    case 0
    then show ?thesis using now Cons.prems(4) r spend by (simp add: budget_ok_def)
  next
    case (Suc m)
    then show ?thesis using Cons.IH [OF now(2), of m] Cons.prems(2-4) r spend by simp
  qed
qed simp

text \<open>C39: The retrieval budget is exactly a rolling minute per consumer. For attempts made at non-decreasing instants, an attempt
  is refused if and only if thirty attempts of the same consumer were admitted in the sixty seconds that end with it,
  whatever other consumers do and however many attempts were refused meanwhile; so in no window of sixty seconds are more
  than thirty admitted.\<close>

theorem retrieval_budget_exact:
  assumes "sorted (map fst reqs)" "n < length reqs" "reqs ! n = (now, c)"
  shows "attempts reqs [] ! n =
      (now, c, 30 \<le> in_window now (admitted_times c (take n (attempts reqs [])))) \<and>
    in_window t (admitted_times d (take (Suc n) (attempts reqs []))) \<le> 30"
proof -
  have ne: "reqs \<noteq> []" using assms(2) by auto
  have "budget_ok [] [] (fst (hd reqs))"
    by (auto simp: budget_ok_def admitted_times_def tries_of_def in_window_def MAX_RETRIEVALS_PER_WINDOW_def)
  moreover have "sorted (fst (hd reqs) # map fst reqs)" using assms(1) ne by (cases reqs) auto
  ultimately show ?thesis
    using attempts_exact [of "[]" "[]" "fst (hd reqs)" reqs n now c t d] assms(2,3)
    by (simp add: MAX_RETRIEVALS_PER_WINDOW_def)
qed

definition demo_reqs :: "(int \<times> string) list" where
  "demo_reqs = [(0, ''a''), (10, ''b''), (70000, ''a'')]"

lemma demo_attempts: "attempts demo_reqs [] = [(0, ''a'', False), (10, ''b'', False), (70000, ''a'', False)]"
  by code_simp

lemma retrieval_budget_exact_witness:
  "30 \<le> in_window 70000 (admitted_times ''a'' [(0, ''a'', False), (10, ''b'', False)]) \<longleftrightarrow> False"
  using retrieval_budget_exact [of demo_reqs 2 70000 "''a''" 0 "''a''"] demo_attempts
  by (simp add: demo_reqs_def numeral_2_eq_2)

end
