(* ===== verification/Response_Lease.thy ===== *)
theory Response_Lease
  imports Prelude Transition "HOL-Library.Multiset"
begin

text \<open>
  The tracker that ties one artifact response to the HTTP response that carries it
  (\<open>src/mcp/http-response-lease.ts\<close>), and the two shape tests on a JSON-RPC body. The request and the
  response are Node's: their events, the timer and the moment the lease's completion settles are steps.
  \<open>terminalize\<close> is one step up to its await: \<open>res.destroy\<close> emits its events later. The calls of
  \<open>complete\<close> are logged, leases are named by numbers, and the test seam is left out.
\<close>

section \<open>The tracker\<close>

datatype response_outcome = Sent | TransportFailed | TimedOut

datatype tracker_state = TrackerIdle | TrackerActive | TrackerTerminal

datatype tracker_error = DuplicateRegistration | TrackerIsTerminal

record tracker =
  tr_state :: tracker_state
  tr_lease :: "nat option"
  tr_timer :: "int option"                \<comment> \<open>the delay the deadline timer was armed with\<close>
  tr_armed :: nat                         \<comment> \<open>sets of listeners on the request and the response\<close>
  tr_listening :: bool                    \<comment> \<open>\<open>onFinish\<close> and its siblings are defined\<close>
  tr_destroyed :: bool
  tr_outcome :: "response_outcome option" \<comment> \<open>of the call that set \<open>terminalizing\<close>\<close>
  tr_settled :: bool
  tr_completions :: "(nat \<times> response_outcome) list"
  tr_handed :: "nat list"                 \<comment> \<open>the arguments of all calls of \<open>register\<close>\<close>
  tr_accepted :: "nat option"

definition new_tracker :: tracker where
  "new_tracker =
     \<lparr>tr_state = TrackerIdle, tr_lease = None, tr_timer = None, tr_armed = 0, tr_listening = False, tr_destroyed = False,
      tr_outcome = None, tr_settled = False, tr_completions = [], tr_handed = [], tr_accepted = None\<rparr>"

definition detachListeners :: "tracker \<Rightarrow> tracker" where
  \<comment> \<open>only the set the fields name\<close>
  "detachListeners s = (if tr_listening s then s\<lparr>tr_armed := tr_armed s - 1, tr_listening := False\<rparr> else s)"

definition clear_deadline :: "tracker \<Rightarrow> tracker" where
  "clear_deadline s = s\<lparr>tr_timer := None\<rparr>"

definition terminalize :: "response_outcome \<Rightarrow> tracker \<Rightarrow> tracker" where
  "terminalize r s =
     (if tr_outcome s \<noteq> None then s
      else (let s1 = clear_deadline (detachListeners (s\<lparr>tr_state := TrackerTerminal\<rparr>));
                s2 = (if r = Sent then s1 else s1\<lparr>tr_destroyed := True\<rparr>)
            in s2\<lparr>tr_lease := None, tr_outcome := Some r,
                  tr_completions := tr_completions s2 @ (case tr_lease s2 of None \<Rightarrow> [] | Some i \<Rightarrow> [(i, r)])\<rparr>))"

definition armListeners :: "tracker \<Rightarrow> tracker" where
  "armListeners s = s\<lparr>tr_armed := tr_armed s + 1, tr_listening := True\<rparr>"

definition activate :: "tracker \<Rightarrow> tracker" where
  "activate s = (if tr_state s \<noteq> TrackerIdle then s else armListeners s)"

definition register_lease :: "int \<Rightarrow> int \<Rightarrow> nat \<Rightarrow> tracker \<Rightarrow> tracker_error option \<times> tracker" where
  \<comment> \<open>a refused lease is completed at once\<close>
  "register_lease now deadline i s0 =
     (let s = s0\<lparr>tr_handed := tr_handed s0 @ [i]\<rparr>;
          refused = s\<lparr>tr_completions := tr_completions s @ [(i, TransportFailed)]\<rparr>
      in case tr_state s of
           TrackerTerminal \<Rightarrow> (Some TrackerIsTerminal, refused)
         | TrackerActive \<Rightarrow> (Some DuplicateRegistration, refused)
         | TrackerIdle \<Rightarrow>
             (let s1 = s\<lparr>tr_state := TrackerActive, tr_lease := Some i, tr_accepted := Some i\<rparr>;
                  s2 = (if tr_listening s1 then s1 else armListeners s1)
              in (None, s2\<lparr>tr_timer := Some (max 0 (deadline - now))\<rparr>)))"

section \<open>As a transition system\<close>

datatype tracker_event =
    Activate | RegisterLease int int nat
  | NodeFinish | NodeClose bool | NodeError    \<comment> \<open>an error or an abort, of either side\<close>
  | DeadlineFires | CompleteRequest response_outcome
  | CompletionSettles

fun tr_able :: "tracker_event \<Rightarrow> tracker \<Rightarrow> bool" where
  "tr_able NodeFinish s = (tr_armed s > 0)"
| "tr_able (NodeClose finished) s = (tr_armed s > 0)"
| "tr_able NodeError s = (tr_armed s > 0)"
| "tr_able DeadlineFires s = (tr_timer s \<noteq> None)"
| "tr_able CompletionSettles s = (tr_outcome s \<noteq> None)"
| "tr_able _ s = True"

fun tr_after :: "tracker_event \<Rightarrow> tracker \<Rightarrow> tracker" where
  "tr_after Activate s = activate s"
| "tr_after (RegisterLease now deadline i) s = snd (register_lease now deadline i s)"
| "tr_after NodeFinish s = terminalize Sent s"
| "tr_after (NodeClose finished) s = terminalize (if finished then Sent else TransportFailed) s"
| "tr_after NodeError s = terminalize TransportFailed s"
| "tr_after DeadlineFires s = terminalize TimedOut s"
| "tr_after (CompleteRequest r) s = terminalize r s"
| "tr_after CompletionSettles s = s\<lparr>tr_settled := True\<rparr>"

definition trstep :: "tracker \<Rightarrow> tracker_event \<Rightarrow> tracker \<Rightarrow> bool" where
  "trstep s e s' \<longleftrightarrow> tr_able e s \<and> s' = tr_after e s"

definition fresh_tracker :: "tracker \<Rightarrow> bool" where
  "fresh_tracker s \<longleftrightarrow> s = new_tracker"

section \<open>The invariant\<close>

definition phase_ok :: "tracker \<Rightarrow> bool" where
  "phase_ok s \<longleftrightarrow>
     (case tr_state s of
        TrackerIdle \<Rightarrow> tr_lease s = None \<and> tr_timer s = None \<and> tr_outcome s = None \<and> tr_accepted s = None
      | TrackerActive \<Rightarrow> tr_lease s \<noteq> None \<and> tr_lease s = tr_accepted s \<and> tr_timer s \<noteq> None \<and> tr_armed s > 0 \<and> tr_outcome s = None
      | TrackerTerminal \<Rightarrow> tr_lease s = None \<and> tr_timer s = None \<and> tr_outcome s \<noteq> None \<and>
          (tr_destroyed s \<longleftrightarrow> tr_outcome s \<noteq> Some Sent)) \<and>
     (tr_settled s \<longrightarrow> tr_outcome s \<noteq> None) \<and> (tr_listening s \<longrightarrow> tr_armed s > 0) \<and> (tr_outcome s = None \<longrightarrow> \<not> tr_destroyed s)"

definition completed_ok :: "(nat \<times> response_outcome) list \<Rightarrow> nat list \<Rightarrow> nat option \<Rightarrow> response_outcome option \<Rightarrow> bool" where
  \<comment> \<open>every lease handed over is completed once for every time, or is the active one; the accepted one with
    the outcome, the refused ones as failed transports\<close>
  "completed_ok completions handed accepted outcome \<longleftrightarrow>
     mset completions =
       image_mset (\<lambda>i. (i, TransportFailed)) (mset handed - (case accepted of None \<Rightarrow> {#} | Some i \<Rightarrow> {#i#})) +
       (case (accepted, outcome) of (Some i, Some r) \<Rightarrow> {#(i, r)#} | _ \<Rightarrow> {#}) \<and>
     (\<forall>i. accepted = Some i \<longrightarrow> i \<in> set handed)"

definition tr_inv :: "tracker \<Rightarrow> bool" where
  "tr_inv s \<longleftrightarrow> phase_ok s \<and> completed_ok (tr_completions s) (tr_handed s) (tr_accepted s) (tr_outcome s) \<and>
     (tr_state s = TrackerIdle \<longrightarrow> tr_handed s = [] \<and> tr_completions s = [])"

lemma completed_refused:
  assumes "completed_ok cs hs a r" shows "completed_ok (cs @ [(i, TransportFailed)]) (hs @ [i]) a r"
proof (cases a)
  case (Some k)
  then have "k \<in># mset hs" using assms by (simp add: completed_ok_def)
  then have "mset (hs @ [i]) - {#k#} = add_mset i (mset hs - {#k#})" by (auto simp: add_mset_remove_trivial_eq)
  then show ?thesis using assms Some by (simp add: completed_ok_def)
qed (use assms in \<open>simp add: completed_ok_def\<close>)

lemma completed_outcome:
  assumes "completed_ok cs hs a None"
  shows "completed_ok (cs @ (case a of None \<Rightarrow> [] | Some i \<Rightarrow> [(i, r)])) hs a (Some r)"
  using assms by (cases a) (auto simp: completed_ok_def)

lemma completed_accepted: "completed_ok [] [i] (Some i) None"
  by (simp add: completed_ok_def)

lemma phase_terminalize: "phase_ok s \<Longrightarrow> phase_ok (terminalize r s)"
  by (cases "tr_state s"; cases "tr_outcome s")
    (auto simp: phase_ok_def terminalize_def detachListeners_def clear_deadline_def Let_def)

lemma terminalize_fields:
  "tr_handed (terminalize r s) = tr_handed s" "tr_accepted (terminalize r s) = tr_accepted s"
  "tr_outcome (terminalize r s) = (if tr_outcome s = None then Some r else tr_outcome s)"
  "tr_completions (terminalize r s) = tr_completions s @
     (if tr_outcome s = None then (case tr_lease s of None \<Rightarrow> [] | Some i \<Rightarrow> [(i, r)]) else [])"
  "tr_state (terminalize r s) = TrackerIdle \<longleftrightarrow> tr_outcome s \<noteq> None \<and> tr_state s = TrackerIdle"
  by (simp_all add: terminalize_def detachListeners_def clear_deadline_def Let_def)

lemma terminalize_inv:
  assumes "tr_inv s" shows "tr_inv (terminalize r s)"
proof (cases "tr_outcome s")
  case None
  then have "tr_lease s = tr_accepted s" using assms by (auto simp: tr_inv_def phase_ok_def split: tracker_state.splits)
  then show ?thesis
    using assms None phase_terminalize completed_outcome [of "tr_completions s" "tr_handed s" "tr_accepted s" r]
    by (auto simp: tr_inv_def terminalize_fields)
qed (use assms in \<open>simp add: terminalize_def\<close>)

lemma activate_inv: "tr_inv s \<Longrightarrow> tr_inv (activate s)"
  by (auto simp: tr_inv_def phase_ok_def activate_def armListeners_def)

lemma register_inv:
  assumes "tr_inv s" shows "tr_inv (snd (register_lease now deadline i s))"
proof (cases "tr_state s")
  case TrackerIdle
  then show ?thesis
    using assms completed_accepted [of i] by (auto simp: tr_inv_def phase_ok_def register_lease_def armListeners_def Let_def)
qed (use assms completed_refused [of "tr_completions s" "tr_handed s" "tr_accepted s" "tr_outcome s" i] in
    \<open>auto simp: tr_inv_def phase_ok_def register_lease_def Let_def\<close>)

lemma settle_inv: "tr_inv s \<Longrightarrow> tr_outcome s \<noteq> None \<Longrightarrow> tr_inv (s\<lparr>tr_settled := True\<rparr>)"
  by (cases "tr_state s") (auto simp: tr_inv_def phase_ok_def)

lemma tr_inv_step: "tr_inv s \<Longrightarrow> trstep s e s' \<Longrightarrow> tr_inv s'"
  by (cases e) (auto simp: trstep_def terminalize_inv activate_inv register_inv settle_inv)

interpretation tracker: inductive_invariant fresh_tracker trstep tr_inv
  by unfold_locales (simp add: fresh_tracker_def new_tracker_def tr_inv_def phase_ok_def completed_ok_def, rule tr_inv_step)

section \<open>Claims\<close>

lemma outcome_stays:
  assumes "trstep s e s'" "tr_inv s" "tr_outcome s = Some r"
  shows "tr_outcome s' = Some r \<and> tr_accepted s' = tr_accepted s"
proof -
  have "tr_state s = TrackerTerminal" using assms(2,3) by (auto simp: tr_inv_def phase_ok_def split: tracker_state.splits)
  then show ?thesis using assms
    by (cases e) (auto simp: trstep_def terminalize_def activate_def register_lease_def Let_def)
qed

lemma outcome_forever:
  assumes "reachable (\<lambda>t. t = s) trstep t" "tr_inv s" "tr_outcome s = Some r"
  shows "tr_inv t \<and> tr_outcome t = Some r \<and> tr_accepted t = tr_accepted s"
  using assms
proof (induction rule: reachable.induct)
  case (more u e v)
  then show ?case using outcome_stays [OF more.hyps(2)] tr_inv_step [OF _ more.hyps(2)] by auto
qed simp

text \<open>C40: A tracker strands no lease and completes none twice. Whatever order registrations, Node's events, the deadline and forced
  completions come in, every lease ever handed to it has been completed exactly once per hand-over, except the one that is
  active; refused hand-overs are completed as failed transports, the accepted one with the first outcome that reached the
  tracker, which no later event changes. An active lease always has listeners on the response and an armed deadline timer,
  whose firing completes it. The response is destroyed exactly when the outcome is not \<open>sent\<close>.\<close>

theorem lease_tracked:
  assumes "reachable fresh_tracker trstep s" "reachable (\<lambda>t. t = s) trstep t"
  shows "(case tr_lease s of
       None \<Rightarrow> mset (map fst (tr_completions s)) = mset (tr_handed s)
     | Some i \<Rightarrow> add_mset i (mset (map fst (tr_completions s))) = mset (tr_handed s) \<and> tr_timer s \<noteq> None \<and> tr_armed s > 0 \<and>
         (i, TimedOut) \<in> set (tr_completions (tr_after DeadlineFires s))) \<and>
    (\<forall>r. tr_outcome s = Some r \<longrightarrow> tr_outcome t = Some r \<and> tr_accepted t = tr_accepted s \<and> (tr_destroyed t \<longleftrightarrow> r \<noteq> Sent) \<and>
       (\<forall>i. tr_accepted s = Some i \<longrightarrow>
          mset (tr_completions t) = add_mset (i, r) (image_mset (\<lambda>k. (k, TransportFailed)) (mset (tr_handed t) - {#i#}))))"
proof -
  have inv: "tr_inv s" by (rule tracker.always [OF assms(1)])
  then have ok: "completed_ok (tr_completions s) (tr_handed s) (tr_accepted s) (tr_outcome s)" by (simp add: tr_inv_def)
  have "image_mset fst (mset (tr_completions s)) =
      mset (tr_handed s) - (case tr_accepted s of None \<Rightarrow> {#} | Some i \<Rightarrow> {#i#}) +
      (case (tr_accepted s, tr_outcome s) of (Some i, Some r) \<Rightarrow> {#i#} | _ \<Rightarrow> {#})"
    using ok by (simp add: completed_ok_def image_mset.compositionality comp_def split: option.split)
  moreover have "i \<in># mset (tr_handed s)" if "tr_accepted s = Some i" for i using ok that by (simp add: completed_ok_def)
  ultimately have names: "case tr_lease s of None \<Rightarrow> mset (map fst (tr_completions s)) = mset (tr_handed s)
     | Some i \<Rightarrow> add_mset i (mset (map fst (tr_completions s))) = mset (tr_handed s)"
    using inv by (cases "tr_state s") (auto simp: tr_inv_def phase_ok_def split: option.splits)
  moreover have "tr_timer s \<noteq> None \<and> tr_armed s > 0 \<and> (i, TimedOut) \<in> set (tr_completions (tr_after DeadlineFires s))"
    if "tr_lease s = Some i" for i
  proof -
    have "tr_state s = TrackerActive" using inv that by (cases "tr_state s") (simp_all add: tr_inv_def phase_ok_def)
    then show ?thesis using inv that by (simp add: tr_inv_def phase_ok_def terminalize_fields(4))
  qed
  moreover have "tr_outcome t = Some r \<and> tr_accepted t = tr_accepted s \<and> (tr_destroyed t \<longleftrightarrow> r \<noteq> Sent) \<and>
      (\<forall>i. tr_accepted s = Some i \<longrightarrow>
        mset (tr_completions t) = add_mset (i, r) (image_mset (\<lambda>k. (k, TransportFailed)) (mset (tr_handed t) - {#i#})))"
    if "tr_outcome s = Some r" for r
    using outcome_forever [OF assms(2) inv that]
    by (auto simp: tr_inv_def phase_ok_def completed_ok_def split: tracker_state.splits)
  ultimately show ?thesis by (auto split: option.splits)
qed

definition demo_tracker_events :: "tracker_event list" where
  "demo_tracker_events = [Activate, RegisterLease 0 15000 1, RegisterLease 1 15001 2, NodeClose False, NodeFinish, RegisterLease 2 15002 3]"

definition tr_do :: "tracker_event \<Rightarrow> tracker \<Rightarrow> tracker option" where
  "tr_do e s = (if tr_able e s then Some (tr_after e s) else None)"

definition demo_tracker :: tracker where
  "demo_tracker = the (run tr_do (take 4 demo_tracker_events) new_tracker)"

lemma tracker_reachable: "reachable fresh_tracker trstep demo_tracker"
proof -
  have "run tr_do (take 4 demo_tracker_events) new_tracker \<noteq> None" by code_simp
  then have r: "run tr_do (take 4 demo_tracker_events) new_tracker = Some demo_tracker" by (auto simp: demo_tracker_def)
  have "reachable fresh_tracker trstep new_tracker" by (rule reachable.start) (simp add: fresh_tracker_def)
  then show ?thesis
    by (rule run_reachable [of tr_do, OF _ r, rotated]) (simp add: tr_do_def trstep_def split: if_splits)
qed

lemma lease_tracked_witness:
  "mset (map fst (tr_completions demo_tracker)) = {#1, 2#} \<and> tr_completions demo_tracker = [(2, TransportFailed), (1, TransportFailed)]"
proof -
  have "reachable (\<lambda>t. t = demo_tracker) trstep demo_tracker" by (rule reachable.start) simp
  moreover have "tr_lease demo_tracker = None" "tr_handed demo_tracker = [1, 2]"
    "tr_completions demo_tracker = [(2, TransportFailed), (1, TransportFailed)]" by code_simp+
  ultimately show ?thesis using lease_tracked [OF tracker_reachable, of demo_tracker] by simp
qed

section \<open>Recognising an artifact retrieval\<close>

definition ARTIFACT_TOOL_NAME :: string where
  "ARTIFACT_TOOL_NAME = ''browser_get_artifact''"

definition is_object :: "json \<Rightarrow> bool" where
  \<comment> \<open>\<open>typeof x === "object"\<close> and not null\<close>
  "is_object x = (case x of JArr xs \<Rightarrow> True | JObj ms \<Rightarrow> True | _ \<Rightarrow> False)"

definition calls_artifact_tool :: "json \<Rightarrow> bool" where
  \<comment> \<open>the shared test of one element; an array has no field of these names\<close>
  "calls_artifact_tool x \<longleftrightarrow>
     jfield ''method'' x = Some (JStr ''tools/call'') \<and>
     (case jfield ''params'' x of
        None \<Rightarrow> False
      | Some params \<Rightarrow> is_object params \<and> jfield ''name'' params = Some (JStr ARTIFACT_TOOL_NAME))"

definition batchContainsArtifactRetrieval :: "json \<Rightarrow> bool" where
  "batchContainsArtifactRetrieval body =
     (case body of JArr entries \<Rightarrow> list_ex (\<lambda>x. is_object x \<and> calls_artifact_tool x) entries | _ \<Rightarrow> False)"

definition isArtifactToolCall :: "json \<Rightarrow> bool" where
  "isArtifactToolCall body = (case body of JObj ms \<Rightarrow> calls_artifact_tool body | _ \<Rightarrow> False)"

lemma one_gate: "\<not> (batchContainsArtifactRetrieval body \<and> isArtifactToolCall body)"
  by (simp add: batchContainsArtifactRetrieval_def isArtifactToolCall_def split: json.split)

lemma batch_is_any_call: "batchContainsArtifactRetrieval (JArr entries) \<longleftrightarrow> list_ex isArtifactToolCall entries"
  by (auto simp: batchContainsArtifactRetrieval_def isArtifactToolCall_def is_object_def calls_artifact_tool_def list_ex_iff
      split: json.split)

end
