(* ===== verification/Spec2Isabelle.thy ===== *)
theory Spec2Isabelle
  imports Prelude Url_Host Egress Secrets Origination Allowlist Consumers Audit_Trail Policy_Engine Interception
    Transition Session Session_Manager Session_Accounting Session_Caps Session_Dirs Session_Safety
    Search_Router Search_Safety Vault_Crypto Vault_Store Vault_Safety
    Gateway_Config Gateway Gateway_Safety
    Artifact_Store Artifact_Books Artifact_Safety Artifact_Claims Artifact_Close Artifact_Leases
    Artifact_Operation Artifact_Operation_Safety Artifact_Operation_Claims
    Artifact_Runtime Artifact_Runtime_Safety Artifact_Runtime_Claims Retrieval_Budget Response_Lease
begin

text \<open>
  A verification library for browse-gateway (TypeScript, \<open>src/src\<close>).
\<close>

end
